(* ===== verification/Prelude.thy ===== *)
theory Prelude
  imports "HOL-Library.Word" "HOL-Library.List_Lexorder" "HOL-Library.Product_Lexorder"
begin

text \<open>
  Shared vocabulary of the development: machine integers and byte strings, Rust's
  \<^verbatim>\<open>Result\<close> as a sum with its combinators, the slice operations of the standard library the
  sources use (\<^verbatim>\<open>position\<close>, \<^verbatim>\<open>split\<close>, \<^verbatim>\<open>split_once\<close>, \<^verbatim>\<open>windows\<close>, \<^verbatim>\<open>starts_with\<close>), checked
  and saturating arithmetic, and the three contracts (locales) that several components
  share: incremental consumers, codecs and multimaps.

  Conventions.  A \<^verbatim>\<open>u8\<close> is an \<open>8 word\<close>, a \<^verbatim>\<open>u64\<close> a \<open>64 word\<close>; \<^verbatim>\<open>usize\<close> values are list lengths
  and indices and are \<open>nat\<close>; \<^verbatim>\<open>i32\<close> and \<^verbatim>\<open>i64\<close> are \<open>int\<close> with the range checks written out.
  Rust's \<^verbatim>\<open>str\<close> and \<^verbatim>\<open>String\<close> are their UTF-8 bytes.
\<close>

unbundle bit_operations_syntax

named_theorems result_simps \<open>rewriting of the Result combinators\<close>
named_theorems slice_simps \<open>rewriting of the slice operations\<close>

section \<open>Machine integers and byte strings\<close>

type_synonym u8 = "8 word"
type_synonym u64 = "64 word"
type_synonym bytes = "u8 list"

definition ascii :: "string \<Rightarrow> bytes" where
  "ascii s = map of_char s"

lemma ascii_Nil [simp]: "ascii [] = []"
  by (simp add: ascii_def)

lemma ascii_Cons [simp]: "ascii (c # cs) = of_char c # ascii cs"
  by (simp add: ascii_def)

text \<open>Literals are equal exactly when their texts are.\<close>

lemma of_char_u8_inj: "(of_char x :: u8) = of_char y \<longleftrightarrow> x = y"
proof
  assume e: "(of_char x :: u8) = of_char y"
  have "unat (of_char c :: u8) = of_char c" for c
  proof -
    have "(of_char c :: u8) = of_nat (of_char c)" by (rule of_nat_of_char [symmetric])
    moreover have "(of_char c :: nat) < 256" by (rule nat_of_char_less_256)
    ultimately show ?thesis by (simp only: unat_of_nat) simp
  qed
  with e have "(of_char x :: nat) = of_char y" by metis
  then show "x = y" by simp
qed simp

lemma ascii_eq: "ascii s = ascii t \<longleftrightarrow> s = t"
  unfolding ascii_def by (rule inj_map_eq_map) (auto intro!: injI simp: of_char_u8_inj)

section \<open>Result\<close>

abbreviation Ok :: "'a \<Rightarrow> 'e + 'a" where
  "Ok \<equiv> Inr"

abbreviation Err :: "'e \<Rightarrow> 'e + 'a" where
  "Err \<equiv> Inl"

text \<open>The \<^verbatim>\<open>?\<close> operator: the error is returned, the value is passed on.\<close>

definition rbind :: "'e + 'a \<Rightarrow> ('a \<Rightarrow> 'e + 'b) \<Rightarrow> 'e + 'b" where
  "rbind r f = (case r of Inl e \<Rightarrow> Inl e | Inr x \<Rightarrow> f x)"

definition ok_or :: "'a option \<Rightarrow> 'e \<Rightarrow> 'e + 'a" where
  "ok_or x e = (case x of None \<Rightarrow> Inl e | Some y \<Rightarrow> Inr y)"

definition map_err :: "('e \<Rightarrow> 'f) \<Rightarrow> 'e + 'a \<Rightarrow> 'f + 'a" where
  "map_err f r = (case r of Inl e \<Rightarrow> Inl (f e) | Inr x \<Rightarrow> Inr x)"

text \<open>\<^verbatim>\<open>Option::map(f).transpose()\<close> for a fallible \<^verbatim>\<open>f\<close>.\<close>

definition opt_try :: "('a \<Rightarrow> 'e + 'b) \<Rightarrow> 'a option \<Rightarrow> 'e + 'b option" where
  "opt_try f x = (case x of None \<Rightarrow> Inr None
     | Some y \<Rightarrow> (case f y of Inl e \<Rightarrow> Inl e | Inr z \<Rightarrow> Inr (Some z)))"

definition ensure :: "bool \<Rightarrow> 'e \<Rightarrow> 'e + unit" where
  "ensure b e = (if b then Inr () else Inl e)"

definition is_ok :: "'e + 'a \<Rightarrow> bool" where
  "is_ok r = (case r of Inl _ \<Rightarrow> False | Inr _ \<Rightarrow> True)"

lemma rbind_simps [simp, result_simps]:
  "rbind (Inl e) f = Inl e"
  "rbind (Inr x) f = f x"
  by (simp_all add: rbind_def)

lemma rbind_eq_Inr [simp, result_simps]:
  "rbind r f = Inr y \<longleftrightarrow> (\<exists>x. r = Inr x \<and> f x = Inr y)"
  by (cases r) simp_all

lemma rbind_eq_Inl [result_simps]:
  "rbind r f = Inl e \<longleftrightarrow> r = Inl e \<or> (\<exists>x. r = Inr x \<and> f x = Inl e)"
  by (cases r) auto

lemma rbind_cong [fundef_cong]:
  "r = r' \<Longrightarrow> (\<And>x. r' = Inr x \<Longrightarrow> f x = g x) \<Longrightarrow> rbind r f = rbind r' g"
  by (cases r') simp_all

lemma is_okE: "is_ok r \<Longrightarrow> (\<And>x. r = Inr x \<Longrightarrow> P) \<Longrightarrow> P"
  by (cases r) (simp_all add: is_ok_def)

lemma ok_or_simps [simp, result_simps]:
  "ok_or None e = Inl e"
  "ok_or (Some x) e = Inr x"
  "ok_or z e = Inr y \<longleftrightarrow> z = Some y"
  "ok_or z e = Inl e' \<longleftrightarrow> z = None \<and> e = e'"
  by (auto simp: ok_or_def split: option.splits)

lemma map_err_simps [simp, result_simps]:
  "map_err f (Inl e) = Inl (f e)"
  "map_err f (Inr x) = Inr x"
  "map_err f r = Inr y \<longleftrightarrow> r = Inr y"
  by (auto simp: map_err_def split: sum.splits)

lemma map_err_eq_Inl [result_simps]:
  "map_err f r = Inl e \<longleftrightarrow> (\<exists>e'. r = Inl e' \<and> e = f e')"
  by (auto simp: map_err_def split: sum.splits)

lemma opt_try_simps [simp, result_simps]:
  "opt_try f None = Inr None"
  "opt_try f (Some y) = rbind (f y) (\<lambda>z. Inr (Some z))"
  by (auto simp: opt_try_def rbind_def)

lemma opt_try_eq_Inr [result_simps]:
  "opt_try f x = Inr r \<longleftrightarrow>
     (case x of None \<Rightarrow> r = None | Some y \<Rightarrow> (\<exists>z. f y = Inr z \<and> r = Some z))"
  by (auto simp: opt_try_def split: option.splits sum.splits)

lemma ensure_simps [simp, result_simps]:
  "ensure True e = Inr ()"
  "ensure False e = Inl e"
  "ensure b e = Inr u \<longleftrightarrow> b"
  "ensure b e = Inl e' \<longleftrightarrow> \<not> b \<and> e' = e"
  by (auto simp: ensure_def)

lemma is_ok_simps [simp, result_simps]:
  "is_ok (Inl e) = False"
  "is_ok (Inr x) = True"
  by (simp_all add: is_ok_def)

section \<open>Slices\<close>

fun position :: "('a \<Rightarrow> bool) \<Rightarrow> 'a list \<Rightarrow> nat option" where
  "position p [] = None"
| "position p (x # xs) = (if p x then Some 0 else map_option Suc (position p xs))"

fun split_on :: "('a \<Rightarrow> bool) \<Rightarrow> 'a list \<Rightarrow> 'a list list" where
  "split_on p [] = [[]]"
| "split_on p (x # xs) =
     (if p x then [] # split_on p xs
      else (case split_on p xs of [] \<Rightarrow> [[x]] | y # ys \<Rightarrow> (x # y) # ys))"

definition split_once :: "'a \<Rightarrow> 'a list \<Rightarrow> ('a list \<times> 'a list) option" where
  "split_once d xs =
     (case position (\<lambda>x. x = d) xs of
        None \<Rightarrow> None
      | Some i \<Rightarrow> Some (take i xs, drop (Suc i) xs))"

definition starts_with :: "'a list \<Rightarrow> 'a list \<Rightarrow> bool" where
  "starts_with p xs \<longleftrightarrow> take (length p) xs = p"

text \<open>\<^verbatim>\<open>haystack.windows(n).position(|w| w == needle)\<close> with \<open>n\<close> the needle's length.\<close>

fun find_sub :: "'a list \<Rightarrow> 'a list \<Rightarrow> nat option" where
  "find_sub p [] = (if p = [] then Some 0 else None)"
| "find_sub p (x # xs) =
     (if starts_with p (x # xs) then Some 0 else map_option Suc (find_sub p xs))"

fun drop_while_end :: "('a \<Rightarrow> bool) \<Rightarrow> 'a list \<Rightarrow> 'a list" where
  "drop_while_end p [] = []"
| "drop_while_end p (x # xs) =
     (case drop_while_end p xs of
        [] \<Rightarrow> (if p x then [] else [x])
      | y # ys \<Rightarrow> x # y # ys)"

text \<open>Removing the elements that satisfy \<open>p\<close> from both ends, as the sources' \<^verbatim>\<open>trim\<close> loops do.\<close>

definition trim_by :: "('a \<Rightarrow> bool) \<Rightarrow> 'a list \<Rightarrow> 'a list" where
  "trim_by p xs = drop_while_end p (dropWhile p xs)"

fun join :: "'a list \<Rightarrow> 'a list list \<Rightarrow> 'a list" where
  "join sep [] = []"
| "join sep [x] = x"
| "join sep (x # y # ys) = x @ sep @ join sep (y # ys)"

lemma position_Some:
  "position p xs = Some i \<Longrightarrow>
     i < length xs \<and> p (xs ! i) \<and> (\<forall>j < i. \<not> p (xs ! j)) \<and> (\<forall>x \<in> set (take i xs). \<not> p x)"
proof (induction xs arbitrary: i)
  case (Cons x xs)
  show ?case
  proof (cases "p x")
    case False
    with Cons.prems obtain k where k: "position p xs = Some k" "i = Suc k" by auto
    have "\<not> p ((x # xs) ! j)" if "j < i" for j
      using that k Cons.IH [OF k(1)] False by (cases j) auto
    with k Cons.IH [OF k(1)] False show ?thesis by auto
  qed (use Cons.prems in auto)
qed simp

lemma position_None: "position p xs = None \<longleftrightarrow> (\<forall>x \<in> set xs. \<not> p x)"
  by (induction xs) auto

lemma position_append:
  "position p (xs @ ys) =
     (case position p xs of Some i \<Rightarrow> Some i | None \<Rightarrow> map_option ((+) (length xs)) (position p ys))"
  by (induction xs; cases "position p ys") (auto split: option.splits)

lemma split_on_ne [simp]: "split_on p xs \<noteq> []"
  by (induction xs) (auto split: list.splits)

lemma split_on_pieces: "ys \<in> set (split_on p xs) \<Longrightarrow> y \<in> set ys \<Longrightarrow> y \<in> set xs \<and> \<not> p y"
proof (induction xs arbitrary: ys)
  case (Cons x xs)
  obtain z zs where "split_on p xs = z # zs" by (cases "split_on p xs") auto
  with Cons.prems Cons.IH [of z] Cons.IH [of ys] show ?case by (cases "p x") auto
qed simp

lemma split_on_none: "\<forall>x \<in> set xs. \<not> p x \<Longrightarrow> split_on p xs = [xs]"
  by (induction xs) auto

lemma split_on_append_sep:
  "\<forall>x \<in> set xs. \<not> p x \<Longrightarrow> p d \<Longrightarrow> split_on p (xs @ d # ys) = xs # split_on p ys"
  by (induction xs) auto

lemma join_split_on: "join [d] (split_on (\<lambda>x. x = d) xs) = xs"
proof (induction xs)
  case (Cons x xs)
  obtain y ys where yys: "split_on (\<lambda>x. x = d) xs = y # ys"
    by (cases "split_on (\<lambda>x. x = d) xs") auto
  with Cons show ?case by (cases ys) auto
qed simp

lemma split_on_join:
  "xss \<noteq> [] \<Longrightarrow> \<forall>xs \<in> set xss. d \<notin> set xs \<Longrightarrow> split_on (\<lambda>x. x = d) (join [d] xss) = xss"
proof (induction xss)
  case (Cons x xss)
  then have "\<forall>y \<in> set x. y \<noteq> d" by auto
  with Cons show ?case
    by (cases xss) (simp_all add: split_on_none split_on_append_sep)
qed simp

lemma split_once_Some:
  "split_once d xs = Some (a, b) \<longleftrightarrow> xs = a @ d # b \<and> d \<notin> set a"
proof
  assume "split_once d xs = Some (a, b)"
  then obtain i where i: "position (\<lambda>x. x = d) xs = Some i" "a = take i xs" "b = drop (Suc i) xs"
    by (auto simp: split_once_def split: option.splits)
  from position_Some [OF i(1)] i(2,3) show "xs = a @ d # b \<and> d \<notin> set a"
    using id_take_nth_drop [of i xs] by auto
next
  assume "xs = a @ d # b \<and> d \<notin> set a"
  then show "split_once d xs = Some (a, b)"
    by (auto simp: split_once_def position_append position_None split: option.splits
        dest!: position_Some)
qed

lemma split_once_None: "split_once d xs = None \<longleftrightarrow> d \<notin> set xs"
  using position_None [of "\<lambda>x. x = d" xs]
  by (auto simp: split_once_def split: option.splits)

lemma starts_with_Nil [simp, slice_simps]: "starts_with [] xs"
  by (simp add: starts_with_def)

lemma starts_with_Cons [simp, slice_simps]:
  "starts_with (p # ps) (x # xs) \<longleftrightarrow> p = x \<and> starts_with ps xs"
  "\<not> starts_with (p # ps) []"
  by (auto simp: starts_with_def)

lemma starts_with_iff: "starts_with p xs \<longleftrightarrow> (\<exists>ys. xs = p @ ys)"
  by (auto simp: starts_with_def) (metis append_take_drop_id)

lemma starts_with_append: "starts_with p xs \<Longrightarrow> starts_with p (xs @ ys)"
  by (auto simp: starts_with_iff)

lemma starts_with_append_long:
  "length p \<le> length xs \<Longrightarrow> starts_with p (xs @ ys) \<longleftrightarrow> starts_with p xs"
  by (simp add: starts_with_def)

lemma find_sub_Some:
  "find_sub p xs = Some i \<Longrightarrow> \<exists>ys. xs = take i xs @ p @ ys \<and> i + length p \<le> length xs"
proof (induction xs arbitrary: i)
  case (Cons x xs)
  show ?case
  proof (cases "starts_with p (x # xs)")
    case True
    with Cons.prems show ?thesis
      by (auto simp: starts_with_iff) (metis le_add1 length_Cons length_append)
  next
    case False
    with Cons.prems obtain k where k: "find_sub p xs = Some k" "i = Suc k" by auto
    from Cons.IH [OF k(1)] k(2) show ?thesis by auto
  qed
qed (auto split: if_splits)

lemma find_sub_append:
  "find_sub p xs = Some i \<Longrightarrow> find_sub p (xs @ ys) = Some i"
proof (induction xs arbitrary: i)
  case (Cons x xs)
  show ?case
  proof (cases "starts_with p (x # xs)")
    case True
    with Cons.prems starts_with_append [OF True, of ys] show ?thesis by simp
  next
    case False
    with Cons.prems obtain k where k: "find_sub p xs = Some k" "i = Suc k" by auto
    from find_sub_Some [OF k(1)] have "length p \<le> length (x # xs)" by auto
    with False have "\<not> starts_with p ((x # xs) @ ys)"
      by (simp only: starts_with_append_long simp_thms)
    with k Cons.IH [OF k(1)] show ?thesis by simp
  qed
qed (auto split: if_splits, cases ys, auto)

lemma drop_while_end_no: "xs \<noteq> [] \<Longrightarrow> \<not> p (last xs) \<Longrightarrow> drop_while_end p xs = xs"
  by (induction xs) (auto split: list.splits if_splits)

lemma drop_while_end_last: "drop_while_end p xs \<noteq> [] \<Longrightarrow> \<not> p (last (drop_while_end p xs))"
  by (induction xs) (auto split: list.splits if_splits)

lemma drop_while_end_prefix: "\<exists>ys. xs = drop_while_end p xs @ ys \<and> (\<forall>y \<in> set ys. p y)"
proof (induction xs)
  case (Cons x xs)
  then obtain ys where ys: "xs = drop_while_end p xs @ ys" "\<forall>y \<in> set ys. p y" by blast
  show ?case
  proof (cases "drop_while_end p xs = [] \<and> p x")
    case True
    with ys show ?thesis by (intro exI [of _ "x # ys"]) auto
  next
    case False
    with ys show ?thesis by (intro exI [of _ ys]) (auto split: list.splits)
  qed
qed simp

lemma set_drop_while_end: "set (drop_while_end p xs) \<subseteq> set xs"
  using drop_while_end_prefix [of xs p] by (metis Un_upper1 set_append)

lemma hd_drop_while_end: "drop_while_end p xs \<noteq> [] \<Longrightarrow> hd (drop_while_end p xs) = hd xs"
  using drop_while_end_prefix [of xs p] by (metis hd_append2)

lemma set_trim_by: "set (trim_by p xs) \<subseteq> set xs"
  unfolding trim_by_def using set_drop_while_end set_dropWhileD by fastforce

lemma trim_by_ends:
  assumes "trim_by p xs \<noteq> []"
  shows "\<not> p (hd (trim_by p xs)) \<and> \<not> p (last (trim_by p xs))"
proof -
  have ne: "dropWhile p xs \<noteq> []"
  proof
    assume "dropWhile p xs = []"
    then have "trim_by p xs = []" by (simp only: trim_by_def drop_while_end.simps)
    with assms show False ..
  qed
  have ne': "drop_while_end p (dropWhile p xs) \<noteq> []"
    using assms unfolding trim_by_def .
  show ?thesis
    unfolding trim_by_def hd_drop_while_end [OF ne']
    by (intro conjI hd_dropWhile [OF ne] drop_while_end_last [OF ne'])
qed

lemma trim_by_id:
  assumes "xs = [] \<or> (\<not> p (hd xs) \<and> \<not> p (last xs))"
  shows "trim_by p xs = xs"
proof (cases "xs = []")
  case False
  with assms have h: "\<not> p (hd xs)" and l: "\<not> p (last xs)" by auto
  from h False have "dropWhile p xs = xs" by (cases xs) auto
  then have "trim_by p xs = drop_while_end p xs" by (simp only: trim_by_def)
  also have "\<dots> = xs" by (rule drop_while_end_no [of xs p, OF False l])
  finally show ?thesis .
qed (simp add: trim_by_def)

lemma trim_by_idem: "trim_by p (trim_by p xs) = trim_by p xs"
proof -
  have "trim_by p xs = [] \<or> (\<not> p (hd (trim_by p xs)) \<and> \<not> p (last (trim_by p xs)))"
    by (cases "trim_by p xs = []") (rule disjI1, assumption, rule disjI2, rule trim_by_ends)
  from trim_by_id [of "trim_by p xs" p, OF this] show ?thesis .
qed

section \<open>Checked arithmetic\<close>

definition checked_add :: "'a::len word \<Rightarrow> 'a word \<Rightarrow> 'a word option" where
  "checked_add a b = (if unat a + unat b < 2 ^ LENGTH('a) then Some (a + b) else None)"

definition checked_mul :: "'a::len word \<Rightarrow> 'a word \<Rightarrow> 'a word option" where
  "checked_mul a b = (if unat a * unat b < 2 ^ LENGTH('a) then Some (a * b) else None)"

definition saturating_sub :: "'a::len word \<Rightarrow> 'a word \<Rightarrow> 'a word" where
  "saturating_sub a b = (if a \<le> b then 0 else a - b)"

text \<open>\<^verbatim>\<open>u64::try_from\<close> of a \<^verbatim>\<open>usize\<close>.\<close>

definition u64_try_from :: "nat \<Rightarrow> u64 option" where
  "u64_try_from n = (if n < 2 ^ 64 then Some (of_nat n) else None)"

lemma unat_u8_less: "unat (b::u8) < 256"
  using unsigned_less [of b, where ?'a = nat] by simp

lemma unat_u64_less: "unat (n::u64) < 18446744073709551616"
  using unsigned_less [of n, where ?'a = nat] by simp

lemma checked_add_Some:
  "checked_add a b = Some c \<Longrightarrow> unat c = unat a + unat b"
  by (auto simp: checked_add_def unat_word_ariths split: if_splits)

lemma checked_add_None: "checked_add (a::'a::len word) b = None \<longleftrightarrow> 2 ^ LENGTH('a) \<le> unat a + unat b"
  by (auto simp: checked_add_def not_less)

text \<open>For evaluation: the same tests on binary integers.\<close>

lemma checked_code [code]:
  "checked_add (a::'a::len word) b = (if uint a + uint b < 2 ^ LENGTH('a) then Some (a + b) else None)"
  "checked_mul (a::'a::len word) b = (if uint a * uint b < 2 ^ LENGTH('a) then Some (a * b) else None)"
proof -
  have "unat a + unat b < 2 ^ LENGTH('a) \<longleftrightarrow> int (unat a + unat b) < int (2 ^ LENGTH('a))"
    by (simp only: of_nat_less_iff)
  then show "checked_add a b = (if uint a + uint b < 2 ^ LENGTH('a) then Some (a + b) else None)"
    by (simp add: checked_add_def)
  have "unat a * unat b < 2 ^ LENGTH('a) \<longleftrightarrow> int (unat a * unat b) < int (2 ^ LENGTH('a))"
    by (simp only: of_nat_less_iff)
  then show "checked_mul a b = (if uint a * uint b < 2 ^ LENGTH('a) then Some (a * b) else None)"
    by (simp add: checked_mul_def)
qed

lemma checked_mul_Some:
  "checked_mul a b = Some c \<Longrightarrow> unat c = unat a * unat b"
  by (auto simp: checked_mul_def unat_word_ariths split: if_splits)

lemma unat_saturating_sub: "unat (saturating_sub a b) = unat a - unat b"
  by (auto simp: saturating_sub_def word_le_nat_alt unat_sub not_le)

lemma u64_try_from_Some: "u64_try_from n = Some w \<Longrightarrow> unat w = n"
  by (auto simp: u64_try_from_def unat_of_nat split: if_splits)

text \<open>Rust's \<^verbatim>\<open>/\<close> on signed integers rounds toward zero (here for a positive divisor).\<close>

definition trunc_div :: "int \<Rightarrow> int \<Rightarrow> int" where
  "trunc_div a b = (if 0 \<le> a then a div b else - ((- a) div b))"

lemma trunc_div_nonneg [simp]: "0 \<le> a \<Longrightarrow> trunc_div a b = a div b"
  by (simp add: trunc_div_def)

definition i32_range :: "int \<Rightarrow> bool" where
  "i32_range x \<longleftrightarrow> - (2 ^ 31) \<le> x \<and> x < 2 ^ 31"

definition i64_range :: "int \<Rightarrow> bool" where
  "i64_range x \<longleftrightarrow> - (2 ^ 63) \<le> x \<and> x < 2 ^ 63"

definition i64_checked :: "int \<Rightarrow> int option" where
  "i64_checked x = (if i64_range x then Some x else None)"

definition i64_saturating :: "int \<Rightarrow> int" where
  "i64_saturating x = max (- (2 ^ 63)) (min (2 ^ 63 - 1) x)"

lemma i64_checked_Some [simp]: "i64_checked x = Some y \<longleftrightarrow> i64_range x \<and> y = x"
  by (auto simp: i64_checked_def)

section \<open>Shared contracts\<close>

text \<open>
  A partial codec: every valid value can be read back from its encoding.  Interpreted by the
  hexadecimal and percent encodings and by the entities of XML text.
\<close>

locale codec =
  fixes encode :: "'a \<Rightarrow> 'b"
    and decode :: "'b \<Rightarrow> 'a option"
    and valid :: "'a \<Rightarrow> bool"
  assumes decode_encode: "valid x \<Longrightarrow> decode (encode x) = Some x"
begin

lemma encode_inj: "valid x \<Longrightarrow> valid y \<Longrightarrow> encode x = encode y \<Longrightarrow> x = y"
  using decode_encode by (metis option.inject)

lemma encode_inj_on: "inj_on encode {x. valid x}"
  by (rule inj_onI) (auto intro: encode_inj)

lemma encode_eq_iff: "valid x \<Longrightarrow> valid y \<Longrightarrow> encode x = encode y \<longleftrightarrow> x = y"
  using encode_inj by blast

end

text \<open>
  A multimap that keeps the order of its entries: \<^verbatim>\<open>get\<close> is the first of \<^verbatim>\<open>get_all\<close>.
  Interpreted by the header map and the query parameters.
\<close>

definition list_first :: "'v list \<Rightarrow> 'v option" where
  "list_first vs = (case vs of [] \<Rightarrow> None | v # _ \<Rightarrow> Some v)"

lemma list_first_simps [simp]: "list_first [] = None" "list_first (v # vs) = Some v"
  by (simp_all add: list_first_def)

locale multimap =
  fixes get :: "'m \<Rightarrow> 'k \<Rightarrow> 'v option"
    and get_all :: "'m \<Rightarrow> 'k \<Rightarrow> 'v list"
  assumes get_first: "get m k = list_first (get_all m k)"
begin

lemma get_None: "get m k = None \<longleftrightarrow> get_all m k = []"
  by (cases "get_all m k") (simp_all add: get_first)

lemma get_Some_in: "get m k = Some v \<Longrightarrow> v \<in> set (get_all m k)"
  by (cases "get_all m k") (simp_all add: get_first)

lemma get_single: "length (get_all m k) = 1 \<Longrightarrow> \<exists>v. get_all m k = [v] \<and> get m k = Some v"
  by (cases "get_all m k") (simp_all add: get_first)

end

text \<open>
  An incremental consumer takes its input in arbitrary fragments.  A call returns the new
  state, the output it appended and a status; \<open>more\<close> says that the status asks for more
  input.  The contract is that splitting the input does not matter: pushing \<open>a\<close> and then \<open>b\<close>
  has the outcome of pushing \<open>a @ b\<close> at once.  States are compared through \<open>view\<close>, which
  forgets how the buffer is laid out.
\<close>

definition outcome :: "('s \<Rightarrow> 'v) \<Rightarrow> 's \<times> 'o list \<times> 'r \<Rightarrow> 'v \<times> 'o list \<times> 'r" where
  "outcome view p = (case p of (s, out, r) \<Rightarrow> (view s, out, r))"

definition prepend :: "'o list \<Rightarrow> 's \<times> 'o list \<times> 'r \<Rightarrow> 's \<times> 'o list \<times> 'r" where
  "prepend out0 p = (case p of (s, out, r) \<Rightarrow> (s, out0 @ out, r))"

lemma outcome_simps [simp]: "outcome view (s, out, r) = (view s, out, r)"
  by (simp add: outcome_def)

lemma prepend_simps [simp]:
  "prepend out0 (s, out, r) = (s, out0 @ out, r)"
  "prepend [] p = p"
  "prepend a (prepend b p) = prepend (a @ b) p"
  by (simp_all add: prepend_def split: prod.splits)

lemma outcome_prepend: "outcome view (prepend out p) = prepend out (outcome view p)"
  by (simp add: prepend_def outcome_def split: prod.splits)

text \<open>The caller's loop: fragments are pushed until the consumer stops asking for more.\<close>

fun feed :: "('s \<Rightarrow> 'i list \<Rightarrow> 's \<times> 'o list \<times> 'r) \<Rightarrow> ('r \<Rightarrow> bool) \<Rightarrow> 's \<Rightarrow> 'i list \<Rightarrow>
  'i list list \<Rightarrow> 's \<times> 'o list \<times> 'r" where
  "feed push more s a [] = push s a"
| "feed push more s a (b # bs) =
     (case push s a of (s', out, r) \<Rightarrow>
        if more r then prepend out (feed push more s' b bs) else (s', out, r))"

text \<open>What every push that asks for more keeps holds of the whole output at the end.\<close>

lemma feed_invariant:
  assumes "P s t" and "feed push more s a bs = (s', out, r)"
    and step: "\<And>s t a s' out r. P s t \<Longrightarrow> push s a = (s', out, r) \<Longrightarrow> more r \<Longrightarrow> P s' (t @ out)"
    and final: "\<And>s t a s' out r. P s t \<Longrightarrow> push s a = (s', out, r) \<Longrightarrow> Q s' (t @ out) r"
  shows "Q s' (t @ out) r"
  using assms(1,2)
proof (induction bs arbitrary: s a t out)
  case Nil
  then show ?case by (simp add: final)
next
  case (Cons b bs)
  obtain s1 o1 r1 where p: "push s a = (s1, o1, r1)" by (cases "push s a") auto
  show ?case
  proof (cases "more r1")
    case True
    obtain s2 o2 r2 where f: "feed push more s1 b bs = (s2, o2, r2)" by (cases "feed push more s1 b bs") auto
    from Cons.IH [OF step [OF Cons.prems(1) p True]] f Cons.prems(2) True show ?thesis by (auto simp: p)
  next
    case False
    with Cons.prems(2) p final [OF Cons.prems(1) p] show ?thesis by simp
  qed
qed

text \<open>The number of fragments after the first that the loop hands over.\<close>

fun fed :: "('s \<Rightarrow> 'i list \<Rightarrow> 's \<times> 'o list \<times> 'r) \<Rightarrow> ('r \<Rightarrow> bool) \<Rightarrow> 's \<Rightarrow> 'i list \<Rightarrow>
  'i list list \<Rightarrow> nat" where
  "fed push more s a [] = 0"
| "fed push more s a (b # bs) =
     (case push s a of (s', out, r) \<Rightarrow> if more r then Suc (fed push more s' b bs) else 0)"

locale incremental =
  fixes push :: "'s \<Rightarrow> 'i list \<Rightarrow> 's \<times> 'o list \<times> 'r"
    and more :: "'r \<Rightarrow> bool"
    and view :: "'s \<Rightarrow> 'v"
    and inv :: "'s \<Rightarrow> bool"
  assumes push_inv: "inv s \<Longrightarrow> push s a = (s', out, r) \<Longrightarrow> more r \<Longrightarrow> inv s'"
    and push_append: "inv s \<Longrightarrow> push s a = (s', out, r) \<Longrightarrow> more r \<Longrightarrow>
      outcome view (push s (a @ b)) = prepend out (outcome view (push s' b))"
begin

lemma feed_concat:
  assumes "inv s"
  shows "outcome view (feed push more s a bs) =
     outcome view (push s (a @ concat (take (fed push more s a bs) bs)))"
  using assms
proof (induction bs arbitrary: s a)
  case (Cons b bs)
  obtain s' out r where p: "push s a = (s', out, r)" by (cases "push s a") auto
  show ?case
  proof (cases "more r")
    case True
    from push_inv [OF Cons.prems p True] have "inv s'" .
    from Cons.IH [OF this, of b] push_append [OF Cons.prems p True]
    show ?thesis by (simp add: p True outcome_prepend)
  qed (simp add: p)
qed simp

lemma feed_all:
  assumes "inv s" and "fed push more s a bs = length bs"
  shows "outcome view (feed push more s a bs) = outcome view (push s (a @ concat bs))"
  using feed_concat [OF assms(1), of a bs] assms(2) by simp

text \<open>Two fragmentations of the same bytes, both read to their ends, cannot be told apart.\<close>

lemma feed_fragmentation:
  assumes "inv s" and "a @ concat bs = c @ concat ds"
    and "fed push more s a bs = length bs" and "fed push more s c ds = length ds"
  shows "outcome view (feed push more s a bs) = outcome view (feed push more s c ds)"
  using feed_all assms by metis

end

end
