(* ===== verification/Text.thy ===== *)
theory Text
  imports Prelude
begin

text \<open>
  Text as the sources see it: the ASCII classes of \<^verbatim>\<open>u8\<close>, UTF-8 (the check behind
  \<^verbatim>\<open>std::str::from_utf8\<close>, the scalars of a string, Unicode white space for \<^verbatim>\<open>str::trim\<close>), and
  decimal and hexadecimal numerals (\<^verbatim>\<open>str::parse\<close>, \<^verbatim>\<open>to_string\<close>, zero-padded formats).
\<close>

section \<open>ASCII classes\<close>

definition is_ascii_digit :: "u8 \<Rightarrow> bool" where
  "is_ascii_digit b \<longleftrightarrow> 0x30 \<le> b \<and> b \<le> 0x39"

definition is_ascii_lowercase :: "u8 \<Rightarrow> bool" where
  "is_ascii_lowercase b \<longleftrightarrow> 0x61 \<le> b \<and> b \<le> 0x7a"

definition is_ascii_uppercase :: "u8 \<Rightarrow> bool" where
  "is_ascii_uppercase b \<longleftrightarrow> 0x41 \<le> b \<and> b \<le> 0x5a"

definition is_ascii_alphanumeric :: "u8 \<Rightarrow> bool" where
  "is_ascii_alphanumeric b \<longleftrightarrow>
     is_ascii_digit b \<or> is_ascii_lowercase b \<or> is_ascii_uppercase b"

definition is_ascii_hexdigit :: "u8 \<Rightarrow> bool" where
  "is_ascii_hexdigit b \<longleftrightarrow>
     is_ascii_digit b \<or> (0x61 \<le> b \<and> b \<le> 0x66) \<or> (0x41 \<le> b \<and> b \<le> 0x46)"

definition is_ascii_graphic :: "u8 \<Rightarrow> bool" where
  "is_ascii_graphic b \<longleftrightarrow> 0x21 \<le> b \<and> b \<le> 0x7e"

definition is_ascii_control :: "u8 \<Rightarrow> bool" where
  "is_ascii_control b \<longleftrightarrow> b \<le> 0x1f \<or> b = 0x7f"

text \<open>\<^verbatim>\<open>u8::is_ascii_whitespace\<close>: space, TAB, LF, FF, CR (not VT).\<close>

definition is_ascii_whitespace :: "u8 \<Rightarrow> bool" where
  "is_ascii_whitespace b \<longleftrightarrow> b = 0x20 \<or> b = 0x09 \<or> b = 0x0a \<or> b = 0x0c \<or> b = 0x0d"

definition is_ascii :: "u8 \<Rightarrow> bool" where
  "is_ascii b \<longleftrightarrow> b < 0x80"

definition to_ascii_lowercase :: "u8 \<Rightarrow> u8" where
  "to_ascii_lowercase b = (if is_ascii_uppercase b then b + 0x20 else b)"

definition to_ascii_uppercase :: "u8 \<Rightarrow> u8" where
  "to_ascii_uppercase b = (if is_ascii_lowercase b then b - 0x20 else b)"

definition eq_ignore_ascii_case :: "bytes \<Rightarrow> bytes \<Rightarrow> bool" where
  "eq_ignore_ascii_case a b \<longleftrightarrow> map to_ascii_lowercase a = map to_ascii_lowercase b"

lemmas ascii_class_defs =
  is_ascii_digit_def is_ascii_lowercase_def is_ascii_uppercase_def is_ascii_alphanumeric_def
  is_ascii_hexdigit_def is_ascii_graphic_def is_ascii_control_def is_ascii_whitespace_def
  is_ascii_def to_ascii_lowercase_def to_ascii_uppercase_def

text \<open>Facts about single bytes are decided by reading the words as natural numbers.\<close>

lemmas byte_arith =
  word_le_nat_alt word_less_nat_alt unat_word_ariths word_unat_eq_iff unat_of_nat

lemma to_ascii_lowercase_idem [simp]:
  "to_ascii_lowercase (to_ascii_lowercase b) = to_ascii_lowercase b"
  by (auto simp: ascii_class_defs byte_arith)

lemma not_upper_lowercase: "\<not> is_ascii_uppercase (to_ascii_lowercase b)"
  by (auto simp: ascii_class_defs byte_arith)

lemma eq_ignore_ascii_case_refl [simp]: "eq_ignore_ascii_case a a"
  by (simp add: eq_ignore_ascii_case_def)

lemma eq_ignore_ascii_case_sym: "eq_ignore_ascii_case a b = eq_ignore_ascii_case b a"
  by (auto simp: eq_ignore_ascii_case_def)

lemma eq_ignore_ascii_case_trans:
  "eq_ignore_ascii_case a b \<Longrightarrow> eq_ignore_ascii_case b c \<Longrightarrow> eq_ignore_ascii_case a c"
  by (simp add: eq_ignore_ascii_case_def)

section \<open>UTF-8\<close>

definition utf8_cont :: "u8 \<Rightarrow> bool" where
  "utf8_cont b \<longleftrightarrow> 0x80 \<le> b \<and> b \<le> 0xbf"

text \<open>
  The length of the well-formed scalar encoding at the front of a byte string, or \<open>None\<close>:
  the table of the Unicode standard (no overlong forms, no surrogates, at most U+10FFFF),
  which is what \<^verbatim>\<open>std::str::from_utf8\<close> accepts.
\<close>

definition utf8_width :: "bytes \<Rightarrow> nat option" where
  "utf8_width s = (case s of
       [] \<Rightarrow> None
     | b0 # r \<Rightarrow>
         if b0 < 0x80 then Some 1
         else if 0xc2 \<le> b0 \<and> b0 \<le> 0xdf then
           (case r of b1 # _ \<Rightarrow> if utf8_cont b1 then Some 2 else None | _ \<Rightarrow> None)
         else if 0xe0 \<le> b0 \<and> b0 \<le> 0xef then
           (case r of b1 # b2 # _ \<Rightarrow>
              if utf8_cont b1 \<and> utf8_cont b2
                \<and> (b0 = 0xe0 \<longrightarrow> 0xa0 \<le> b1) \<and> (b0 = 0xed \<longrightarrow> b1 \<le> 0x9f)
              then Some 3 else None
            | _ \<Rightarrow> None)
         else if 0xf0 \<le> b0 \<and> b0 \<le> 0xf4 then
           (case r of b1 # b2 # b3 # _ \<Rightarrow>
              if utf8_cont b1 \<and> utf8_cont b2 \<and> utf8_cont b3
                \<and> (b0 = 0xf0 \<longrightarrow> 0x90 \<le> b1) \<and> (b0 = 0xf4 \<longrightarrow> b1 \<le> 0x8f)
              then Some 4 else None
            | _ \<Rightarrow> None)
         else None)"

lemma utf8_width_bounds: "utf8_width s = Some n \<Longrightarrow> 0 < n \<and> n \<le> length s \<and> n \<le> 4"
  by (auto simp: utf8_width_def split: list.splits if_splits)

text \<open>\<^verbatim>\<open>str::chars\<close>: the encodings of the scalars in order; \<open>None\<close> where the bytes are not UTF-8.\<close>

function utf8_chars :: "bytes \<Rightarrow> bytes list option" where
  "utf8_chars s =
     (if s = [] then Some []
      else case utf8_width s of
        None \<Rightarrow> None
      | Some n \<Rightarrow> map_option ((#) (take n s)) (utf8_chars (drop n s)))"
  by pat_completeness auto
termination
  by (relation "measure length") (auto dest: utf8_width_bounds)

declare utf8_chars.simps [simp del]

definition utf8_valid :: "bytes \<Rightarrow> bool" where
  "utf8_valid s \<longleftrightarrow> utf8_chars s \<noteq> None"

definition from_utf8 :: "bytes \<Rightarrow> bytes option" where
  "from_utf8 s = (if utf8_valid s then Some s else None)"

lemma utf8_chars_Nil [simp]: "utf8_chars [] = Some []"
  by (simp add: utf8_chars.simps)

lemma utf8_chars_ascii [simp]:
  "b < 0x80 \<Longrightarrow> utf8_chars (b # s) = map_option ((#) [b]) (utf8_chars s)"
  by (subst utf8_chars.simps) (simp add: utf8_width_def)

lemma utf8_valid_ascii: "\<forall>b \<in> set s. b < 0x80 \<Longrightarrow> utf8_valid s"
  unfolding utf8_valid_def by (induction s) auto

lemma utf8_chars_concat: "utf8_chars s = Some cs \<Longrightarrow> concat cs = s"
proof (induction s arbitrary: cs rule: utf8_chars.induct)
  case (1 s)
  show ?case
  proof (cases "s = []")
    case False
    with "1.prems" obtain n ds where n: "utf8_width s = Some n"
      and ds: "utf8_chars (drop n s) = Some ds" "cs = take n s # ds"
      by (subst (asm) utf8_chars.simps) (auto split: option.splits)
    from "1.IH" [OF False n ds(1)] ds(2) show ?thesis by simp
  qed (use "1.prems" in simp)
qed

lemma from_utf8_Some [simp]: "from_utf8 s = Some t \<longleftrightarrow> utf8_valid s \<and> t = s"
  by (auto simp: from_utf8_def)

lemma from_utf8_None [simp]: "from_utf8 s = None \<longleftrightarrow> \<not> utf8_valid s"
  by (auto simp: from_utf8_def)

text \<open>
  \<^verbatim>\<open>char::is_whitespace\<close> (the Unicode White\_Space property) on the encoding of a scalar,
  and \<^verbatim>\<open>str::trim\<close>.
\<close>

definition is_whitespace :: "bytes \<Rightarrow> bool" where
  "is_whitespace c \<longleftrightarrow>
     c \<in> set [[0x09], [0x0a], [0x0b], [0x0c], [0x0d], [0x20], [0xc2, 0x85], [0xc2, 0xa0],
       [0xe1, 0x9a, 0x80], [0xe2, 0x80, 0xa8], [0xe2, 0x80, 0xa9], [0xe2, 0x80, 0xaf],
       [0xe2, 0x81, 0x9f], [0xe3, 0x80, 0x80]]
     \<or> (length c = 3 \<and> c ! 0 = 0xe2 \<and> c ! 1 = 0x80 \<and> 0x80 \<le> c ! 2 \<and> c ! 2 \<le> 0x8a)"

definition str_trim :: "bytes \<Rightarrow> bytes" where
  "str_trim s = (case utf8_chars s of None \<Rightarrow> s | Some cs \<Rightarrow> concat (trim_by is_whitespace cs))"

section \<open>Numerals\<close>

definition digit_val :: "u8 \<Rightarrow> nat" where
  "digit_val b = unat (b - 0x30)"

definition dec_digit :: "nat \<Rightarrow> u8" where
  "dec_digit n = 0x30 + word_of_nat n"

fun dec_nat :: "nat \<Rightarrow> bytes" where
  "dec_nat n = (if n < 10 then [dec_digit n] else dec_nat (n div 10) @ [dec_digit (n mod 10)])"

declare dec_nat.simps [simp del]

text \<open>\<^verbatim>\<open>to_string\<close> of a signed integer and of an unsigned one.\<close>

definition dec_int :: "int \<Rightarrow> bytes" where
  "dec_int x = (if x < 0 then 0x2d # dec_nat (nat (- x)) else dec_nat (nat x))"

text \<open>\<^verbatim>\<open>{:0w}\<close>: zero padding to width \<open>w\<close>, after the sign.\<close>

definition pad_zero :: "nat \<Rightarrow> bytes \<Rightarrow> bytes" where
  "pad_zero w ds = replicate (w - length ds) 0x30 @ ds"

definition dec_int_padded :: "nat \<Rightarrow> int \<Rightarrow> bytes" where
  "dec_int_padded w x =
     (if x < 0 then 0x2d # pad_zero (w - 1) (dec_nat (nat (- x))) else pad_zero w (dec_nat (nat x)))"

definition dec_value :: "bytes \<Rightarrow> nat" where
  "dec_value ds = foldl (\<lambda>acc b. 10 * acc + digit_val b) 0 ds"

definition digits_value :: "bytes \<Rightarrow> nat option" where
  "digits_value ds = (if ds \<noteq> [] \<and> list_all is_ascii_digit ds then Some (dec_value ds) else None)"

text \<open>
  \<^verbatim>\<open>str::parse\<close> for unsigned and signed integers: an optional sign (\<^verbatim>\<open>-\<close> only for the signed
  types), at least one digit, and a value in the type's range.
\<close>

definition parse_unsigned :: "nat \<Rightarrow> bytes \<Rightarrow> nat option" where
  "parse_unsigned bits s =
     (let ds = (case s of [] \<Rightarrow> [] | c # r \<Rightarrow> if c = 0x2b \<and> r \<noteq> [] then r else s)
      in case digits_value ds of None \<Rightarrow> None
         | Some v \<Rightarrow> if v < 2 ^ bits then Some v else None)"

definition parse_signed :: "nat \<Rightarrow> bytes \<Rightarrow> int option" where
  "parse_signed bits s =
     (let v = (case s of
            [] \<Rightarrow> None
          | c # r \<Rightarrow>
              if c = 0x2b then map_option int (digits_value r)
              else if c = 0x2d then map_option (\<lambda>v. - int v) (digits_value r)
              else map_option int (digits_value s))
      in case v of None \<Rightarrow> None
         | Some x \<Rightarrow> if - (2 ^ (bits - 1)) \<le> x \<and> x < 2 ^ (bits - 1) then Some x else None)"

text \<open>
  The digit loop of \<^verbatim>\<open>parse_u64\<close> and \<^verbatim>\<open>parse_content_length\<close>: \<^verbatim>\<open>checked_mul\<close> and \<^verbatim>\<open>checked_add\<close>
  on \<^verbatim>\<open>u64\<close> at every digit.
\<close>

fun checked_digits :: "u64 \<Rightarrow> bytes \<Rightarrow> u64 option" where
  "checked_digits n [] = Some n"
| "checked_digits n (b # bs) =
     (case checked_mul n 10 of None \<Rightarrow> None
      | Some m \<Rightarrow> (case checked_add m (ucast (b - 0x30)) of None \<Rightarrow> None
         | Some k \<Rightarrow> checked_digits k bs))"

lemma digit_val_less: "is_ascii_digit b \<Longrightarrow> digit_val b < 10"
  by (auto simp: ascii_class_defs digit_val_def unat_sub_if' word_le_nat_alt)

lemma dec_digit_props:
  assumes "n < 10"
  shows "is_ascii_digit (dec_digit n)" and "digit_val (dec_digit n) = n"
  using assms by (auto simp: ascii_class_defs dec_digit_def digit_val_def byte_arith)

lemma dec_nat_digits: "dec_nat n \<noteq> [] \<and> list_all is_ascii_digit (dec_nat n)"
proof (induction n rule: dec_nat.induct)
  case (1 n)
  then show ?case by (subst (1 2) dec_nat.simps) (auto simp: dec_digit_props)
qed

lemma dec_value_append: "dec_value (xs @ [b]) = 10 * dec_value xs + digit_val b"
  by (simp add: dec_value_def)

lemma dec_value_dec_nat [simp]: "dec_value (dec_nat n) = n"
proof (induction n rule: dec_nat.induct)
  case (1 n)
  show ?case
  proof (cases "n < 10")
    case True
    then show ?thesis by (subst dec_nat.simps) (simp add: dec_value_def dec_digit_props)
  next
    case False
    with 1 show ?thesis by (subst dec_nat.simps) (simp add: dec_value_append dec_digit_props)
  qed
qed

lemma digits_value_dec_nat [simp]: "digits_value (dec_nat n) = Some n"
  by (simp add: digits_value_def dec_nat_digits)

lemma dec_nat_inj: "dec_nat m = dec_nat n \<Longrightarrow> m = n"
  by (metis dec_value_dec_nat)

lemma dec_nat_hd:
  obtains c r where "dec_nat n = c # r" "is_ascii_digit c"
  using dec_nat_digits [of n] by (cases "dec_nat n") auto

lemma parse_unsigned_dec_nat: "n < 2 ^ bits \<Longrightarrow> parse_unsigned bits (dec_nat n) = Some n"
proof -
  assume n: "n < 2 ^ bits"
  obtain c r where c: "dec_nat n = c # r" "is_ascii_digit c" by (rule dec_nat_hd)
  from c(2) have "c \<noteq> 0x2b" by (auto simp: is_ascii_digit_def)
  with n show ?thesis
    using digits_value_dec_nat [of n] by (simp add: parse_unsigned_def c(1))
qed

lemma parse_signed_dec_int:
  assumes "- (2 ^ (bits - 1)) \<le> x" "x < 2 ^ (bits - 1)"
  shows "parse_signed bits (dec_int x) = Some x"
proof (cases "x < 0")
  case True
  with assms show ?thesis by (simp add: parse_signed_def dec_int_def)
next
  case False
  obtain c r where c: "dec_nat (nat x) = c # r" "is_ascii_digit c" by (rule dec_nat_hd)
  from c(2) have "c \<noteq> 0x2b" "c \<noteq> 0x2d" by (auto simp: is_ascii_digit_def)
  with False assms show ?thesis
    using digits_value_dec_nat [of "nat x"] by (simp add: parse_signed_def dec_int_def c(1))
qed

lemma parse_unsigned_bound: "parse_unsigned bits s = Some v \<Longrightarrow> v < 2 ^ bits"
  by (auto simp: parse_unsigned_def Let_def split: option.splits if_splits list.splits)

lemma parse_signed_bound:
  "parse_signed bits s = Some x \<Longrightarrow> - (2 ^ (bits - 1)) \<le> x \<and> x < 2 ^ (bits - 1)"
  by (auto simp: parse_signed_def Let_def split: option.splits if_splits list.splits)

lemma unat_digit: "unat (ucast (b - 0x30 :: u8) :: u64) = digit_val b"
  by (simp add: digit_val_def unsigned_ucast_eq take_bit_nat_eq_self_iff
      less_trans [OF unat_u8_less])

text \<open>The checked loop computes the decimal value exactly, and fails exactly on overflow.\<close>

lemma checked_digits_value:
  "checked_digits n ds =
     (let v = foldl (\<lambda>acc b. 10 * acc + digit_val b) (unat n) ds
      in if v < 2 ^ 64 then Some (of_nat v) else None)"
proof (induction ds arbitrary: n)
  case Nil
  then show ?case by (simp add: unat_u64_less)
next
  case (Cons b bs)
  have mono: "acc \<le> foldl (\<lambda>acc b. 10 * acc + digit_val b) acc ds" for acc ds
  proof (induction ds arbitrary: acc)
    case (Cons d ds)
    from Cons [of "10 * acc + digit_val d"] show ?case by simp
  qed simp
  show ?case
  proof (cases "10 * unat n + digit_val b < 2 ^ 64")
    case True
    then have "unat n * unat (10::u64) < 2 ^ 64" by simp
    then have m: "checked_mul n 10 = Some (n * 10)" "unat (n * 10) = unat n * 10"
      by (simp_all add: checked_mul_def unat_word_ariths)
    from True m(2) have k: "checked_add (n * 10) (ucast (b - 0x30)) = Some (n * 10 + ucast (b - 0x30))"
      by (simp add: checked_add_def unat_digit)
    from checked_add_Some [OF k] m(2)
    have "unat (n * 10 + ucast (b - 0x30)) = 10 * unat n + digit_val b" by (simp add: unat_digit)
    with m k show ?thesis by (simp add: Cons)
  next
    case False
    have "checked_digits n (b # bs) = None"
    proof (cases "checked_mul n 10")
      case (Some m)
      from checked_mul_Some [OF Some] False have "2 ^ 64 \<le> unat m + digit_val b" by simp
      then have "checked_add m (ucast (b - 0x30)) = None" by (simp add: checked_add_def unat_digit)
      with Some show ?thesis by simp
    qed simp
    moreover have "\<not> foldl (\<lambda>acc b. 10 * acc + digit_val b) (unat n) (b # bs) < 2 ^ 64"
      using False mono [of "10 * unat n + digit_val b" bs] by simp
    ultimately show ?thesis by (simp only: Let_def if_False)
  qed
qed

section \<open>Graphic text\<close>

lemma utf8_chars_of_ascii: "\<forall>b \<in> set s. b < 0x80 \<Longrightarrow> utf8_chars s = Some (map (\<lambda>b. [b]) s)"
  by (induction s) auto

lemma graphic_not_whitespace: "is_ascii_graphic b \<Longrightarrow> \<not> is_whitespace [b]"
  by (auto simp: is_ascii_graphic_def is_whitespace_def)

lemma graphic_ascii: "is_ascii_graphic b \<Longrightarrow> b < 0x80"
  by (auto simp: is_ascii_graphic_def byte_arith)

lemma str_trim_graphic:
  assumes "list_all is_ascii_graphic s"
  shows "str_trim s = s" "str_trim (0x20 # s) = s"
proof -
  have u: "utf8_chars s = Some (map (\<lambda>b. [b]) s)"
    using assms graphic_ascii by (intro utf8_chars_of_ascii) (auto simp: list_all_iff)
  have t: "trim_by is_whitespace (map (\<lambda>b. [b]) s) = map (\<lambda>b. [b]) s"
  proof (rule trim_by_id)
    show "map (\<lambda>b. [b]) s = [] \<or> \<not> is_whitespace (hd (map (\<lambda>b. [b]) s))
       \<and> \<not> is_whitespace (last (map (\<lambda>b. [b]) s))"
      using assms graphic_not_whitespace by (auto simp: list_all_iff hd_map last_map)
  qed
  have c: "concat (map (\<lambda>b. [b]) s) = s" by (induction s) simp_all
  show "str_trim s = s" by (simp add: str_trim_def u t c)
  have "trim_by is_whitespace ([0x20] # map (\<lambda>b. [b]) s) = trim_by is_whitespace (map (\<lambda>b. [b]) s)"
    by (simp add: trim_by_def is_whitespace_def)
  then show "str_trim (0x20 # s) = s" by (simp add: str_trim_def u t c)
qed

lemma digits_graphic: "list_all is_ascii_digit s \<Longrightarrow> list_all is_ascii_graphic s"
  by (auto simp: list_all_iff is_ascii_digit_def is_ascii_graphic_def byte_arith)

end
