(* ===== verification/Http.thy ===== *)
theory Http
  imports Text
begin

text \<open>
  \<^verbatim>\<open>protocol/http.rs\<close>: the bounded, incremental parser of HTTP/1.1 request heads, header maps and
  query parameters, percent decoding, and the path-style split of a request path into bucket
  and key.
\<close>

section \<open>Data\<close>

record HeadLimits =
  max_head_bytes :: nat
  max_request_line_bytes :: nat
  max_header_line_bytes :: nat
  max_headers :: nat

definition HeadLimits_default :: HeadLimits where
  "HeadLimits_default = \<lparr>max_head_bytes = 64 * 1024, max_request_line_bytes = 8 * 1024,
     max_header_line_bytes = 16 * 1024, max_headers = 100\<rparr>"

datatype HttpParseError =
    HeadTooLarge | RequestLineTooLarge | HeaderLineTooLarge | TooManyHeaders
  | InvalidRequestLine | UnsupportedHttpVersion | InvalidRequestTarget | InvalidHeaderName
  | InvalidHeaderValue | DuplicateHost | MissingHost | InvalidContentLength
  | AmbiguousBodyFraming | UnsupportedTransferEncoding | ParserAlreadyCompleted
  | InvalidPercentEncoding | InvalidUtf8Path | InvalidBucket | NulInPath

definition HttpParseError_display :: "HttpParseError \<Rightarrow> bytes" where
  "HttpParseError_display e =
     (case e of
        HeadTooLarge \<Rightarrow> ascii ''HTTP request head exceeds its size limit''
      | RequestLineTooLarge \<Rightarrow> ascii ''HTTP request line exceeds its size limit''
      | HeaderLineTooLarge \<Rightarrow> ascii ''HTTP header line exceeds its size limit''
      | TooManyHeaders \<Rightarrow> ascii ''HTTP request has too many headers''
      | InvalidRequestLine \<Rightarrow> ascii ''invalid HTTP request line''
      | UnsupportedHttpVersion \<Rightarrow> ascii ''only HTTP/1.1 is supported''
      | InvalidRequestTarget \<Rightarrow> ascii ''invalid origin-form HTTP request target''
      | InvalidHeaderName \<Rightarrow> ascii ''invalid HTTP header name''
      | InvalidHeaderValue \<Rightarrow> ascii ''invalid HTTP header value''
      | DuplicateHost \<Rightarrow> ascii ''multiple Host headers are not accepted''
      | MissingHost \<Rightarrow> ascii ''HTTP/1.1 request is missing Host''
      | InvalidContentLength \<Rightarrow> ascii ''invalid or duplicate Content-Length''
      | AmbiguousBodyFraming \<Rightarrow> ascii ''both Transfer-Encoding and Content-Length were supplied''
      | UnsupportedTransferEncoding \<Rightarrow> ascii ''unsupported Transfer-Encoding''
      | ParserAlreadyCompleted \<Rightarrow> ascii ''HTTP request-head parser was already completed''
      | InvalidPercentEncoding \<Rightarrow> ascii ''invalid percent escape in request target''
      | InvalidUtf8Path \<Rightarrow> ascii ''path-style bucket or key is not valid UTF-8''
      | InvalidBucket \<Rightarrow> ascii ''invalid path-style bucket component''
      | NulInPath \<Rightarrow> ascii ''NUL is not representable in a PostgreSQL text key'')"

record Header =
  hdr_name :: bytes
  hdr_value :: bytes

record HeaderMap =
  hm_fields :: "Header list"

record QueryParam =
  raw_name :: bytes
  raw_value :: bytes
  qp_name :: bytes
  qp_value :: bytes

record QueryParams =
  qp_pairs :: "QueryParam list"

record RequestTarget =
  raw_path :: bytes
  raw_query :: "bytes option"
  rt_query :: QueryParams

record RequestHead =
  rh_method :: bytes
  rh_target :: RequestTarget
  rh_headers :: HeaderMap
  rh_content_length :: "u64 option"
  transfer_chunked :: bool

record RequestHeadParser =
  rp_limits :: HeadLimits
  rp_buffer :: bytes
  rp_remainder :: bytes
  rp_completed :: bool

record PathStyleTarget =
  ps_bucket :: "bytes option"
  ps_key :: "bytes option"

section \<open>Lexical helpers\<close>

definition strip_cr :: "bytes \<Rightarrow> HttpParseError + bytes" where
  "strip_cr line =
     (if line \<noteq> [] \<and> last line = 0x0d then Ok (butlast line) else Err InvalidHeaderValue)"

definition is_ows :: "u8 \<Rightarrow> bool" where
  "is_ows b \<longleftrightarrow> b = 0x20 \<or> b = 0x09"

definition trim_ows :: "bytes \<Rightarrow> bytes" where
  "trim_ows value = trim_by is_ows value"

definition valid_field_byte :: "u8 \<Rightarrow> bool" where
  "valid_field_byte b \<longleftrightarrow> b = 0x09 \<or> (b \<ge> 0x20 \<and> b \<noteq> 0x7f)"

definition valid_field_value :: "bytes \<Rightarrow> bool" where
  "valid_field_value value \<longleftrightarrow> list_all valid_field_byte value"

definition is_tchar :: "u8 \<Rightarrow> bool" where
  "is_tchar b \<longleftrightarrow> is_ascii_alphanumeric b \<or> b \<in> set (ascii ''!#$%&'*+-.^_`|~'')"

definition hex_value :: "u8 \<Rightarrow> u8 option" where
  "hex_value b =
     (if 0x30 \<le> b \<and> b \<le> 0x39 then Some (b - 0x30)
      else if 0x61 \<le> b \<and> b \<le> 0x66 then Some (b - 0x61 + 10)
      else if 0x41 \<le> b \<and> b \<le> 0x46 then Some (b - 0x41 + 10)
      else None)"

fun percent_decode :: "bytes \<Rightarrow> HttpParseError + bytes" where
  "percent_decode [] = Ok []"
| "percent_decode (b # rest) =
     (if b \<noteq> 0x25 then rbind (percent_decode rest) (\<lambda>out. Ok (b # out))
      else case rest of
        h # l # rest' \<Rightarrow>
          rbind (ok_or (hex_value h) InvalidPercentEncoding) (\<lambda>high.
          rbind (ok_or (hex_value l) InvalidPercentEncoding) (\<lambda>low.
          rbind (percent_decode rest') (\<lambda>out. Ok ((push_bit 4 high OR low) # out))))
      | _ \<Rightarrow> Err InvalidPercentEncoding)"

definition find_subslice :: "bytes \<Rightarrow> bytes \<Rightarrow> nat option" where
  "find_subslice haystack needle = find_sub needle haystack"

definition parse_content_length :: "bytes \<Rightarrow> HttpParseError + u64" where
  "parse_content_length value =
     (if value = [] \<or> \<not> list_all is_ascii_digit value then Err InvalidContentLength
      else ok_or (checked_digits 0 value) InvalidContentLength)"

section \<open>Header maps and query parameters\<close>

definition HeaderMap_get_all :: "HeaderMap \<Rightarrow> bytes \<Rightarrow> bytes list" where
  "HeaderMap_get_all m n =
     map hdr_value (filter (\<lambda>f. eq_ignore_ascii_case (hdr_name f) n) (hm_fields m))"

definition HeaderMap_get :: "HeaderMap \<Rightarrow> bytes \<Rightarrow> bytes option" where
  "HeaderMap_get m n =
     map_option hdr_value (find (\<lambda>f. eq_ignore_ascii_case (hdr_name f) n) (hm_fields m))"

definition mk_header :: "bytes \<Rightarrow> bytes \<Rightarrow> HttpParseError + Header" where
  "mk_header n v =
     (if n = [] \<or> \<not> list_all is_tchar n then Err InvalidHeaderName
      else let value = trim_ows v in
        if \<not> valid_field_value value then Err InvalidHeaderValue
        else Ok \<lparr>hdr_name = map to_ascii_lowercase n, hdr_value = value\<rparr>)"

fun from_pairs_loop :: "(bytes \<times> bytes) list \<Rightarrow> HttpParseError + Header list" where
  "from_pairs_loop [] = Ok []"
| "from_pairs_loop ((n, v) # ps) =
     rbind (mk_header n v) (\<lambda>f. rbind (from_pairs_loop ps) (\<lambda>fs. Ok (f # fs)))"

definition HeaderMap_from_pairs :: "(bytes \<times> bytes) list \<Rightarrow> HttpParseError + HeaderMap" where
  "HeaderMap_from_pairs ps = rbind (from_pairs_loop ps) (\<lambda>fs. Ok \<lparr>hm_fields = fs\<rparr>)"

definition parse_query_component :: "bytes \<Rightarrow> HttpParseError + QueryParam" where
  "parse_query_component component =
     (let (rn, rv) = (case split_once 0x3d component of Some p \<Rightarrow> p | None \<Rightarrow> (component, []))
      in rbind (percent_decode rn) (\<lambda>n.
         rbind (percent_decode rv) (\<lambda>v.
         Ok \<lparr>raw_name = rn, raw_value = rv, qp_name = n, qp_value = v\<rparr>)))"

fun query_loop :: "bytes list \<Rightarrow> HttpParseError + QueryParam list" where
  "query_loop [] = Ok []"
| "query_loop (c # cs) =
     rbind (parse_query_component c) (\<lambda>p. rbind (query_loop cs) (\<lambda>ps. Ok (p # ps)))"

definition QueryParams_parse :: "bytes \<Rightarrow> HttpParseError + QueryParams" where
  "QueryParams_parse raw =
     (if raw = [] then Ok \<lparr>qp_pairs = []\<rparr>
      else rbind (query_loop (split_on (\<lambda>b. b = 0x26) raw)) (\<lambda>ps. Ok \<lparr>qp_pairs = ps\<rparr>))"

definition QueryParams_get_all :: "QueryParams \<Rightarrow> bytes \<Rightarrow> bytes list" where
  "QueryParams_get_all q n = map qp_value (filter (\<lambda>p. qp_name p = n) (qp_pairs q))"

definition QueryParams_get :: "QueryParams \<Rightarrow> bytes \<Rightarrow> bytes option" where
  "QueryParams_get q n = map_option qp_value (find (\<lambda>p. qp_name p = n) (qp_pairs q))"

section \<open>The request head\<close>

text \<open>
  The lines of a head without its final empty line.  Every line but the last ends in CR LF; a
  line without its CR is an error that is raised only when the loop reaches the line.
\<close>

definition head_lines :: "bytes \<Rightarrow> (HttpParseError + bytes) list" where
  "head_lines bs =
     (let raw_lines = split_on (\<lambda>b. b = 0x0a) bs in
      map strip_cr (butlast raw_lines)
      @ [if 0x0d \<in> set (last raw_lines) then Err InvalidHeaderValue else Ok (last raw_lines)])"

definition parse_request_line ::
  "HeadLimits \<Rightarrow> bytes \<Rightarrow> HttpParseError + (bytes \<times> RequestTarget)" where
  "parse_request_line limits request_line =
     (if length request_line > max_request_line_bytes limits then Err RequestLineTooLarge
      else case split_on (\<lambda>b. b = 0x20) request_line of
        mthd # target # version # more_words \<Rightarrow>
          if more_words \<noteq> [] \<or> mthd = [] \<or> \<not> list_all is_tchar mthd then Err InvalidRequestLine
          else if version \<noteq> ascii ''HTTP/1.1'' then Err UnsupportedHttpVersion
          else if \<not> starts_with [0x2f] target
              \<or> list_ex (\<lambda>b. \<not> (0x21 \<le> b \<and> b \<le> 0x7e)) target \<or> 0x23 \<in> set target
            then Err InvalidRequestTarget
          else
            rbind (ok_or (from_utf8 target) InvalidRequestTarget) (\<lambda>target.
            let (path, query) = (case split_once 0x3f target of
                 Some (p, q) \<Rightarrow> (p, Some q) | None \<Rightarrow> (target, None))
            in rbind (percent_decode path) (\<lambda>_.
               rbind (QueryParams_parse (case query of None \<Rightarrow> [] | Some q \<Rightarrow> q)) (\<lambda>qs.
               Ok (mthd, \<lparr>raw_path = path, raw_query = query, rt_query = qs\<rparr>))))
      | _ \<Rightarrow> Err InvalidRequestLine)"

definition parse_header_line :: "HeadLimits \<Rightarrow> bytes \<Rightarrow> HttpParseError + Header" where
  "parse_header_line limits line =
     (if length line > max_header_line_bytes limits then Err HeaderLineTooLarge
      else if line = [] \<or> hd line = 0x20 \<or> hd line = 0x09 then Err InvalidHeaderValue
      else case position (\<lambda>b. b = 0x3a) line of
        None \<Rightarrow> Err InvalidHeaderName
      | Some colon \<Rightarrow> mk_header (take colon line) (drop (colon + 1) line))"

fun parse_header_lines ::
  "HeadLimits \<Rightarrow> nat \<Rightarrow> (HttpParseError + bytes) list \<Rightarrow> HttpParseError + Header list" where
  "parse_header_lines limits index [] = Ok []"
| "parse_header_lines limits index (raw_line # raw_lines) =
     (if index \<ge> max_headers limits then Err TooManyHeaders
      else rbind raw_line (\<lambda>line.
           rbind (parse_header_line limits line) (\<lambda>f.
           rbind (parse_header_lines limits (index + 1) raw_lines) (\<lambda>fs. Ok (f # fs)))))"

definition check_host :: "HeaderMap \<Rightarrow> HttpParseError + unit" where
  "check_host headers =
     (let host_count = length (HeaderMap_get_all headers (ascii ''host'')) in
      if host_count = 0 then Err MissingHost
      else if host_count \<noteq> 1 \<or> HeaderMap_get headers (ascii ''host'') = Some [] then Err DuplicateHost
      else Ok ())"

definition body_framing :: "HeaderMap \<Rightarrow> HttpParseError + (u64 option \<times> bool)" where
  "body_framing headers =
     (let content_lengths = HeaderMap_get_all headers (ascii ''content-length'') in
      rbind (opt_try parse_content_length (list_first content_lengths)) (\<lambda>content_length.
      if length content_lengths > 1 then Err InvalidContentLength
      else
       (let transfer_values = HeaderMap_get_all headers (ascii ''transfer-encoding'') in
        if content_length \<noteq> None \<and> transfer_values \<noteq> [] then Err AmbiguousBodyFraming
        else if transfer_values = [] then Ok (content_length, False)
        else
         (let combined = map trim_ows (concat (map (split_on (\<lambda>b. b = 0x2c)) transfer_values)) in
          if length combined \<noteq> 1 \<or> \<not> eq_ignore_ascii_case (combined ! 0) (ascii ''chunked'')
          then Err UnsupportedTransferEncoding
          else Ok (content_length, True)))))"

definition parse_complete_head :: "bytes \<Rightarrow> HeadLimits \<Rightarrow> HttpParseError + RequestHead" where
  "parse_complete_head bs limits =
     (case head_lines bs of
        [] \<Rightarrow> Err InvalidRequestLine
      | first_line # lines \<Rightarrow>
          rbind first_line (\<lambda>request_line.
          rbind (parse_request_line limits request_line) (\<lambda>(mthd, target).
          rbind (parse_header_lines limits 0 lines) (\<lambda>fs.
          if length fs > max_headers limits then Err TooManyHeaders
          else
           (let headers = \<lparr>hm_fields = fs\<rparr> in
            rbind (check_host headers) (\<lambda>_.
            rbind (body_framing headers) (\<lambda>(content_length, chunked).
            Ok \<lparr>rh_method = mthd, rh_target = target, rh_headers = headers,
                rh_content_length = content_length, transfer_chunked = chunked\<rparr>)))))))"

section \<open>The incremental parser\<close>

definition RequestHeadParser_new :: "HeadLimits \<Rightarrow> RequestHeadParser" where
  "RequestHeadParser_new limits =
     \<lparr>rp_limits = limits, rp_buffer = [], rp_remainder = [], rp_completed = False\<rparr>"

definition CRLF2 :: bytes where
  "CRLF2 = [0x0d, 0x0a, 0x0d, 0x0a]"

definition RequestHeadParser_push ::
  "RequestHeadParser \<Rightarrow> bytes \<Rightarrow> RequestHeadParser \<times> (HttpParseError + RequestHead option)" where
  "RequestHeadParser_push p bs =
     (if rp_completed p then (p, Err ParserAlreadyCompleted)
      else
       (let buffer = rp_buffer p @ bs; p1 = p\<lparr>rp_buffer := buffer\<rparr> in
        case find_subslice buffer CRLF2 of
          None \<Rightarrow>
            if length buffer > max_head_bytes (rp_limits p) then (p1, Err HeadTooLarge)
            else (p1, Ok None)
        | Some end \<Rightarrow>
            let head_end = end + 4 in
            if head_end > max_head_bytes (rp_limits p) then (p1, Err HeadTooLarge)
            else case parse_complete_head (take end buffer) (rp_limits p) of
              Inl e \<Rightarrow> (p1, Err e)
            | Inr request \<Rightarrow>
                (p1\<lparr>rp_remainder := rp_remainder p @ drop head_end buffer, rp_buffer := [],
                    rp_completed := True\<rparr>, Ok (Some request))))"

definition take_remainder :: "RequestHeadParser \<Rightarrow> RequestHeadParser \<times> bytes" where
  "take_remainder p = (p\<lparr>rp_remainder := []\<rparr>, rp_remainder p)"

section \<open>Path-style targets\<close>

definition parse_path_key :: "bytes \<Rightarrow> HttpParseError + bytes" where
  "parse_path_key raw =
     rbind (percent_decode raw) (\<lambda>bs.
     if 0 \<in> set bs then Err NulInPath
     else ok_or (from_utf8 bs) InvalidUtf8Path)"

definition parse_path_style :: "bytes \<Rightarrow> HttpParseError + PathStyleTarget" where
  "parse_path_style path =
     (if \<not> starts_with [0x2f] path \<or> 0x3f \<in> set path \<or> 0x23 \<in> set path
      then Err InvalidRequestTarget
      else if path = [0x2f] then Ok \<lparr>ps_bucket = None, ps_key = None\<rparr>
      else
       (let rest = drop 1 path;
            (bucket_raw, key_raw) = (case split_once 0x2f rest of
               Some (b, k) \<Rightarrow> (b, Some k) | None \<Rightarrow> (rest, None))
        in rbind (percent_decode bucket_raw) (\<lambda>bucket_bytes.
           if bucket_bytes = [] \<or> 0x2f \<in> set bucket_bytes \<or> list_ex is_ascii_control bucket_bytes
           then Err InvalidBucket
           else if 0 \<in> set bucket_bytes then Err NulInPath
           else
             rbind (ok_or (from_utf8 bucket_bytes) InvalidUtf8Path) (\<lambda>bucket.
             rbind (opt_try parse_path_key key_raw) (\<lambda>key.
             Ok \<lparr>ps_bucket = Some bucket, ps_key = key\<rparr>)))))"

section \<open>Lemmas on the lexical helpers\<close>

lemma is_tchar_lowercase: "is_tchar b \<Longrightarrow> is_tchar (to_ascii_lowercase b)"
  by (cases "is_ascii_uppercase b")
    (auto simp: is_tchar_def ascii_class_defs byte_arith)

lemma is_tchar_not: "is_tchar b \<Longrightarrow> b \<notin> {0x3a, 0x0d, 0x0a, 0x20, 0x09, 0}"
  by (auto simp: is_tchar_def ascii_class_defs)

lemma lowercase_fixed: "list_all (\<lambda>b. \<not> is_ascii_uppercase b) n \<Longrightarrow> map to_ascii_lowercase n = n"
  by (induction n) (auto simp: to_ascii_lowercase_def)

lemma valid_field_byte_not: "valid_field_byte b \<Longrightarrow> b \<notin> {0x0d, 0x0a, 0}"
  by (auto simp: valid_field_byte_def)

lemma trim_ows_idem [simp]: "trim_ows (trim_ows v) = trim_ows v"
  unfolding trim_ows_def by (rule trim_by_idem)

lemma length_drop_while_end: "length (drop_while_end p xs) \<le> length xs"
  using drop_while_end_prefix [of xs p] by (metis le_add1 length_append)

lemma length_trim_ows: "length (trim_ows v) \<le> length v"
  unfolding trim_ows_def trim_by_def
  using length_drop_while_end [of is_ows "dropWhile is_ows v"] length_dropWhile_le [of is_ows v]
  by linarith

lemma parse_content_length_exact:
  "parse_content_length v =
     (if v \<noteq> [] \<and> list_all is_ascii_digit v \<and> dec_value v < 2 ^ 64
      then Ok (of_nat (dec_value v)) else Err InvalidContentLength)"
  by (simp add: parse_content_length_def checked_digits_value Let_def flip: dec_value_def)

section \<open>Multimaps\<close>

lemma find_first: "find p xs = list_first (filter p xs)"
  by (induction xs) auto

lemma first_map: "list_first (map f xs) = map_option f (list_first xs)"
  by (cases xs) auto

interpretation headers: multimap HeaderMap_get HeaderMap_get_all
  by unfold_locales (simp add: HeaderMap_get_def HeaderMap_get_all_def find_first first_map)

interpretation query: multimap QueryParams_get QueryParams_get_all
  by unfold_locales (simp add: QueryParams_get_def QueryParams_get_all_def find_first first_map)

section \<open>Fragmentation of the request head\<close>

definition head_push ::
  "RequestHeadParser \<Rightarrow> bytes \<Rightarrow> RequestHeadParser \<times> unit list \<times> (HttpParseError + RequestHead option)" where
  "head_push p bs = (case RequestHeadParser_push p bs of (p', r) \<Rightarrow> (p', [], r))"

definition head_more :: "HttpParseError + RequestHead option \<Rightarrow> bool" where
  "head_more r \<longleftrightarrow> r = Ok None"

lemma RequestHeadParser_push_None:
  "RequestHeadParser_push p a = (p', Ok None) \<longleftrightarrow>
     \<not> rp_completed p \<and> p' = p\<lparr>rp_buffer := rp_buffer p @ a\<rparr>
     \<and> find_subslice (rp_buffer p @ a) CRLF2 = None
     \<and> length (rp_buffer p @ a) \<le> max_head_bytes (rp_limits p)"
  by (auto simp: RequestHeadParser_push_def Let_def split: option.splits sum.splits)

lemma push_after_None:
  assumes "RequestHeadParser_push p a = (p', Ok None)"
  shows "RequestHeadParser_push p' b = RequestHeadParser_push p (a @ b)"
  using assms unfolding RequestHeadParser_push_None
  by (simp add: RequestHeadParser_push_def Let_def split: option.splits sum.splits)

interpretation head: incremental head_push head_more "\<lambda>p. p" "\<lambda>_. True"
proof unfold_locales
  fix s a s' and out :: "unit list" and r b
  assume p: "head_push s a = (s', out, r)" and m: "head_more r"
  then have o: "out = []" and n: "RequestHeadParser_push s a = (s', Ok None)"
    by (auto simp: head_push_def head_more_def split: prod.splits)
  show "outcome (\<lambda>p. p) (head_push s (a @ b)) = prepend out (outcome (\<lambda>p. p) (head_push s' b))"
    by (simp add: head_push_def o push_after_None [OF n])
qed simp

lemma find_sub_take:
  "find_sub p xs = Some i \<Longrightarrow> i + length p \<le> n \<Longrightarrow> find_sub p (take n xs) = Some i"
proof (induction xs arbitrary: i n)
  case (Cons x xs)
  show ?case
  proof (cases "starts_with p (x # xs)")
    case True
    with Cons.prems have "i = 0" by simp
    with Cons.prems have "length p \<le> n" by simp
    with True have "starts_with p (take n (x # xs))" by (simp add: starts_with_def min_def)
    then show ?thesis using \<open>i = 0\<close> by (cases n) (auto simp: starts_with_iff)
  next
    case False
    with Cons.prems obtain k where k: "find_sub p xs = Some k" "i = Suc k" by auto
    with Cons.prems obtain m where m: "n = Suc m" "k + length p \<le> m" by (cases n) auto
    from False have "\<not> starts_with p (x # take m xs)"
      using starts_with_append [of p "take n (x # xs)" "drop n (x # xs)"] m(1) by auto
    with Cons.IH [OF k(1) m(2)] k m show ?thesis by simp
  qed
qed simp

text \<open>The verdict of a call that does not ask for more input is not changed by later bytes.\<close>

lemma push_verdict_stable:
  assumes "\<not> rp_completed p" and "RequestHeadParser_push p a = (p', r)" and "r \<noteq> Ok None"
  shows "\<exists>p''. RequestHeadParser_push p (a @ b) = (p'', r)
     \<and> (\<forall>h. r = Ok (Some h) \<longrightarrow> rp_remainder p'' = rp_remainder p' @ b)"
proof (cases "find_subslice (rp_buffer p @ a) CRLF2")
  case None
  with assms have r: "r = Err HeadTooLarge"
    and long: "length (rp_buffer p @ a) > max_head_bytes (rp_limits p)"
    by (auto simp: RequestHeadParser_push_def Let_def split: if_splits)
  show ?thesis
  proof (cases "find_subslice (rp_buffer p @ (a @ b)) CRLF2")
    case None
    with assms(1) long r show ?thesis by (simp add: RequestHeadParser_push_def Let_def)
  next
    case (Some e)
    have "max_head_bytes (rp_limits p) < e + 4"
    proof (rule ccontr)
      assume "\<not> max_head_bytes (rp_limits p) < e + 4"
      with long have "e + length CRLF2 \<le> length (rp_buffer p @ a)" by (simp add: CRLF2_def)
      from find_sub_take [OF Some [unfolded find_subslice_def] this] None
      show False by (simp add: find_subslice_def)
    qed
    with assms(1) Some r show ?thesis by (simp add: RequestHeadParser_push_def Let_def)
  qed
next
  case (Some e)
  then have s: "find_subslice (rp_buffer p @ a @ b) CRLF2 = Some e"
    using find_sub_append [of CRLF2 "rp_buffer p @ a" e b] by (simp add: find_subslice_def)
  from find_sub_Some [OF Some [unfolded find_subslice_def]]
  have e: "e + 4 \<le> length (rp_buffer p @ a)" by (auto simp: CRLF2_def)
  then have t: "take e (rp_buffer p @ a @ b) = take e (rp_buffer p @ a)"
    "drop (e + 4) (rp_buffer p @ a @ b) = drop (e + 4) (rp_buffer p @ a) @ b"
    by (auto simp: append_assoc [symmetric] simp del: append_assoc)
  from assms Some s show ?thesis
    by (auto simp: RequestHeadParser_push_def Let_def t simp del: take_append drop_append
        split: if_splits sum.splits)
qed

lemma head_push_eq: "head_push p a = (p', out, r) \<longleftrightarrow> out = [] \<and> RequestHeadParser_push p a = (p', r)"
  by (auto simp: head_push_def split: prod.splits)

lemma feed_head_verdict:
  "\<not> rp_completed p \<Longrightarrow>
   snd (snd (feed head_push head_more p a bs)) = snd (RequestHeadParser_push p (a @ concat bs))"
proof (induction bs arbitrary: p a)
  case Nil
  then show ?case by (simp add: head_push_def split: prod.splits)
next
  case (Cons b bs)
  obtain p' r where p: "RequestHeadParser_push p a = (p', r)" by fastforce
  show ?case
  proof (cases "r = Ok None")
    case True
    with p Cons.prems have "\<not> rp_completed p'" by (simp add: RequestHeadParser_push_None)
    from Cons.IH [OF this, of b] push_after_None [of p a p'] p True show ?thesis
      by (simp add: head_push_def head_more_def prepend_def split: prod.splits)
  next
    case False
    from push_verdict_stable [OF Cons.prems p False, of "b @ concat bs"] p False show ?thesis
      by (auto simp: head_push_def head_more_def)
  qed
qed

lemma feed_head_remainder:
  "\<not> rp_completed p \<Longrightarrow> RequestHeadParser_push p (a @ concat bs) = (q, Ok (Some h)) \<Longrightarrow>
   rp_remainder (fst (feed head_push head_more p a bs))
     @ concat (drop (fed head_push head_more p a bs) bs) = rp_remainder q"
proof (induction bs arbitrary: p a)
  case Nil
  then show ?case by (simp add: head_push_def)
next
  case (Cons b bs)
  obtain p' r where p: "RequestHeadParser_push p a = (p', r)" by fastforce
  show ?case
  proof (cases "r = Ok None")
    case True
    with p Cons.prems(1) have "\<not> rp_completed p'" by (simp add: RequestHeadParser_push_None)
    from Cons.IH [OF this, of b] push_after_None [of p a p'] p True Cons.prems(2) show ?thesis
      by (simp add: head_push_def head_more_def prepend_def split: prod.splits)
  next
    case False
    from push_verdict_stable [OF Cons.prems(1) p False, of "b @ concat bs"] p False Cons.prems(2)
    show ?thesis by (auto simp: head_push_def head_more_def)
  qed
qed

section \<open>Well-formed heads\<close>

text \<open>
  The heads the parser produces, and the bytes they stand for: one line per field, with the
  field's name in lower case and no optional white space.
\<close>

definition CRLF :: bytes where
  "CRLF = [0x0d, 0x0a]"

definition target_bytes :: "RequestTarget \<Rightarrow> bytes" where
  "target_bytes t = raw_path t @ (case raw_query t of None \<Rightarrow> [] | Some q \<Rightarrow> 0x3f # q)"

definition request_line_bytes :: "RequestHead \<Rightarrow> bytes" where
  "request_line_bytes h =
     rh_method h @ [0x20] @ target_bytes (rh_target h) @ [0x20] @ ascii ''HTTP/1.1''"

definition field_line :: "Header \<Rightarrow> bytes" where
  "field_line f = hdr_name f @ [0x3a] @ hdr_value f"

definition render_head :: "RequestHead \<Rightarrow> bytes" where
  "render_head h =
     join CRLF (request_line_bytes h # map field_line (hm_fields (rh_headers h)))"

definition target_wf :: "RequestTarget \<Rightarrow> bool" where
  "target_wf t \<longleftrightarrow>
     starts_with [0x2f] (raw_path t) \<and> 0x3f \<notin> set (raw_path t)
     \<and> list_all is_ascii_graphic (target_bytes t) \<and> 0x23 \<notin> set (target_bytes t)
     \<and> is_ok (percent_decode (raw_path t))
     \<and> QueryParams_parse (case raw_query t of None \<Rightarrow> [] | Some q \<Rightarrow> q) = Ok (rt_query t)"

definition name_wf :: "bytes \<Rightarrow> bool" where
  "name_wf n \<longleftrightarrow> n \<noteq> [] \<and> list_all is_tchar n \<and> list_all (\<lambda>b. \<not> is_ascii_uppercase b) n"

definition value_wf :: "bytes \<Rightarrow> bool" where
  "value_wf v \<longleftrightarrow> valid_field_value v \<and> trim_ows v = v"

definition field_wf :: "HeadLimits \<Rightarrow> Header \<Rightarrow> bool" where
  "field_wf limits f \<longleftrightarrow>
     name_wf (hdr_name f) \<and> value_wf (hdr_value f)
     \<and> length (field_line f) \<le> max_header_line_bytes limits"

definition head_wf :: "HeadLimits \<Rightarrow> RequestHead \<Rightarrow> bool" where
  "head_wf limits h \<longleftrightarrow>
     rh_method h \<noteq> [] \<and> list_all is_tchar (rh_method h)
     \<and> length (request_line_bytes h) \<le> max_request_line_bytes limits
     \<and> target_wf (rh_target h)
     \<and> list_all (field_wf limits) (hm_fields (rh_headers h))
     \<and> length (hm_fields (rh_headers h)) \<le> max_headers limits
     \<and> check_host (rh_headers h) = Ok ()
     \<and> body_framing (rh_headers h) = Ok (rh_content_length h, transfer_chunked h)"

subsection \<open>What the parser returns is well formed\<close>

lemma mk_header_wf:
  "mk_header n v = Ok f \<Longrightarrow> name_wf (hdr_name f) \<and> value_wf (hdr_value f)
     \<and> length (hdr_name f) = length n \<and> length (hdr_value f) \<le> length v"
  by (auto simp: mk_header_def name_wf_def value_wf_def Let_def list_all_iff is_tchar_lowercase
      not_upper_lowercase length_trim_ows split: if_splits)

lemma parse_header_line_wf: "parse_header_line limits line = Ok f \<Longrightarrow> field_wf limits f"
  using length_trim_ows
  by (auto simp: parse_header_line_def field_wf_def field_line_def split: if_splits option.splits
      dest!: mk_header_wf position_Some)

lemma parse_header_lines_wf:
  "parse_header_lines limits i ls = Ok fs \<Longrightarrow>
     list_all (field_wf limits) fs \<and> (fs \<noteq> [] \<longrightarrow> i + length fs \<le> max_headers limits)"
proof (induction ls arbitrary: i fs)
  case (Cons l ls)
  then show ?case
    by (auto simp: parse_header_line_wf split: if_splits dest!: Cons.IH)
qed simp

lemma parse_request_line_wf:
  assumes "parse_request_line limits line = Ok (m, t)"
  shows "m \<noteq> []" "list_all is_tchar m" "target_wf t"
    "m @ [0x20] @ target_bytes t @ [0x20] @ ascii ''HTTP/1.1'' = line"
    "length line \<le> max_request_line_bytes limits"
    "length (m @ [0x20] @ target_bytes t @ [0x20] @ ascii ''HTTP/1.1'') \<le> max_request_line_bytes limits"
proof -
  obtain mm tb where w0: "split_on (\<lambda>b. b = 0x20) line = [mm, tb, ascii ''HTTP/1.1'']"
    and m0: "mm \<noteq> []" "list_all is_tchar mm" and sl: "starts_with [0x2f] tb"
    and gr: "list_all is_ascii_graphic tb" "0x23 \<notin> set tb"
    and len: "length line \<le> max_request_line_bytes limits"
    and t0: "(let (path, query) = (case split_once 0x3f tb of
                 Some (p, q) \<Rightarrow> (p, Some q) | None \<Rightarrow> (tb, None))
            in rbind (percent_decode path) (\<lambda>_.
               rbind (QueryParams_parse (case query of None \<Rightarrow> [] | Some q \<Rightarrow> q)) (\<lambda>qs.
               Ok (mm, \<lparr>raw_path = path, raw_query = query, rt_query = qs\<rparr>)))) = Ok (m, t)"
    using assms unfolding parse_request_line_def
    by (auto simp: list_all_iff list_ex_iff is_ascii_graphic_def simp del: ascii_Cons ascii_Nil
        split: if_splits list.splits)
  from t0 have "mm = m" by (auto split: prod.splits)
  note w = w0 [unfolded this] and m = m0 [unfolded this] and t = t0 [unfolded this]
  have tb: "target_bytes t = tb \<and> target_wf t"
  proof (cases "split_once 0x3f tb")
    case None
    with t sl gr show ?thesis
      by (auto simp: target_bytes_def target_wf_def split_once_None)
  next
    case (Some pq)
    then obtain a b where ab: "pq = (a, b)" "tb = a @ 0x3f # b" "0x3f \<notin> set a"
      by (cases pq) (auto simp: split_once_Some)
    with Some t sl gr show ?thesis
      by (cases a) (auto simp: target_bytes_def target_wf_def)
  qed
  with m len show "m \<noteq> []" "list_all is_tchar m" "target_wf t"
    "length line \<le> max_request_line_bytes limits" by auto
  show l: "m @ [0x20] @ target_bytes t @ [0x20] @ ascii ''HTTP/1.1'' = line"
    using join_split_on [of "0x20" line] by (simp add: w tb)
  show "length (m @ [0x20] @ target_bytes t @ [0x20] @ ascii ''HTTP/1.1'') \<le> max_request_line_bytes limits"
    unfolding l by (rule len)
qed

lemma parse_complete_head_wf:
  assumes "parse_complete_head bs limits = Ok h"
  shows "head_wf limits h"
  using assms unfolding parse_complete_head_def
  by (auto simp: head_wf_def Let_def request_line_bytes_def parse_request_line_wf
      simp del: length_append ascii_Cons ascii_Nil append_Cons append_Nil
      split: list.splits if_splits prod.splits dest!: parse_header_lines_wf)

subsection \<open>Well-formed heads are parsed back\<close>

lemma join_CRLF:
  "ls \<noteq> [] \<Longrightarrow> join CRLF ls = join [0x0a] (map (\<lambda>l. l @ [0x0d]) (butlast ls) @ [last ls])"
proof (induction ls)
  case (Cons l ls)
  then show ?case by (cases ls) (auto simp: CRLF_def neq_Nil_conv)
qed simp

lemma head_lines_join:
  assumes "ls \<noteq> []" and "\<forall>l \<in> set ls. 0x0d \<notin> set l \<and> 0x0a \<notin> set l"
  shows "head_lines (join CRLF ls) = map Ok ls"
proof -
  let ?raw = "map (\<lambda>l. l @ [0x0d]) (butlast ls) @ [last ls]"
  have "split_on (\<lambda>b. b = 0x0a) (join [0x0a] ?raw) = ?raw"
    using assms by (intro split_on_join) (auto dest: in_set_butlastD)
  moreover have "map (strip_cr \<circ> (\<lambda>l. l @ [0x0d])) (butlast ls) = map Ok (butlast ls)"
    by (simp add: strip_cr_def)
  moreover have "map Ok (butlast ls) @ [Ok (last ls)] = map Ok ls"
    using assms(1) by (metis append_butlast_last_id list.simps(8,9) map_append)
  ultimately show ?thesis
    using assms by (simp add: head_lines_def join_CRLF Let_def del: map_eq_conv)
qed

lemma position_append_here: "\<forall>x \<in> set a. \<not> p x \<Longrightarrow> p d \<Longrightarrow> position p (a @ d # b) = Some (length a)"
  by (induction a) auto

lemma name_wf_bytes: "name_wf n \<Longrightarrow> b \<in> set n \<Longrightarrow> b \<notin> {0x3a, 0x0d, 0x0a, 0x20, 0x09, 0}"
  using is_tchar_not by (auto simp: name_wf_def list_all_iff)

lemma parse_header_line_field:
  assumes "field_wf limits f"
  shows "parse_header_line limits (field_line f) = Ok f"
proof -
  from assms have w: "name_wf (hdr_name f)" "value_wf (hdr_value f)"
    "length (field_line f) \<le> max_header_line_bytes limits" by (auto simp: field_wf_def)
  from w(1) obtain c r where c: "hdr_name f = c # r" by (cases "hdr_name f") (auto simp: name_wf_def)
  from name_wf_bytes [OF w(1), of c] c have h: "c \<noteq> 0x20" "c \<noteq> 0x09" by auto
  have p: "position (\<lambda>b. b = 0x3a) (field_line f) = Some (length (hdr_name f))"
    unfolding field_line_def append_Cons append_Nil
    using name_wf_bytes [OF w(1)] by (intro position_append_here) auto
  have "mk_header (hdr_name f) (hdr_value f) = Ok f"
    using w(1,2) by (simp add: mk_header_def name_wf_def value_wf_def lowercase_fixed)
  with w(3) p h show ?thesis
    by (simp add: parse_header_line_def) (simp add: field_line_def c)
qed

lemma parse_header_lines_fields:
  "list_all (field_wf limits) fs \<Longrightarrow> i + length fs \<le> max_headers limits \<Longrightarrow>
   parse_header_lines limits i (map (Ok \<circ> field_line) fs) = Ok fs"
  by (induction fs arbitrary: i) (auto simp: parse_header_line_field)

lemma graphic_not_space: "list_all is_ascii_graphic t \<Longrightarrow> \<forall>b \<in> set t. b \<noteq> 0x20"
  by (auto simp: list_all_iff is_ascii_graphic_def)

lemma parse_request_line_render:
  assumes "head_wf limits h"
  shows "parse_request_line limits (request_line_bytes h) = Ok (rh_method h, rh_target h)"
proof -
  let ?t = "rh_target h"
  from assms have t: "target_wf ?t" and m: "rh_method h \<noteq> []" "list_all is_tchar (rh_method h)"
    and len: "length (request_line_bytes h) \<le> max_request_line_bytes limits"
    by (auto simp: head_wf_def)
  from t have g: "list_all is_ascii_graphic (target_bytes ?t)" "0x23 \<notin> set (target_bytes ?t)"
    "starts_with [0x2f] (target_bytes ?t)"
    by (auto simp: target_wf_def target_bytes_def intro: starts_with_append)
  have u: "utf8_valid (target_bytes ?t)"
    using g(1) by (intro utf8_valid_ascii) (auto simp: list_all_iff ascii_class_defs byte_arith)
  have w: "split_on (\<lambda>b. b = 0x20) (request_line_bytes h)
      = [rh_method h, target_bytes ?t, ascii ''HTTP/1.1'']"
    using m(2) is_tchar_not graphic_not_space [OF g(1)] unfolding request_line_bytes_def append_Cons append_Nil
    by (subst split_on_append_sep) (auto simp: list_all_iff split_on_append_sep)
  have s: "(case split_once 0x3f (target_bytes ?t) of
       Some (p, q) \<Rightarrow> (p, Some q) | None \<Rightarrow> (target_bytes ?t, None)) = (raw_path ?t, raw_query ?t)"
  proof (cases "raw_query ?t")
    case None
    with t have "split_once 0x3f (target_bytes ?t) = None"
      by (simp add: split_once_None target_bytes_def target_wf_def)
    with None show ?thesis by (simp add: target_bytes_def)
  next
    case (Some q)
    with t have "split_once 0x3f (target_bytes ?t) = Some (raw_path ?t, q)"
      by (simp add: split_once_Some target_bytes_def target_wf_def)
    with Some show ?thesis by simp
  qed
  from t obtain d where d: "percent_decode (raw_path ?t) = Ok d"
    by (cases "percent_decode (raw_path ?t)") (auto simp: target_wf_def)
  have ex: "\<not> list_ex (\<lambda>b. \<not> (0x21 \<le> b \<and> b \<le> 0x7e)) (target_bytes ?t)"
    using g(1) by (simp add: list_ex_iff list_all_iff is_ascii_graphic_def)
  show ?thesis
    unfolding parse_request_line_def w using len m g(2,3) u ex t
    by (simp add: s d target_wf_def)
qed

lemma field_line_clean:
  "field_wf limits f \<Longrightarrow> 0x0d \<notin> set (field_line f) \<and> 0x0a \<notin> set (field_line f) \<and> 0 \<notin> set (field_line f)"
  using name_wf_bytes valid_field_byte_not
  by (auto simp: field_wf_def field_line_def value_wf_def valid_field_value_def list_all_iff)

lemma request_line_clean:
  "head_wf limits h \<Longrightarrow> 0x0d \<notin> set (request_line_bytes h) \<and> 0x0a \<notin> set (request_line_bytes h)"
  using is_tchar_not
  by (auto simp: head_wf_def request_line_bytes_def target_wf_def list_all_iff is_ascii_graphic_def)

lemma parse_render_head:
  assumes "head_wf limits h"
  shows "parse_complete_head (render_head h) limits = Ok h"
proof -
  let ?fs = "hm_fields (rh_headers h)"
  from assms have f: "list_all (field_wf limits) ?fs" "length ?fs \<le> max_headers limits"
    by (auto simp: head_wf_def)
  have "head_lines (render_head h) = map Ok (request_line_bytes h # map field_line ?fs)"
    unfolding render_head_def using f(1) request_line_clean [OF assms]
    by (intro head_lines_join) (auto simp: list_all_iff dest: field_line_clean)
  then have l: "head_lines (render_head h) = Ok (request_line_bytes h) # map (Ok \<circ> field_line) ?fs"
    by simp
  from f have "parse_header_lines limits 0 (map (Ok \<circ> field_line) ?fs) = Ok ?fs"
    by (intro parse_header_lines_fields) auto
  with assms f parse_request_line_render [OF assms] show ?thesis
    unfolding parse_complete_head_def l
    by (cases h, cases "rh_headers h") (simp add: head_wf_def Let_def)
qed

section \<open>Body framing and paths\<close>

lemma body_framing_Ok:
  assumes "body_framing m = Ok (cl, chunked)"
  shows "length (HeaderMap_get_all m (ascii ''content-length'')) \<le> 1"
    and "cl \<noteq> None \<longleftrightarrow> HeaderMap_get m (ascii ''content-length'') \<noteq> None"
    and "chunked \<longleftrightarrow> HeaderMap_get m (ascii ''transfer-encoding'') \<noteq> None"
    and "\<not> (cl \<noteq> None \<and> chunked)"
    and "cl = Some n \<Longrightarrow> \<exists>v. HeaderMap_get m (ascii ''content-length'') = Some v
      \<and> parse_content_length v = Ok n"
  using assms unfolding body_framing_def Let_def headers.get_first
  by (auto simp: list_first_def result_simps split: if_splits list.splits option.splits)

lemma check_host_Ok:
  "check_host m = Ok u \<longleftrightarrow> (\<exists>v. HeaderMap_get_all m (ascii ''host'') = [v] \<and> v \<noteq> [])"
  by (cases "HeaderMap_get_all m (ascii ''host'')") (auto simp: check_host_def headers.get_first)

lemma parse_path_key_Ok:
  "parse_path_key raw = Ok k \<longleftrightarrow> percent_decode raw = Ok k \<and> 0 \<notin> set k \<and> utf8_valid k"
  by (auto simp: parse_path_key_def split: if_splits)

lemma parse_path_style_root [simp]:
  "parse_path_style [0x2f] = Ok \<lparr>ps_bucket = None, ps_key = None\<rparr>"
  by (simp add: parse_path_style_def)

section \<open>Properties\<close>

text \<open>Evaluation of the parser on concrete requests.\<close>

lemmas http_eval =
  head_push_def head_more_def RequestHeadParser_push_def find_subslice_def CRLF_def CRLF2_def
  RequestHeadParser_new_def HeadLimits_default_def parse_complete_head_def head_lines_def strip_cr_def
  parse_request_line_def QueryParams_parse_def parse_query_component_def split_once_def
  parse_header_line_def mk_header_def trim_ows_def trim_by_def is_ows_def valid_field_value_def
  valid_field_byte_def is_tchar_def ascii_class_defs check_host_def body_framing_def
  HeaderMap_get_all_def HeaderMap_get_def eq_ignore_ascii_case_def parse_content_length_def
  hex_value_def checked_add_def checked_mul_def from_utf8_def utf8_valid_def Let_def

text \<open>C17. How the network splits a request does not matter: for every fragmentation of the
  received bytes, the caller's loop around the incremental parser ends with the verdict
  (request, error or need for more input) of one call on all the bytes.\<close>

theorem head_fragmentation:
  "snd (snd (feed head_push head_more (RequestHeadParser_new limits) a bs))
     = snd (RequestHeadParser_push (RequestHeadParser_new limits) (a @ concat bs))"
  by (rule feed_head_verdict) (simp add: RequestHeadParser_new_def)

lemma push_new_Some:
  assumes "RequestHeadParser_push (RequestHeadParser_new limits) bs = (q, Ok (Some h))"
  obtains head where "bs = head @ CRLF2 @ rp_remainder q"
    and "parse_complete_head head limits = Ok h" and "length head + 4 \<le> max_head_bytes limits"
proof -
  from assms obtain e where e: "find_sub CRLF2 bs = Some e"
    "e + 4 \<le> max_head_bytes limits" "parse_complete_head (take e bs) limits = Ok h"
    and q: "rp_remainder q = drop (e + 4) bs"
    by (auto simp: RequestHeadParser_push_def RequestHeadParser_new_def find_subslice_def Let_def
        split: option.splits sum.splits if_splits)
  from find_sub_Some [OF e(1)] obtain ys where ys: "bs = take e bs @ CRLF2 @ ys" "e + 4 \<le> length bs"
    by (auto simp: CRLF2_def)
  have "drop (length (take e bs @ CRLF2)) ((take e bs @ CRLF2) @ ys) = ys" by (rule append_eq_conv_conj [THEN iffD1, OF refl, THEN conjunct2, symmetric])
  moreover have "length (take e bs @ CRLF2) = e + 4" using ys(2) by (simp add: CRLF2_def)
  ultimately have "drop (e + 4) bs = ys" using ys(1) by (metis append_assoc)
  with ys q e show thesis by (intro that [of "take e bs"]) simp_all
qed

text \<open>C27. Nothing read from the socket is lost or invented at the end of the head: when the loop
  stops with a request, the bytes received are the head that was parsed, the empty line, and
  then exactly the retained body prefix followed by the fragments not yet read; and the head
  respects its size limit.\<close>

theorem head_remainder:
  assumes "feed head_push head_more (RequestHeadParser_new limits) a bs = (p, out, Ok (Some h))"
  shows "\<exists>head. a @ concat bs = head @ CRLF2 @ rp_remainder p
            @ concat (drop (fed head_push head_more (RequestHeadParser_new limits) a bs) bs)
     \<and> parse_complete_head head limits = Ok h
     \<and> length head + 4 \<le> max_head_bytes limits"
proof -
  let ?p = "RequestHeadParser_new limits"
  have nc: "\<not> rp_completed ?p" by (simp add: RequestHeadParser_new_def)
  obtain q r where q: "RequestHeadParser_push ?p (a @ concat bs) = (q, r)" by fastforce
  with feed_head_verdict [OF nc, of a bs] assms have q: "RequestHeadParser_push ?p (a @ concat bs) = (q, Ok (Some h))"
    by simp
  obtain head where e: "a @ concat bs = head @ CRLF2 @ rp_remainder q"
    "parse_complete_head head limits = Ok h" "length head + 4 \<le> max_head_bytes limits"
    by (rule push_new_Some [OF q])
  from feed_head_remainder [OF nc q] assms
  have "rp_remainder q = rp_remainder p @ concat (drop (fed head_push head_more ?p a bs) bs)" by simp
  with e show ?thesis by (intro exI [of _ head]) simp
qed

definition sample_request :: bytes where
  "sample_request = ascii ''PUT /b/a%20b?x=1 HTTP/1.1'' @ CRLF @ ascii ''Host: h'' @ CRLF
     @ ascii ''Content-Length: 3'' @ CRLF @ CRLF @ ascii ''abc''"

definition sample_parser :: RequestHeadParser where
  "sample_parser = RequestHeadParser_new HeadLimits_default"

lemma sample_first_push:
  "head_push sample_parser (take 30 sample_request)
     = (sample_parser\<lparr>rp_buffer := take 30 sample_request\<rparr>, [], Ok None)"
  by (simp add: http_eval sample_request_def sample_parser_def)

lemma sample_second_push:
  "\<exists>q h. head_push (sample_parser\<lparr>rp_buffer := take 30 sample_request\<rparr>) (drop 30 sample_request)
     = (q, [], Ok (Some h)) \<and> rh_content_length h = Some 3"
  by (simp add: http_eval sample_request_def sample_parser_def)

theorem head_remainder_witness:
  "\<exists>head p out h. feed head_push head_more (RequestHeadParser_new HeadLimits_default)
       (take 30 sample_request) [drop 30 sample_request, ascii ''de''] = (p, out, Ok (Some h))
     \<and> sample_request @ ascii ''de'' = head @ CRLF2 @ rp_remainder p @ ascii ''de''
     \<and> rh_content_length h = Some 3"
proof -
  obtain q h where q: "head_push (sample_parser\<lparr>rp_buffer := take 30 sample_request\<rparr>)
      (drop 30 sample_request) = (q, [], Ok (Some h))" "rh_content_length h = Some 3"
    using sample_second_push by blast
  have f: "feed head_push head_more (RequestHeadParser_new HeadLimits_default)
       (take 30 sample_request) [drop 30 sample_request, ascii ''de''] = (q, [], Ok (Some h))"
    and d: "fed head_push head_more (RequestHeadParser_new HeadLimits_default)
       (take 30 sample_request) [drop 30 sample_request, ascii ''de''] = 1"
    unfolding sample_parser_def [symmetric]
    by (simp_all add: sample_first_push q head_more_def del: ascii_Cons)
  from head_remainder [OF f] f d q(2) show ?thesis
    by (auto simp del: ascii_Cons ascii_Nil)
qed

text \<open>C26. The parser accepts exactly the well-formed heads: a head is the result of parsing some
  bytes if and only if it is well formed, and then its rendering (one line per field) is
  parsed back to it.\<close>

theorem head_roundtrip:
  "(\<exists>bs. parse_complete_head bs limits = Ok h) = head_wf limits h \<and>
   (parse_complete_head (render_head h) limits = Ok h) = head_wf limits h"
  using parse_render_head parse_complete_head_wf by blast

text \<open>C19. An accepted head is unambiguous: it has exactly one host, which is not empty, at most one
  \<^verbatim>\<open>Content-Length\<close>, and never both a content length and a transfer encoding.  The content length it
  reports is, as a number, the decimal value of the field, which consists of digits: a value of
  \<open>2 ^ 64\<close> or more is never accepted modulo the word size.  Field names are non-empty tokens, and no
  value contains a control character other than TAB.\<close>

theorem head_unambiguous:
  assumes "parse_complete_head bs limits = Ok h"
  shows "(\<exists>host. HeaderMap_get_all (rh_headers h) (ascii ''host'') = [host] \<and> host \<noteq> [])
    \<and> length (HeaderMap_get_all (rh_headers h) (ascii ''content-length'')) \<le> 1
    \<and> \<not> (HeaderMap_get (rh_headers h) (ascii ''content-length'') \<noteq> None
        \<and> HeaderMap_get (rh_headers h) (ascii ''transfer-encoding'') \<noteq> None)
    \<and> transfer_chunked h = (HeaderMap_get (rh_headers h) (ascii ''transfer-encoding'') \<noteq> None)
    \<and> map_option unat (rh_content_length h)
        = map_option dec_value (HeaderMap_get (rh_headers h) (ascii ''content-length''))
    \<and> (\<forall>v. HeaderMap_get (rh_headers h) (ascii ''content-length'') = Some v \<longrightarrow> v \<noteq> [] \<and> list_all is_ascii_digit v)
    \<and> (\<forall>f \<in> set (hm_fields (rh_headers h)). hdr_name f \<noteq> [] \<and> list_all is_tchar (hdr_name f)
        \<and> list_all (\<lambda>b. b = 0x09 \<or> 0x20 \<le> b \<and> b \<noteq> 0x7f) (hdr_value f))"
proof -
  from parse_complete_head_wf [OF assms] have w: "check_host (rh_headers h) = Ok ()"
    "body_framing (rh_headers h) = Ok (rh_content_length h, transfer_chunked h)"
    "list_all (field_wf limits) (hm_fields (rh_headers h))" by (auto simp: head_wf_def)
  note b = body_framing_Ok [OF w(2)]
  have len: "unat n = dec_value v \<and> v \<noteq> [] \<and> list_all is_ascii_digit v" if "parse_content_length v = Ok n" for v n
    using that by (auto simp: parse_content_length_exact unat_of_nat split: if_splits)
  have "map_option unat (rh_content_length h)
      = map_option dec_value (HeaderMap_get (rh_headers h) (ascii ''content-length''))"
    using b(2,5) len by (cases "rh_content_length h") auto
  moreover have "\<forall>v. HeaderMap_get (rh_headers h) (ascii ''content-length'') = Some v \<longrightarrow> v \<noteq> [] \<and> list_all is_ascii_digit v"
    using b(2,5) by (cases "rh_content_length h") (auto simp del: ascii_Cons dest!: len)
  moreover have "\<forall>f \<in> set (hm_fields (rh_headers h)). hdr_name f \<noteq> [] \<and> list_all is_tchar (hdr_name f)
        \<and> list_all (\<lambda>b. b = 0x09 \<or> 0x20 \<le> b \<and> b \<noteq> 0x7f) (hdr_value f)"
    using w(3) by (auto simp: list_all_iff field_wf_def name_wf_def value_wf_def valid_field_value_def valid_field_byte_def)
  moreover have "\<not> (HeaderMap_get (rh_headers h) (ascii ''content-length'') \<noteq> None
        \<and> HeaderMap_get (rh_headers h) (ascii ''transfer-encoding'') \<noteq> None)" using b(2-4) by auto
  ultimately show ?thesis
    using w(1) [unfolded check_host_Ok] b(1,3) by (intro conjI)
qed

lemma sample_head_accepted:
  "is_ok (parse_complete_head (take 53 sample_request) HeadLimits_default)"
  by (simp add: http_eval sample_request_def)

theorem head_unambiguous_witness:
  "\<exists>h. parse_complete_head (take 53 sample_request) HeadLimits_default = Ok h
     \<and> \<not> (HeaderMap_get (rh_headers h) (ascii ''content-length'') \<noteq> None
        \<and> HeaderMap_get (rh_headers h) (ascii ''transfer-encoding'') \<noteq> None)"
proof -
  obtain h where h: "parse_complete_head (take 53 sample_request) HeadLimits_default = Ok h"
    using sample_head_accepted by (cases "parse_complete_head (take 53 sample_request) HeadLimits_default") auto
  show ?thesis
    using head_unambiguous [OF h] by (intro exI [of _ h] conjI h) (elim conjE, assumption)
qed

end
