(* ===== verification/Headers.thy ===== *)
theory Headers
  imports Http
begin

text \<open>
  \<^verbatim>\<open>protocol/headers.rs\<close>: byte ranges and their resolution against an object's size, entity tags,
  the conditional request headers and the order in which they are evaluated, and \<^verbatim>\<open>If-Range\<close>.

  A \<^verbatim>\<open>SystemTime\<close> is its signed distance from the epoch in nanoseconds.  The parser of the
  \<^verbatim>\<open>httpdate\<close> crate is the parameter \<open>httpdate\<close> of the operations that call it.
\<close>

section \<open>Lexical helpers\<close>

definition trim_ascii :: "bytes \<Rightarrow> bytes" where
  "trim_ascii value = trim_by is_ascii_whitespace value"

definition trim_ascii_start :: "bytes \<Rightarrow> bytes" where
  "trim_ascii_start value = dropWhile is_ascii_whitespace value"

section \<open>Byte ranges\<close>

datatype RangeError =
    UnsupportedUnit | MultipleRangesUnsupported | InvalidSyntax | InvalidNumber | Unsatisfiable

datatype ByteRangeSpec =
    RangeInclusive u64 u64
  | RangeFrom u64
  | RangeSuffix u64

record ResolvedRange =
  rr_start :: u64
  rr_end :: u64

definition ResolvedRange_len :: "ResolvedRange \<Rightarrow> u64" where
  "ResolvedRange_len r = rr_end r - rr_start r + 1"

definition parse_u64 :: "bytes \<Rightarrow> RangeError + u64" where
  "parse_u64 value =
     (if value = [] \<or> \<not> list_all is_ascii_digit value then Err InvalidNumber
      else ok_or (checked_digits 0 value) InvalidNumber)"

definition ByteRangeSpec_parse :: "bytes \<Rightarrow> RangeError + ByteRangeSpec" where
  "ByteRangeSpec_parse value0 =
     (let value = trim_ascii value0 in
      rbind (ok_or (split_once 0x3d value) InvalidSyntax) (\<lambda>(unt, range).
      if \<not> eq_ignore_ascii_case unt (ascii ''bytes'') then Err UnsupportedUnit
      else if 0x2c \<in> set range then Err MultipleRangesUnsupported
      else rbind (ok_or (split_once 0x2d range) InvalidSyntax) (\<lambda>(first, last).
        if first = [] then
          rbind (parse_u64 last) (\<lambda>len.
          if len = 0 then Err Unsatisfiable else Ok (RangeSuffix len))
        else
          rbind (parse_u64 first) (\<lambda>first.
          if last = [] then Ok (RangeFrom first)
          else rbind (parse_u64 last) (\<lambda>last.
            if first > last then Err Unsatisfiable else Ok (RangeInclusive first last))))))"

definition ByteRangeSpec_resolve :: "ByteRangeSpec \<Rightarrow> u64 \<Rightarrow> RangeError + ResolvedRange" where
  "ByteRangeSpec_resolve spec object_size =
     (if object_size = 0 then Err Unsatisfiable
      else let final_byte = object_size - 1 in
        case spec of
          RangeInclusive first last_pos \<Rightarrow>
            if first \<ge> object_size then Err Unsatisfiable
            else Ok \<lparr>rr_start = first, rr_end = min last_pos final_byte\<rparr>
        | RangeFrom first \<Rightarrow>
            if first \<ge> object_size then Err Unsatisfiable
            else Ok \<lparr>rr_start = first, rr_end = final_byte\<rparr>
        | RangeSuffix len \<Rightarrow>
            Ok \<lparr>rr_start = saturating_sub object_size len, rr_end = final_byte\<rparr>)"

section \<open>Entity tags\<close>

datatype ConditionalError =
    DuplicateHeader bytes | InvalidEntityTag | InvalidHttpDate

record EntityTag =
  et_weak :: bool
  et_opaque :: bytes

definition etag_byte :: "u8 \<Rightarrow> bool" where
  "etag_byte b \<longleftrightarrow> b = 0x21 \<or> (b \<ge> 0x23 \<and> b \<noteq> 0x7f)"

definition EntityTag_parse :: "bytes \<Rightarrow> ConditionalError + EntityTag" where
  "EntityTag_parse value0 =
     (let value = trim_ascii value0;
          (weak, quoted) = (if starts_with (ascii ''W/'') value then (True, drop 2 value)
                            else (False, value))
      in if length quoted < 2 \<or> hd quoted \<noteq> 0x22 \<or> last quoted \<noteq> 0x22
         then Err InvalidEntityTag
         else let opaque = butlast (tl quoted) in
           if \<not> list_all etag_byte opaque then Err InvalidEntityTag
           else Ok \<lparr>et_weak = weak, et_opaque = opaque\<rparr>)"

definition strong_eq :: "EntityTag \<Rightarrow> EntityTag \<Rightarrow> bool" where
  "strong_eq a b \<longleftrightarrow> \<not> et_weak a \<and> \<not> et_weak b \<and> et_opaque a = et_opaque b"

definition weak_eq :: "EntityTag \<Rightarrow> EntityTag \<Rightarrow> bool" where
  "weak_eq a b \<longleftrightarrow> et_opaque a = et_opaque b"

datatype TagCondition = AnyTag | Tags "EntityTag list"

definition bare_tag_byte :: "u8 \<Rightarrow> bool" where
  "bare_tag_byte b \<longleftrightarrow> b \<ge> 0x21 \<and> b \<noteq> 0x22 \<and> b \<noteq> 0x7f"

text \<open>
  One round of the list loop: the tag at the front and what follows it; \<open>None\<close> as the rest means
  that the list has ended.
\<close>

definition tag_list_step :: "bytes \<Rightarrow> ConditionalError + (EntityTag \<times> bytes option)" where
  "tag_list_step remainder0 =
     (let remainder = trim_ascii_start remainder0 in
      rbind (if starts_with (ascii ''W/'' @ [0x22]) remainder then Ok (2 :: nat)
             else if starts_with [0x22] remainder then Ok 0
             else Err InvalidEntityTag) (\<lambda>quote.
      rbind (ok_or (map_option (\<lambda>p. quote + 1 + p)
               (position (\<lambda>b. b = 0x22) (drop (quote + 1) remainder))) InvalidEntityTag) (\<lambda>close.
      rbind (EntityTag_parse (take (close + 1) remainder)) (\<lambda>tag.
      let rest = trim_ascii_start (drop (close + 1) remainder) in
      if rest = [] then Ok (tag, None)
      else if hd rest \<noteq> 0x2c then Err InvalidEntityTag
      else if trim_ascii_start (tl rest) = [] then Err InvalidEntityTag
      else Ok (tag, Some (tl rest))))))"

lemma tag_list_step_shorter:
  assumes "tag_list_step r = Ok (tag, Some r')"
  shows "length r' < length r"
proof -
  let ?r = "trim_ascii_start r"
  from assms obtain k t where k: "(if trim_ascii_start (drop (k + 1) ?r) = [] then Ok (t, None)
      else if hd (trim_ascii_start (drop (k + 1) ?r)) \<noteq> 0x2c then Err InvalidEntityTag
      else if trim_ascii_start (tl (trim_ascii_start (drop (k + 1) ?r))) = [] then Err InvalidEntityTag
      else Ok (t, Some (tl (trim_ascii_start (drop (k + 1) ?r))))) = Ok (tag, Some r')"
    unfolding tag_list_step_def Let_def rbind_eq_Inr by blast
  then have r': "r' = tl (trim_ascii_start (drop (Suc k) ?r))" "trim_ascii_start (drop (Suc k) ?r) \<noteq> []"
    by (simp_all split: if_splits)
  have "length (trim_ascii_start (drop (Suc k) ?r)) \<le> length r - Suc k"
    unfolding trim_ascii_start_def
    by (rule order_trans [OF length_dropWhile_le]) (use length_dropWhile_le [of _ r] in \<open>simp add: diff_le_mono\<close>)
  with r' show ?thesis by (cases "trim_ascii_start (drop (Suc k) ?r)") auto
qed

function tag_list :: "bytes \<Rightarrow> ConditionalError + EntityTag list" where
  "tag_list remainder =
     (if remainder = [] then Ok []
      else case tag_list_step remainder of
        Inl e \<Rightarrow> Err e
      | Inr (tag, None) \<Rightarrow> Ok [tag]
      | Inr (tag, Some rest) \<Rightarrow> rbind (tag_list rest) (\<lambda>tags. Ok (tag # tags)))"
  by pat_completeness auto
termination
  by (relation "measure length") (auto dest: tag_list_step_shorter)

declare tag_list.simps [simp del]

definition TagCondition_parse :: "bytes \<Rightarrow> ConditionalError + TagCondition" where
  "TagCondition_parse value0 =
     (let value = trim_ascii value0 in
      if value = [0x2a] then Ok AnyTag
      else if \<not> starts_with [0x22] value \<and> \<not> starts_with (ascii ''W/'' @ [0x22]) value then
        (if value \<noteq> [] \<and> 0x2c \<notin> set value \<and> list_all bare_tag_byte value
         then Ok (Tags [\<lparr>et_weak = False, et_opaque = value\<rparr>])
         else Err InvalidEntityTag)
      else rbind (tag_list value) (\<lambda>tags.
        if tags = [] then Err InvalidEntityTag else Ok (Tags tags)))"

section \<open>Conditional headers\<close>

type_synonym SystemTime = int

definition second_precision :: "SystemTime \<Rightarrow> nat" where
  "second_precision time = (if time < 0 then 0 else nat (time div 1000000000))"

record ConditionalHeaders =
  if_match :: "TagCondition option"
  if_none_match :: "TagCondition option"
  if_modified_since :: "SystemTime option"
  if_unmodified_since :: "SystemTime option"

datatype PreconditionResult = Proceed | NotModified | PreconditionFailed

definition one :: "HeaderMap \<Rightarrow> bytes \<Rightarrow> ConditionalError + bytes option" where
  "one headers n =
     (let values = HeaderMap_get_all headers n in
      if length values > 1 then Err (DuplicateHeader n) else Ok (list_first values))"

definition parse_http_date :: "(bytes \<Rightarrow> SystemTime option) \<Rightarrow> bytes \<Rightarrow> ConditionalError + SystemTime" where
  "parse_http_date httpdate value0 =
     rbind (ok_or (from_utf8 (trim_ascii value0)) InvalidHttpDate) (\<lambda>value.
     ok_or (httpdate value) InvalidHttpDate)"

definition ConditionalHeaders_parse ::
  "(bytes \<Rightarrow> SystemTime option) \<Rightarrow> HeaderMap \<Rightarrow> ConditionalError + ConditionalHeaders" where
  "ConditionalHeaders_parse httpdate headers =
     rbind (one headers (ascii ''if-match'')) (\<lambda>v1. rbind (opt_try TagCondition_parse v1) (\<lambda>im.
     rbind (one headers (ascii ''if-none-match'')) (\<lambda>v2. rbind (opt_try TagCondition_parse v2) (\<lambda>inm.
     rbind (one headers (ascii ''if-modified-since'')) (\<lambda>v3.
     rbind (opt_try (parse_http_date httpdate) v3) (\<lambda>ims.
     rbind (one headers (ascii ''if-unmodified-since'')) (\<lambda>v4.
     rbind (opt_try (parse_http_date httpdate) v4) (\<lambda>ius.
     Ok \<lparr>if_match = im, if_none_match = inm, if_modified_since = ims,
         if_unmodified_since = ius\<rparr>))))))))"

definition tag_matches ::
  "(EntityTag \<Rightarrow> EntityTag \<Rightarrow> bool) \<Rightarrow> TagCondition \<Rightarrow> EntityTag option \<Rightarrow> bool" where
  "tag_matches eq condition current_etag =
     (case condition of
        AnyTag \<Rightarrow> current_etag \<noteq> None
      | Tags tags \<Rightarrow> (case current_etag of None \<Rightarrow> False
          | Some current \<Rightarrow> list_ex (\<lambda>candidate. eq candidate current) tags))"

definition evaluate ::
  "ConditionalHeaders \<Rightarrow> EntityTag option \<Rightarrow> SystemTime option \<Rightarrow> bool \<Rightarrow> PreconditionResult" where
  "evaluate c current_etag last_modified is_get_or_head =
     (if (case if_match c of
            Some condition \<Rightarrow> \<not> tag_matches strong_eq condition current_etag
          | None \<Rightarrow> (case (if_unmodified_since c, last_modified) of
               (Some since, Some modified) \<Rightarrow> second_precision modified > second_precision since
             | _ \<Rightarrow> False))
      then PreconditionFailed
      else case if_none_match c of
        Some condition \<Rightarrow>
          if tag_matches weak_eq condition current_etag
          then (if is_get_or_head then NotModified else PreconditionFailed)
          else Proceed
      | None \<Rightarrow>
          if is_get_or_head \<and> (case (if_modified_since c, last_modified) of
               (Some since, Some modified) \<Rightarrow> second_precision modified \<le> second_precision since
             | _ \<Rightarrow> False)
          then NotModified else Proceed)"

datatype IfRange = IfRangeTag EntityTag | IfRangeDate SystemTime

definition IfRange_parse :: "(bytes \<Rightarrow> SystemTime option) \<Rightarrow> bytes \<Rightarrow> ConditionalError + IfRange" where
  "IfRange_parse httpdate value0 =
     (let value = trim_ascii value0 in
      if starts_with [0x22] value \<or> starts_with (ascii ''W/'' @ [0x22]) value
      then rbind (EntityTag_parse value) (\<lambda>t. Ok (IfRangeTag t))
      else rbind (parse_http_date httpdate value) (\<lambda>d. Ok (IfRangeDate d)))"

definition permits_range :: "IfRange \<Rightarrow> EntityTag \<Rightarrow> SystemTime \<Rightarrow> bool" where
  "permits_range r current_etag last_modified =
     (case r of
        IfRangeTag expected \<Rightarrow> strong_eq expected current_etag
      | IfRangeDate date \<Rightarrow> second_precision last_modified \<le> second_precision date)"

section \<open>Ranges: lemmas\<close>

text \<open>The offsets a range asks for in an object of a given size.\<close>

definition selects :: "ByteRangeSpec \<Rightarrow> nat \<Rightarrow> nat \<Rightarrow> bool" where
  "selects spec n i \<longleftrightarrow> i < n \<and>
     (case spec of
        RangeInclusive first last_pos \<Rightarrow> unat first \<le> i \<and> i \<le> unat last_pos
      | RangeFrom first \<Rightarrow> unat first \<le> i
      | RangeSuffix len \<Rightarrow> n \<le> i + unat len)"

definition range_wf :: "ByteRangeSpec \<Rightarrow> bool" where
  "range_wf spec = (case spec of RangeInclusive first last_pos \<Rightarrow> first \<le> last_pos
     | RangeFrom _ \<Rightarrow> True | RangeSuffix len \<Rightarrow> 0 < len)"

definition range_bytes :: "ByteRangeSpec \<Rightarrow> bytes" where
  "range_bytes spec = ascii ''bytes='' @ (case spec of
       RangeInclusive a b \<Rightarrow> dec_nat (unat a) @ [0x2d] @ dec_nat (unat b)
     | RangeFrom a \<Rightarrow> dec_nat (unat a) @ [0x2d]
     | RangeSuffix n \<Rightarrow> [0x2d] @ dec_nat (unat n))"

lemma parse_u64_exact:
  "parse_u64 v =
     (if v \<noteq> [] \<and> list_all is_ascii_digit v \<and> dec_value v < 2 ^ 64
      then Ok (of_nat (dec_value v)) else Err InvalidNumber)"
  by (simp add: parse_u64_def checked_digits_value Let_def flip: dec_value_def)

lemma parse_u64_dec_nat [simp]: "parse_u64 (dec_nat (unat a)) = Ok a"
  by (simp add: parse_u64_exact dec_nat_digits unat_u64_less)

lemma ByteRangeSpec_parse_wf: "ByteRangeSpec_parse v = Ok spec \<Longrightarrow> range_wf spec"
  by (auto simp: ByteRangeSpec_parse_def range_wf_def Let_def word_neq_0_conv not_less
      split: if_splits)

lemma unat_pred: "(n::u64) \<noteq> 0 \<Longrightarrow> unat (n - 1) = unat n - 1"
  by (simp add: unat_minus_one)

lemma resolve_Ok:
  assumes "range_wf spec" and "ByteRangeSpec_resolve spec n = Ok r"
  shows "rr_start r \<le> rr_end r" and "rr_end r < n"
    and "selects spec (unat n) i \<longleftrightarrow> unat (rr_start r) \<le> i \<and> i \<le> unat (rr_end r)"
proof -
  from assms(2) have n: "n \<noteq> 0" by (auto simp: ByteRangeSpec_resolve_def)
  note [simp] = unat_pred [OF n]
  from n have pos: "0 < unat n" by (simp add: unat_gt_0)
  from assms n pos show "rr_start r \<le> rr_end r" "rr_end r < n"
    "selects spec (unat n) i \<longleftrightarrow> unat (rr_start r) \<le> i \<and> i \<le> unat (rr_end r)"
    by (auto simp: ByteRangeSpec_resolve_def range_wf_def selects_def Let_def word_le_nat_alt
        word_less_nat_alt unat_saturating_sub min_def split: ByteRangeSpec.splits if_splits)
qed

lemma resolve_Err:
  assumes "range_wf spec" and "ByteRangeSpec_resolve spec n = Err e"
  shows "e = Unsatisfiable" and "\<not> selects spec (unat n) i"
  using assms
  by (auto simp: ByteRangeSpec_resolve_def range_wf_def selects_def Let_def word_le_nat_alt
      split: ByteRangeSpec.splits if_splits)

lemma ResolvedRange_len_exact:
  assumes "rr_start r \<le> rr_end r" and "rr_end r < n"
  shows "unat (ResolvedRange_len r) = unat (rr_end r) - unat (rr_start r) + 1"
proof -
  have "unat (rr_end r - rr_start r) = unat (rr_end r) - unat (rr_start r)"
    using assms(1) by (simp add: unat_sub)
  moreover from assms(2) have "unat (rr_end r) < 2 ^ 64 - 1"
    using unat_u64_less [of n] by (simp add: word_less_nat_alt)
  ultimately show ?thesis
    by (simp add: ResolvedRange_len_def unat_word_ariths)
qed

lemma digits_not: "list_all is_ascii_digit ds \<Longrightarrow> c \<in> set ds \<Longrightarrow> is_ascii_digit c"
  by (simp add: list_all_iff)

lemma dec_nat_no: "\<not> is_ascii_digit c \<Longrightarrow> c \<notin> set (dec_nat n)"
  using dec_nat_digits [of n] by (auto simp: list_all_iff)

lemma dec_nat_ne [simp]: "dec_nat n \<noteq> []"
  using dec_nat_digits by blast

lemma split_once_at: "d \<notin> set a \<Longrightarrow> split_once d (a @ d # b) = Some (a, b)"
  by (simp add: split_once_Some)

lemma trim_ascii_fixed:
  "v \<noteq> [] \<Longrightarrow> \<not> is_ascii_whitespace (hd v) \<Longrightarrow> \<not> is_ascii_whitespace (last v) \<Longrightarrow> trim_ascii v = v"
  unfolding trim_ascii_def by (rule trim_by_id) simp

lemma last_dec_nat: "\<not> is_ascii_whitespace (last (dec_nat n))"
proof -
  have "is_ascii_digit (last (dec_nat n))"
    using dec_nat_digits [of n] last_in_set [of "dec_nat n"] by (auto simp: list_all_iff)
  then show ?thesis by (auto simp: ascii_class_defs)
qed

lemma parse_range_bytes:
  assumes "range_wf spec"
  shows "ByteRangeSpec_parse (range_bytes spec) = Ok spec"
proof -
  define body where "body = drop 6 (range_bytes spec)"
  have rb: "range_bytes spec = ascii ''bytes'' @ 0x3d # body"
    by (simp add: body_def range_bytes_def split: ByteRangeSpec.splits)
  have "body \<noteq> []" "\<not> is_ascii_whitespace (last body)"
    by (auto simp: body_def range_bytes_def last_dec_nat is_ascii_whitespace_def [of "0x2d"]
        split: ByteRangeSpec.splits)
  then have t: "trim_ascii (range_bytes spec) = range_bytes spec"
    by (intro trim_ascii_fixed) (auto simp: rb ascii_class_defs)
  have s: "split_once 0x3d (range_bytes spec) = Some (ascii ''bytes'', body)"
    unfolding rb by (rule split_once_at) simp
  have c: "0x2c \<notin> set body"
    by (auto simp: body_def range_bytes_def dec_nat_no ascii_class_defs split: ByteRangeSpec.splits)
  have d: "\<not> is_ascii_digit 0x2d" by (simp add: ascii_class_defs)
  have "ByteRangeSpec_parse (range_bytes spec) =
      rbind (ok_or (split_once 0x2d body) InvalidSyntax) (\<lambda>(first, last).
        if first = [] then
          rbind (parse_u64 last) (\<lambda>len. if len = 0 then Err Unsatisfiable else Ok (RangeSuffix len))
        else
          rbind (parse_u64 first) (\<lambda>first.
          if last = [] then Ok (RangeFrom first)
          else rbind (parse_u64 last) (\<lambda>last.
            if first > last then Err Unsatisfiable else Ok (RangeInclusive first last))))"
    unfolding ByteRangeSpec_parse_def Let_def t s using c by (simp del: ascii_Cons)
  also have "\<dots> = Ok spec"
  proof (cases spec)
    case (RangeInclusive a b)
    then have "body = dec_nat (unat a) @ 0x2d # dec_nat (unat b)"
      by (simp add: body_def range_bytes_def)
    with assms RangeInclusive show ?thesis
      by (simp add: split_once_at dec_nat_no [OF d] range_wf_def not_less)
  next
    case (RangeFrom a)
    then have "body = dec_nat (unat a) @ 0x2d # []" by (simp add: body_def range_bytes_def)
    with RangeFrom show ?thesis by (simp add: split_once_at dec_nat_no [OF d])
  next
    case (RangeSuffix k)
    then have "body = [] @ 0x2d # dec_nat (unat k)" by (simp add: body_def range_bytes_def)
    with assms RangeSuffix show ?thesis
      by (simp only: split_once_at ok_or_simps rbind_simps) (simp add: range_wf_def split_once_def)
  qed
  finally show ?thesis .
qed

section \<open>Entity tags: lemmas\<close>

definition tag_bytes :: "EntityTag \<Rightarrow> bytes" where
  "tag_bytes t = (if et_weak t then ascii ''W/'' else []) @ [0x22] @ et_opaque t @ [0x22]"

definition tag_list_bytes :: "EntityTag list \<Rightarrow> bytes" where
  "tag_list_bytes ts = join [0x2c, 0x20] (map tag_bytes ts)"

definition tag_wf :: "EntityTag \<Rightarrow> bool" where
  "tag_wf t \<longleftrightarrow> list_all etag_byte (et_opaque t)"

lemma tag_bytes_ends:
  "tag_bytes t \<noteq> []" "\<not> is_ascii_whitespace (hd (tag_bytes t))"
  "\<not> is_ascii_whitespace (last (tag_bytes t))"
  by (auto simp: tag_bytes_def is_ascii_whitespace_def)

lemma EntityTag_parse_tag_bytes:
  assumes "tag_wf t"
  shows "EntityTag_parse (tag_bytes t) = Ok t"
proof -
  have tr: "trim_ascii (tag_bytes t) = tag_bytes t"
    using tag_bytes_ends by (intro trim_ascii_fixed) auto
  show ?thesis
    using assms unfolding EntityTag_parse_def tr
    by (cases t) (auto simp: tag_bytes_def tag_wf_def)
qed

lemma EntityTag_parse_wf: "EntityTag_parse v = Ok t \<Longrightarrow> tag_wf t"
  by (auto simp: EntityTag_parse_def tag_wf_def Let_def split: if_splits)

lemma quote_not_etag_byte: "\<not> etag_byte 0x22"
  by (simp add: etag_byte_def)

lemma trim_start_fixed: "v \<noteq> [] \<Longrightarrow> \<not> is_ascii_whitespace (hd v) \<Longrightarrow> trim_ascii_start v = v"
  unfolding trim_ascii_start_def by (cases v) auto

lemma trim_start_space: "trim_ascii_start (0x20 # v) = trim_ascii_start v"
  by (simp add: trim_ascii_start_def is_ascii_whitespace_def)

lemma tag_list_step_tag:
  assumes "tag_wf t"
  shows "tag_list_step (tag_bytes t @ rest) =
     (if trim_ascii_start rest = [] then Ok (t, None)
      else if hd (trim_ascii_start rest) \<noteq> 0x2c then Err InvalidEntityTag
      else if trim_ascii_start (tl (trim_ascii_start rest)) = [] then Err InvalidEntityTag
      else Ok (t, Some (tl (trim_ascii_start rest))))"
proof -
  define q :: nat where "q = (if et_weak t then 2 else 0)"
  have tr: "trim_ascii_start (tag_bytes t @ rest) = tag_bytes t @ rest"
    using tag_bytes_ends [of t] by (intro trim_start_fixed) auto
  have qt: "(if starts_with (ascii ''W/'' @ [0x22]) (tag_bytes t @ rest) then Ok (2 :: nat)
             else if starts_with [0x22] (tag_bytes t @ rest) then Ok 0
             else Err InvalidEntityTag) = Ok q"
    by (simp add: tag_bytes_def q_def)
  have dr: "drop (q + 1) (tag_bytes t @ rest) = et_opaque t @ 0x22 # rest"
    by (simp add: tag_bytes_def q_def)
  have po: "position (\<lambda>b. b = 0x22) (et_opaque t @ 0x22 # rest) = Some (length (et_opaque t))"
    using assms quote_not_etag_byte by (intro position_append_here) (auto simp: tag_wf_def list_all_iff)
  have len: "length (tag_bytes t) = q + 1 + length (et_opaque t) + 1"
    by (simp add: tag_bytes_def q_def)
  have tk: "take (q + 1 + length (et_opaque t) + 1) (tag_bytes t @ rest) = tag_bytes t"
    "drop (q + 1 + length (et_opaque t) + 1) (tag_bytes t @ rest) = rest"
    unfolding len [symmetric] by simp_all
  show ?thesis
    unfolding tag_list_step_def Let_def tr qt rbind_simps dr po option.map ok_or_simps tk
      EntityTag_parse_tag_bytes [OF assms] by (rule refl)
qed

lemma tag_list_space: "v \<noteq> [] \<Longrightarrow> tag_list (0x20 # v) = tag_list v"
  by (subst (1 2) tag_list.simps) (simp add: tag_list_step_def trim_start_space)

lemma tag_list_join:
  "ts \<noteq> [] \<Longrightarrow> list_all tag_wf ts \<Longrightarrow> tag_list (tag_list_bytes ts) = Ok ts"
proof (induction ts)
  case (Cons t ts)
  show ?case
  proof (cases ts)
    case Nil
    with Cons.prems tag_list_step_tag [of t "[]"] tag_bytes_ends(1) [of t] show ?thesis
      by (subst tag_list.simps) (simp add: tag_list_bytes_def trim_ascii_start_def)
  next
    case (Cons u us)
    let ?rest = "tag_list_bytes ts"
    have ne: "?rest \<noteq> []" using tag_bytes_ends(1) [of u] Cons
      by (cases us) (simp_all add: tag_list_bytes_def)
    have h: "\<not> is_ascii_whitespace (hd ?rest)" using tag_bytes_ends(1,2) [of u] Cons
      by (cases us) (simp_all add: tag_list_bytes_def)
    have tb: "tag_list_bytes (t # ts) = tag_bytes t @ 0x2c # 0x20 # ?rest"
      using Cons by (simp add: tag_list_bytes_def)
    have "trim_ascii_start (0x2c # 0x20 # ?rest) = 0x2c # 0x20 # ?rest"
      by (intro trim_start_fixed) (simp_all add: is_ascii_whitespace_def)
    moreover have "trim_ascii_start (0x20 # ?rest) \<noteq> []"
      using ne h by (simp add: trim_start_space trim_start_fixed)
    ultimately have "tag_list_step (tag_list_bytes (t # ts)) = Ok (t, Some (0x20 # ?rest))"
      using Cons.prems unfolding tb by (subst tag_list_step_tag) simp_all
    moreover have "tag_list (0x20 # ?rest) = Ok ts"
      using Cons.IH Cons.prems Cons ne by (simp add: tag_list_space)
    ultimately show ?thesis
      using tag_bytes_ends(1) [of t] by (subst tag_list.simps) (simp add: tb)
  qed
qed simp

lemma tag_list_bytes_ends:
  assumes "ts \<noteq> []"
  shows "tag_list_bytes ts \<noteq> []" "\<not> is_ascii_whitespace (hd (tag_list_bytes ts))"
    "\<not> is_ascii_whitespace (last (tag_list_bytes ts))"
    "starts_with [0x22] (tag_list_bytes ts) \<or> starts_with (ascii ''W/'' @ [0x22]) (tag_list_bytes ts)"
  using assms
proof (induction ts)
  case (Cons t ts)
  {
    case 1 then show ?case using tag_bytes_ends(1) [of t] by (cases ts) (simp_all add: tag_list_bytes_def)
  next
    case 2 then show ?case using tag_bytes_ends(1,2) [of t] by (cases ts) (simp_all add: tag_list_bytes_def)
  next
    case 3 then show ?case using tag_bytes_ends(1,3) Cons(1,3) by (cases ts) (auto simp: tag_list_bytes_def)
  next
    case 4 then show ?case
      by (cases ts) (auto simp: tag_list_bytes_def tag_bytes_def)
  }
qed simp_all

lemma TagCondition_parse_list:
  assumes "ts \<noteq> []" and "list_all tag_wf ts"
  shows "TagCondition_parse (tag_list_bytes ts) = Ok (Tags ts)"
proof -
  note e = tag_list_bytes_ends [OF assms(1)]
  have t: "trim_ascii (tag_list_bytes ts) = tag_list_bytes ts" using e by (intro trim_ascii_fixed)
  from e(4) have "tag_list_bytes ts \<noteq> [0x2a]" by auto
  with assms e(4) show ?thesis
    unfolding TagCondition_parse_def t Let_def by (auto simp: tag_list_join)
qed

lemma TagCondition_parse_any: "TagCondition_parse [0x2a] = Ok AnyTag"
  by (simp add: TagCondition_parse_def trim_ascii_def trim_by_def is_ascii_whitespace_def)

section \<open>Properties\<close>

text \<open>C21. A \<^verbatim>\<open>Range\<close> header selects exactly the bytes it asks for.  For a header that parses, resolving
  it against an object of \<open>n\<close> bytes succeeds exactly when some byte of the object is asked for;
  the resolved range is then the set of those offsets, lies inside the object, and its length
  is computed without wrap-around; otherwise the error is \<^verbatim>\<open>Unsatisfiable\<close>.\<close>

theorem range_resolution:
  assumes "ByteRangeSpec_parse v = Ok spec"
  shows "(case ByteRangeSpec_resolve spec n of
      Inr r \<Rightarrow> {i. selects spec (unat n) i} = {unat (rr_start r)..unat (rr_end r)}
        \<and> rr_start r \<le> rr_end r \<and> rr_end r < n
        \<and> unat (ResolvedRange_len r) = card {i. selects spec (unat n) i}
    | Inl e \<Rightarrow> e = Unsatisfiable \<and> {i. selects spec (unat n) i} = {})"
proof (cases "ByteRangeSpec_resolve spec n")
  case (Inl e)
  with resolve_Err [OF ByteRangeSpec_parse_wf [OF assms] Inl] show ?thesis by simp
next
  case (Inr r)
  note k = resolve_Ok [OF ByteRangeSpec_parse_wf [OF assms] Inr]
  have "{i. selects spec (unat n) i} = {unat (rr_start r)..unat (rr_end r)}" by (auto simp: k(3))
  moreover have "unat (rr_start r) \<le> unat (rr_end r)" using k(1) by (simp add: word_le_nat_alt)
  ultimately show ?thesis
    using Inr k(1,2) ResolvedRange_len_exact [OF k(1,2)] by simp
qed

theorem range_resolution_witness:
  "\<exists>spec. ByteRangeSpec_parse (ascii ''bytes=10-19'') = Ok spec
     \<and> ByteRangeSpec_resolve spec 15 = Ok \<lparr>rr_start = 10, rr_end = 14\<rparr>
     \<and> {i. selects spec 15 i} = {10..14}"
proof -
  have p: "ByteRangeSpec_parse (ascii ''bytes=10-19'') = Ok (RangeInclusive 10 19)" by code_simp
  have r: "ByteRangeSpec_resolve (RangeInclusive 10 19) 15 = Ok \<lparr>rr_start = 10, rr_end = 14\<rparr>"
    by (simp add: ByteRangeSpec_resolve_def)
  from range_resolution [OF p, of 15] r p show ?thesis by (auto simp del: ascii_Cons)
qed

text \<open>C31. Preconditions end to end.  When the request's only conditional field is an
  \<^verbatim>\<open>If-Match\<close> (\<^verbatim>\<open>If-None-Match\<close>) list of tags, the request goes ahead exactly when the object exists
  and its tag is (the object does not exist or its tag is not) among them, by strong (weak)
  comparison; a failed \<^verbatim>\<open>If-None-Match\<close> is 304 for GET and HEAD and 412 for the others.\<close>

theorem conditional_end_to_end:
  assumes "ts \<noteq> []" and "list_all tag_wf ts"
    and "HeaderMap_get_all h (ascii ''if-modified-since'') = []"
    and "HeaderMap_get_all h (ascii ''if-unmodified-since'') = []"
  shows "(HeaderMap_get_all h (ascii ''if-match'') = [tag_list_bytes ts] \<longrightarrow>
          HeaderMap_get_all h (ascii ''if-none-match'') = [] \<longrightarrow>
          (\<exists>c. ConditionalHeaders_parse httpdate h = Ok c \<and>
             evaluate c current modified get =
               (if \<exists>e. current = Some e \<and> (\<exists>t \<in> set ts. strong_eq t e) then Proceed
                else PreconditionFailed)))
    \<and> (HeaderMap_get_all h (ascii ''if-none-match'') = [tag_list_bytes ts] \<longrightarrow>
          HeaderMap_get_all h (ascii ''if-match'') = [] \<longrightarrow>
          (\<exists>c. ConditionalHeaders_parse httpdate h = Ok c \<and>
             evaluate c current modified get =
               (if \<exists>e. current = Some e \<and> (\<exists>t \<in> set ts. weak_eq t e)
                then (if get then NotModified else PreconditionFailed) else Proceed)))"
  using assms TagCondition_parse_list [OF assms(1,2)]
  by (auto simp: ConditionalHeaders_parse_def one_def evaluate_def tag_matches_def list_ex_iff
      simp del: ascii_Cons ascii_Nil split: option.splits)

theorem conditional_end_to_end_witness:
  "\<exists>c. ConditionalHeaders_parse (\<lambda>_. None)
        \<lparr>hm_fields = [\<lparr>hdr_name = ascii ''if-match'', hdr_value = [0x22, 0x61, 0x22]\<rparr>]\<rparr> = Ok c
     \<and> evaluate c (Some \<lparr>et_weak = False, et_opaque = [0x61]\<rparr>) None False = Proceed"
  using conditional_end_to_end [of "[\<lparr>et_weak = False, et_opaque = [0x61]\<rparr>]"
      "\<lparr>hm_fields = [\<lparr>hdr_name = ascii ''if-match'', hdr_value = [0x22, 0x61, 0x22]\<rparr>]\<rparr>" "\<lambda>_. None"
      "Some \<lparr>et_weak = False, et_opaque = [0x61]\<rparr>" None False]
  by (simp add: tag_wf_def etag_byte_def HeaderMap_get_all_def eq_ignore_ascii_case_def
      ascii_class_defs tag_list_bytes_def tag_bytes_def strong_eq_def)

end
