(* ===== verification/Encoding.thy ===== *)
theory Encoding
  imports Http
begin

text \<open>
  The encodings of \<^verbatim>\<open>protocol/sigv4.rs\<close>: AWS percent encoding, lower-case hexadecimal, decoding of
  32-byte hexadecimal values, and the constant-time comparison.  Arrays \<^verbatim>\<open>[u8; 32]\<close> are byte
  strings of length 32.
\<close>

section \<open>Definitions\<close>

definition is_unreserved :: "u8 \<Rightarrow> bool" where
  "is_unreserved b \<longleftrightarrow> is_ascii_alphanumeric b \<or> b \<in> set (ascii ''-._~'')"

definition hex_upper_digit :: "u8 \<Rightarrow> u8" where
  "hex_upper_digit n = ascii ''0123456789ABCDEF'' ! unat n"

definition hex_lower_digit :: "u8 \<Rightarrow> u8" where
  "hex_lower_digit n = ascii ''0123456789abcdef'' ! unat n"

definition push_percent_encoded :: "u8 \<Rightarrow> bytes" where
  "push_percent_encoded b = [0x25, hex_upper_digit (drop_bit 4 b), hex_upper_digit (b AND 0x0f)]"

fun aws_encode :: "bytes \<Rightarrow> bool \<Rightarrow> bytes" where
  "aws_encode [] encode_slash = []"
| "aws_encode (b # bs) encode_slash =
     (if is_unreserved b \<or> (b = 0x2f \<and> \<not> encode_slash) then [b] else push_percent_encoded b)
     @ aws_encode bs encode_slash"

definition hex_nibble :: "u8 \<Rightarrow> u8 option" where
  "hex_nibble b =
     (if 0x30 \<le> b \<and> b \<le> 0x39 then Some (b - 0x30)
      else if 0x61 \<le> b \<and> b \<le> 0x66 then Some (b - 0x61 + 10)
      else if 0x41 \<le> b \<and> b \<le> 0x46 then Some (b - 0x41 + 10)
      else None)"

fun hex_lower :: "bytes \<Rightarrow> bytes" where
  "hex_lower [] = []"
| "hex_lower (b # bs) = hex_lower_digit (drop_bit 4 b) # hex_lower_digit (b AND 0x0f) # hex_lower bs"

text \<open>The pairs of \<^verbatim>\<open>as_chunks::<2>\<close>; a last single byte is not part of any pair.\<close>

fun decode_hex_pairs :: "bytes \<Rightarrow> bytes option" where
  "decode_hex_pairs (h # l # rest) =
     (case hex_nibble h of None \<Rightarrow> None
      | Some high \<Rightarrow> (case hex_nibble l of None \<Rightarrow> None
         | Some low \<Rightarrow> map_option ((#) (push_bit 4 high OR low)) (decode_hex_pairs rest)))"
| "decode_hex_pairs _ = Some []"

definition decode_hex_32_opt :: "bytes \<Rightarrow> bytes option" where
  "decode_hex_32_opt value = (if length value \<noteq> 64 then None else decode_hex_pairs value)"

definition constant_time_eq :: "bytes \<Rightarrow> bytes \<Rightarrow> bool" where
  "constant_time_eq left right =
     (if length left \<noteq> length right then False
      else foldl (\<lambda>difference (l, r). difference OR (l XOR r)) 0 (zip left right) = 0)"

section \<open>Nibbles\<close>

lemma nibble_bounds: "unat (drop_bit 4 (b::u8)) < 16" "unat (b AND 0x0f) < 16"
proof -
  have "unat (drop_bit 4 b) = unat b div 16"
    by (simp add: drop_bit_eq_div unat_div_distrib)
  then show "unat (drop_bit 4 b) < 16" using unat_u8_less [of b] by simp
  have "b AND 0x0f = take_bit 4 b" by (simp add: take_bit_eq_mask mask_eq_exp_minus_1)
  then show "unat (b AND 0x0f) < 16" by (simp add: take_bit_eq_mod unat_mod_distrib)
qed

lemma nibbles_join: "push_bit 4 (drop_bit 4 b) OR (b AND 0x0f) = (b::u8)"
proof -
  have "b AND 0x0f = take_bit 4 b" by (simp add: take_bit_eq_mask mask_eq_exp_minus_1)
  then show ?thesis by (simp, intro bit_word_eqI) (auto simp: bit_simps)
qed

lemma hex_digit_lists:
  "ascii ''0123456789ABCDEF'' = [48, 49, 50, 51, 52, 53, 54, 55, 56, 57, 65, 66, 67, 68, 69, 70]"
  "ascii ''0123456789abcdef'' = [48, 49, 50, 51, 52, 53, 54, 55, 56, 57, 97, 98, 99, 100, 101, 102]"
  by simp_all

lemma hex_digits:
  assumes "unat n < 16"
  shows "hex_upper_digit n = (if n < 10 then n + 0x30 else n + 0x37)"
    "hex_lower_digit n = (if n < 10 then n + 0x30 else n + 0x57)"
proof -
  have "n \<in> {0, 1, 2, 3, 4, 5, 6, 7, 8, 9, 10, 11, 12, 13, 14, 15}"
    using assms by (simp add: word_unat_eq_iff) presburger
  then show "hex_upper_digit n = (if n < 10 then n + 0x30 else n + 0x37)"
    "hex_lower_digit n = (if n < 10 then n + 0x30 else n + 0x57)"
    unfolding hex_upper_digit_def hex_lower_digit_def hex_digit_lists by auto
qed

lemma hex_digit_values:
  assumes "unat n < 16"
  shows "hex_value (hex_upper_digit n) = Some n" "hex_nibble (hex_lower_digit n) = Some n"
    "hex_nibble (hex_upper_digit n) = Some n"
    "is_ascii_alphanumeric (hex_upper_digit n)" "to_ascii_uppercase (hex_upper_digit n) = hex_upper_digit n"
    "\<not> is_ascii_uppercase (hex_lower_digit n)"
  using assms
  by (auto simp: hex_digits hex_value_def hex_nibble_def ascii_class_defs byte_arith unat_sub_if')

lemma hex_nibble_value: "hex_nibble b = hex_value b"
  by (simp add: hex_nibble_def hex_value_def)

section \<open>Round trips\<close>

lemma percent_not_unreserved: "is_unreserved b \<Longrightarrow> b \<noteq> 0x25"
  by (auto simp: is_unreserved_def ascii_class_defs)

lemma percent_decode_plain:
  "b \<noteq> 0x25 \<Longrightarrow> percent_decode (b # s) = rbind (percent_decode s) (\<lambda>out. Ok (b # out))"
  by simp

lemma percent_decode_escape:
  "hex_value h = Some x \<Longrightarrow> hex_value l = Some y \<Longrightarrow>
   percent_decode (0x25 # h # l # s) = rbind (percent_decode s) (\<lambda>out. Ok ((push_bit 4 x OR y) # out))"
  by simp

lemma percent_decode_pushed:
  "percent_decode (push_percent_encoded b @ s) = rbind (percent_decode s) (\<lambda>out. Ok (b # out))"
  unfolding push_percent_encoded_def append_Cons append_Nil
  by (subst percent_decode_escape [OF hex_digit_values(1) hex_digit_values(1)])
    (simp_all add: nibble_bounds nibbles_join)

lemma percent_decode_aws_encode: "percent_decode (aws_encode v es) = Ok v"
proof (induction v)
  case (Cons b v)
  then show ?case
    by (cases "is_unreserved b \<or> (b = 0x2f \<and> \<not> es)")
      (auto simp: percent_decode_pushed dest: percent_not_unreserved simp del: percent_decode.simps
        intro!: percent_decode_plain [THEN trans])
qed simp

lemma aws_encode_alphabet:
  "c \<in> set (aws_encode v es) \<Longrightarrow> is_unreserved c \<or> c = 0x25 \<or> (c = 0x2f \<and> \<not> es)"
proof (induction v)
  case (Cons b v)
  then show ?case
    by (auto simp: push_percent_encoded_def is_unreserved_def hex_digit_values nibble_bounds
        split: if_splits)
qed simp

lemma decode_hex_pairs_hex_lower [simp]: "decode_hex_pairs (hex_lower v) = Some v"
  by (induction v) (simp_all add: hex_digit_values nibble_bounds nibbles_join)

lemma length_hex_lower [simp]: "length (hex_lower v) = 2 * length v"
  by (induction v) simp_all

lemma decode_hex_32_hex_lower [simp]: "length v = 32 \<Longrightarrow> decode_hex_32_opt (hex_lower v) = Some v"
  by (simp add: decode_hex_32_opt_def)

lemma length_decode_hex_pairs: "decode_hex_pairs s = Some v \<Longrightarrow> length v = length s div 2"
  by (induction s arbitrary: v rule: decode_hex_pairs.induct) (auto split: option.splits)

interpretation hex: codec hex_lower decode_hex_pairs "\<lambda>_. True"
  by unfold_locales simp

interpretation hex32: codec hex_lower decode_hex_32_opt "\<lambda>v. length v = 32"
  by unfold_locales simp

interpretation percent: codec "\<lambda>v. aws_encode v es"
  "\<lambda>s. case percent_decode s of Inl _ \<Rightarrow> None | Inr v \<Rightarrow> Some v" "\<lambda>_. True"
  by unfold_locales (simp add: percent_decode_aws_encode)

section \<open>Constant-time comparison\<close>

lemma foldl_or_xor:
  fixes d :: u8
  assumes "length left = length right"
  shows "foldl (\<lambda>difference (l, r). difference OR (l XOR r)) d (zip left right) = 0
     \<longleftrightarrow> d = 0 \<and> left = right"
  using assms
proof (induction left right arbitrary: d rule: list_induct2)
  case (Cons l ls r rs)
  have "d OR (l XOR r) = 0 \<longleftrightarrow> d = 0 \<and> l = r"
    by (auto simp: or_eq_0_iff bit_eq_iff [of "l XOR r"] bit_eq_iff [of l] bit_xor_iff)
  with Cons show ?case by auto
qed simp

lemma constant_time_eq_iff: "constant_time_eq a b \<longleftrightarrow> a = b"
  by (auto simp: constant_time_eq_def foldl_or_xor)

end
