(* ===== verification/Calendar.thy ===== *)
theory Calendar
  imports Encoding
begin

text \<open>
  Dates: the conversions between civil dates and day numbers of \<^verbatim>\<open>protocol/sigv4.rs\<close> and
  \<^verbatim>\<open>s3/xml.rs\<close>, the \<^verbatim>\<open>x-amz-date\<close> timestamps and the ISO 8601 text of object listings, against a
  reference calendar that counts days year by year and month by month.
\<close>

section \<open>Definitions\<close>

definition days_from_civil :: "int \<Rightarrow> int \<Rightarrow> int \<Rightarrow> int" where
  "days_from_civil year0 month day =
     (let year = year0 - (if month \<le> 2 then 1 else 0);
          era = year div 400;
          year_of_era = year - era * 400;
          shifted_month = month + (if month > 2 then -3 else 9);
          day_of_year = (153 * shifted_month + 2) div 5 + day - 1;
          day_of_era = year_of_era * 365 + year_of_era div 4 - year_of_era div 100 + day_of_year
      in era * 146097 + day_of_era - 719468)"

definition is_leap :: "int \<Rightarrow> bool" where
  "is_leap year \<longleftrightarrow> year mod 400 = 0 \<or> (year mod 4 = 0 \<and> year mod 100 \<noteq> 0)"

definition days_in_month :: "int \<Rightarrow> int \<Rightarrow> int" where
  "days_in_month year month =
     (if month \<in> {1, 3, 5, 7, 8, 10, 12} then 31
      else if month \<in> {4, 6, 9, 11} then 30
      else if month = 2 then (if is_leap year then 29 else 28)
      else 0)"

definition decimal :: "bytes \<Rightarrow> int" where
  "decimal bs = foldl (\<lambda>value b. value * 10 + int (unat (b - 0x30))) 0 bs"

definition civil_from_days :: "int \<Rightarrow> int \<times> int \<times> int" where
  "civil_from_days days_since_epoch =
     (let z = days_since_epoch + 719468;
          era = trunc_div (if z \<ge> 0 then z else z - 146096) 146097;
          doe = z - era * 146097;
          yoe = trunc_div (doe - trunc_div doe 1460 + trunc_div doe 36524 - trunc_div doe 146096) 365;
          year = yoe + era * 400;
          doy = doe - (365 * yoe + trunc_div yoe 4 - trunc_div yoe 100);
          mp = trunc_div (5 * doy + 2) 153;
          day = doy - trunc_div (153 * mp + 2) 5 + 1;
          month = mp + (if mp < 10 then 3 else -9)
      in (year + (if month \<le> 2 then 1 else 0), month, day))"

definition iso8601 :: "int \<Rightarrow> bytes" where
  "iso8601 milliseconds =
     (let seconds = milliseconds div 1000;
          millis = milliseconds mod 1000;
          days = seconds div 86400;
          seconds_of_day = seconds mod 86400;
          (year, month, day) = civil_from_days days;
          hour = trunc_div seconds_of_day 3600;
          minute = trunc_div (seconds_of_day mod 3600) 60;
          second = seconds_of_day mod 60
      in dec_int_padded 4 year @ ascii ''-'' @ dec_int_padded 2 month @ ascii ''-''
         @ dec_int_padded 2 day @ ascii ''T'' @ dec_int_padded 2 hour @ ascii '':''
         @ dec_int_padded 2 minute @ ascii '':'' @ dec_int_padded 2 second @ ascii ''.''
         @ dec_int_padded 3 millis @ ascii ''Z'')"

section \<open>The reference calendar\<close>

text \<open>Days before 1 January of year \<open>1970 + k\<close>, counting every year; the same for months.\<close>

fun days_before_year :: "nat \<Rightarrow> int" where
  "days_before_year 0 = 0"
| "days_before_year (Suc k) = days_before_year k + (if is_leap (1970 + int k) then 366 else 365)"

fun days_before_month :: "int \<Rightarrow> nat \<Rightarrow> int" where
  "days_before_month year 0 = 0"
| "days_before_month year (Suc m) =
     days_before_month year m + days_in_month year (int m)"

definition civil_day :: "int \<Rightarrow> int \<Rightarrow> int \<Rightarrow> int" where
  "civil_day year month day =
     days_before_year (nat (year - 1970)) + days_before_month year (nat month) + day - 1"

definition valid_date :: "int \<Rightarrow> int \<Rightarrow> int \<Rightarrow> bool" where
  "valid_date year month day \<longleftrightarrow>
     1 \<le> month \<and> month \<le> 12 \<and> 1 \<le> day \<and> day \<le> days_in_month year month"

section \<open>March years\<close>

text \<open>
  Both conversions count years from 1 March.  \<open>march_base y\<close> is the number of days before
  1 March of year \<open>y\<close>, \<open>march_day m\<close> the days from 1 March to the first of the month.
\<close>

definition march_base :: "int \<Rightarrow> int" where
  "march_base y = 365 * y + y div 4 - y div 100 + y div 400"

definition march_day :: "int \<Rightarrow> int" where
  "march_day mp = (153 * mp + 2) div 5"

lemma div_Suc_int: "(0::int) < n \<Longrightarrow> (y + 1) div n = y div n + (if (y + 1) mod n = 0 then 1 else 0)"
proof -
  assume n: "0 < n"
  have e: "y = n * (y div n) + y mod n" "0 \<le> y mod n" "y mod n < n" using n by simp_all
  show ?thesis
  proof (cases "y mod n = n - 1")
    case True
    then have "y + 1 = n * (y div n) + n" using e(1) by linarith
    then have "y + 1 = n * (y div n + 1)" by (simp add: distrib_left)
    with n show ?thesis by simp
  next
    case False
    with e have "0 \<le> y mod n + 1" "y mod n + 1 < n" by linarith+
    then have q: "(y mod n + 1) div n = 0" "(y mod n + 1) mod n = y mod n + 1" by simp_all
    have "y + 1 = (y mod n + 1) + y div n * n" using e(1) by simp
    then have "(y + 1) div n = y div n + (y mod n + 1) div n" using n by (simp only: div_mult_self1)
    moreover have "(y + 1) mod n = y mod n + 1" using q(2) by (simp add: mod_add_left_eq)
    ultimately show ?thesis using q e by simp
  qed
qed

lemma march_base_step: "march_base (y + 1) = march_base y + (if is_leap (y + 1) then 366 else 365)"
proof -
  have "(y + 1) mod 400 = 0 \<Longrightarrow> (y + 1) mod 100 = 0" "(y + 1) mod 100 = 0 \<Longrightarrow> (y + 1) mod 4 = 0"
    using mod_mod_cancel [of 100 400 "y + 1"] mod_mod_cancel [of 4 100 "y + 1"] by auto
  then show ?thesis
    by (auto simp: march_base_def div_Suc_int is_leap_def)
qed

lemma march_base_mono: "y \<le> y' \<Longrightarrow> march_base y \<le> march_base y'"
proof (induction y' rule: int_ge_induct)
  case (step i)
  then show ?case by (simp add: march_base_step)
qed simp

lemma era_split:
  fixes y :: int
  assumes "y = 400 * e + k" and "0 \<le> k" and "k < 400"
  shows "y div 400 = e" "y mod 400 = k" "march_base y = 146097 * e + 365 * k + k div 4 - k div 100"
proof -
  show q: "y div 400 = e" "y mod 400 = k" using assms by auto
  have "y = k + (100 * e) * 4" "y = k + (4 * e) * 100" using assms(1) by simp_all
  then have "y div 4 = 100 * e + k div 4" "y div 100 = 4 * e + k div 100"
    by (simp_all only: div_mult_self1)
  then show "march_base y = 146097 * e + 365 * k + k div 4 - k div 100"
    by (simp add: march_base_def q) (simp add: assms(1))
qed

lemma days_from_civil_march:
  "days_from_civil y m d =
     march_base (if m \<le> 2 then y - 1 else y) + march_day (if m \<le> 2 then m + 9 else m - 3) + d - 1 - 719468"
proof -
  define Y where "Y = (if m \<le> 2 then y - 1 else y)"
  have "march_base Y = 146097 * (Y div 400) + 365 * (Y mod 400) + (Y mod 400) div 4 - (Y mod 400) div 100"
    by (rule era_split(3)) simp_all
  moreover have "Y - Y div 400 * 400 = Y mod 400" by (simp add: minus_div_mult_eq_mod)
  moreover have "y - (if m \<le> 2 then 1 else 0) = Y" by (simp add: Y_def)
  moreover have "m + (if m > 2 then -3 else 9) = (if m \<le> 2 then m + 9 else m - 3)" by simp
  ultimately show ?thesis
    unfolding days_from_civil_def Let_def march_day_def Y_def [symmetric] by simp
qed

lemma month_cases:
  assumes "1 \<le> m" "m \<le> (12::int)"
  shows "m \<in> {1, 2, 3, 4, 5, 6, 7, 8, 9, 10, 11, 12}"
  using assms unfolding insert_iff empty_iff by presburger

lemma days_before_year_march: "days_before_year k = march_base (1969 + int k) + 306 - 719468"
proof (induction k)
  case (Suc k)
  have "1969 + int (Suc k) = (1969 + int k) + 1" by simp
  then show ?case using Suc march_base_step [of "1969 + int k"] by simp
qed (simp add: march_base_def)

text \<open>The conversion agrees with the reference calendar on every date from 1970 on.\<close>

lemma days_from_civil_reference:
  assumes "1970 \<le> y" "1 \<le> m" "m \<le> 12"
  shows "days_from_civil y m d = civil_day y m d"
proof -
  have b: "days_before_year (nat (y - 1970)) = march_base (y - 1) + 306 - 719468"
    using assms(1) by (simp add: days_before_year_march)
  have s: "march_base y = march_base (y - 1) + (if is_leap y then 366 else 365)"
    using march_base_step [of "y - 1"] by simp
  have n: "nat 1 = Suc 0" "nat 2 = Suc (Suc 0)" by simp_all
  show ?thesis
    using month_cases [OF assms(2,3)]
    by (auto simp: days_from_civil_march civil_day_def b s march_day_def days_in_month_def numeral_eq_Suc)
qed

section \<open>From day numbers to dates\<close>

lemma century_year:
  fixes r :: int
  assumes "0 \<le> b" "b \<le> 3" "0 \<le> r" "r < 36524"
    and k: "k = (24 * b + r) div 1460" and y: "y = (r - k) div 365"
  shows "0 \<le> y" "y < 100" "0 \<le> r - (365 * y + y div 4)" "r - (365 * y + y div 4) \<le> 365"
    "r - (365 * y + y div 4) = 365 \<Longrightarrow> y mod 4 = 3 \<and> (y = 99 \<longrightarrow> False)"
proof -
  define q where "q = y div 4"
  define j where "j = y mod 4"
  have j: "y = 4 * q + j" "0 \<le> j" "j \<le> 3" by (auto simp: q_def j_def)
  have k1: "1460 * k \<le> 24 * b + r" "24 * b + r < 1460 * k + 1460" unfolding k by linarith+
  have y1: "365 * y \<le> r - k" "r - k < 365 * y + 365" unfolding y by linarith+
  have k0: "0 \<le> k" "k \<le> 25" using k1 assms(1-4) by linarith+
  show y0: "0 \<le> y" using y1 k1 assms(1-4) by linarith
  show y9: "y < 100" using y1 k1 assms(1-4) by linarith
  have q0: "q \<le> k" using k1 y1 j k0 assms(1-4) by linarith
  have q1: "k \<le> q + 1" using k1 y1 j k0 assms(1-4) by linarith
  show "0 \<le> r - (365 * y + y div 4)" "r - (365 * y + y div 4) \<le> 365"
    unfolding q_def [symmetric] using q0 q1 y1 by linarith+
  show "y mod 4 = 3 \<and> (y = 99 \<longrightarrow> False)" if "r - (365 * y + y div 4) = 365"
    using that unfolding q_def [symmetric] j_def [symmetric]
    using k1 y1 j k0 q0 q1 y9 assms(1-4) by linarith
qed

lemma era_year:
  fixes doe :: int
  assumes "0 \<le> doe" "doe < 146097"
    and yoe: "yoe = (doe - doe div 1460 + doe div 36524 - doe div 146096) div 365"
    and doy: "doy = doe - (365 * yoe + yoe div 4 - yoe div 100)"
  shows "0 \<le> yoe \<and> yoe < 400 \<and> 0 \<le> doy \<and> doy \<le> 365 \<and> (doy = 365 \<longrightarrow> is_leap (400 * e + yoe + 1))"
proof (cases "doe = 146096")
  case True
  then have "yoe = 399" "doy = 365" by (simp_all add: yoe doy)
  moreover have "is_leap (400 * e + 399 + 1)" by (simp add: is_leap_def)
  ultimately show ?thesis by simp
next
  case False
  define b r where "b = doe div 36524" and "r = doe mod 36524"
  have br: "doe = 36524 * b + r" "0 \<le> r" "r < 36524" by (simp_all add: b_def r_def)
  with assms(1,2) False have b: "0 \<le> b" "b \<le> 3" by linarith+
  define k y where "k = (24 * b + r) div 1460" and "y = (r - k) div 365"
  note c = century_year [OF b br(2,3) k_def y_def]
  have "doe = (24 * b + r) + 25 * b * 1460" using br(1) by simp
  then have "doe div 1460 = 25 * b + k" unfolding k_def by (simp only: div_mult_self1)
  moreover have "doe div 146096 = 0" using assms(1,2) False by simp
  ultimately have "yoe = ((r - k) + 100 * b * 365) div 365"
    unfolding yoe b_def [symmetric] using br(1) by simp
  then have y: "yoe = 100 * b + y" unfolding y_def by (simp only: div_mult_self1)
  then have "yoe = y + 25 * b * 4" "yoe = y + b * 100" by simp_all
  then have "yoe div 4 = 25 * b + y div 4" "yoe div 100 = b + y div 100"
    by (simp_all only: div_mult_self1)
  moreover have "y div 100 = 0" using c(1,2) by simp
  ultimately have d: "doy = r - (365 * y + y div 4)" unfolding doy using br(1) y by simp
  have "is_leap (400 * e + yoe + 1)" if "doy = 365"
  proof -
    from c(5) that d have m: "y mod 4 = 3" "y \<noteq> 99" by auto
    have "400 * e + yoe + 1 = (y + 1) + (4 * e + b) * 100" using y by simp
    then have "(400 * e + yoe + 1) mod 100 = (y + 1) mod 100" by (simp only: mod_mult_self1)
    also have "\<dots> \<noteq> 0" using c(1,2) m(2) by simp
    finally have h: "(400 * e + yoe + 1) mod 100 \<noteq> 0" .
    have "400 * e + yoe + 1 = (y + 1) + (100 * e + 25 * b) * 4" using y by simp
    then have "(400 * e + yoe + 1) mod 4 = (y + 1) mod 4" by (simp only: mod_mult_self1)
    also have "\<dots> = 0" using m(1) by presburger
    finally show ?thesis using h by (simp add: is_leap_def)
  qed
  with b c d y show ?thesis by simp
qed

lemma trunc_floor: "0 < n \<Longrightarrow> trunc_div (if z \<ge> 0 then z else z - (n - 1)) n = z div n"
proof -
  assume n: "0 < n"
  show ?thesis
  proof (cases "z \<ge> 0")
    case False
    have "n - 1 - z = (n - 1 - z mod n) + (- (z div n)) * n" by (simp add: algebra_simps)
    then have "(n - 1 - z) div n = - (z div n) + (n - 1 - z mod n) div n"
      using n by (simp only: div_mult_self1)
    moreover have "0 \<le> n - 1 - z mod n" "n - 1 - z mod n < n"
      using pos_mod_bound [OF n, of z] pos_mod_sign [OF n, of z] by linarith+
    ultimately show ?thesis using False n by (simp add: trunc_div_def)
  qed simp
qed

lemma march_month:
  fixes doy :: int
  assumes "0 \<le> doy" "doy \<le> 365" and mp: "mp = (5 * doy + 2) div 153"
  shows "0 \<le> mp" "mp \<le> 11" "march_day mp \<le> doy" "doy < march_day (mp + 1)"
proof -
  have m: "153 * mp \<le> 5 * doy + 2" "5 * doy + 2 < 153 * mp + 153" unfolding mp by linarith+
  show "0 \<le> mp" "mp \<le> 11" using m assms(1,2) by linarith+
  show "march_day mp \<le> doy" unfolding march_day_def using m by linarith
  from m(2) have "5 * (doy + 1) \<le> 153 * (mp + 1) + 2" by (simp add: algebra_simps)
  from zdiv_mono1 [OF this, of 5] show "doy < march_day (mp + 1)" unfolding march_day_def by simp
qed

lemma march_month_cases:
  assumes "0 \<le> mp" "mp \<le> (11::int)"
  shows "mp \<in> {0, 1, 2, 3, 4, 5, 6, 7, 8, 9, 10, 11}"
  using assms unfolding insert_iff empty_iff by presburger

text \<open>Every day number is the day of the date computed for it, and that date is a valid one.\<close>

lemma civil_from_days_correct:
  assumes "civil_from_days n = (y, m, d)"
  shows "valid_date y m d" "days_from_civil y m d = n"
proof -
  define z e doe where "z = n + 719468" and "e = z div 146097" and "doe = z mod 146097"
  define yoe where "yoe = (doe - doe div 1460 + doe div 36524 - doe div 146096) div 365"
  define doy where "doy = doe - (365 * yoe + yoe div 4 - yoe div 100)"
  define mp where "mp = (5 * doy + 2) div 153"
  have doe: "0 \<le> doe" "doe < 146097" "z = 146097 * e + doe" by (simp_all add: doe_def e_def)
  note b = era_year [OF doe(1,2) yoe_def doy_def, of e]
  have dv: "0 \<le> doe div 1460" "0 \<le> doe div 36524" "0 \<le> doe div 146096" using doe(1) by (simp_all add: pos_imp_zdiv_nonneg_iff)
  have le: "0 \<le> doe - doe div 1460 + doe div 36524 - doe div 146096"
  proof (rule ccontr)
    assume "\<not> ?thesis"
    then have "yoe < 0" unfolding yoe_def by (simp add: pos_imp_zdiv_neg_iff)
    with b show False by simp
  qed
  from b have bd: "0 \<le> doy" "doy \<le> 365" by auto
  note mm = march_month [OF bd mp_def]
  have md: "0 \<le> 153 * mp + 2" using mm(1) by simp
  have "trunc_div (if z \<ge> 0 then z else z - 146096) 146097 = e"
    using trunc_floor [of 146097 z] by (cases "z \<ge> 0") (simp_all add: e_def)
  moreover have "z - e * 146097 = doe" using doe(3) by simp
  ultimately have c: "civil_from_days n = (let month = mp + (if mp < 10 then 3 else -9) in
      (yoe + e * 400 + (if month \<le> 2 then 1 else 0), month, doy - march_day mp + 1))"
    unfolding civil_from_days_def Let_def z_def [symmetric]
    using doe(1) le b mm(1) by (simp add: march_day_def flip: yoe_def doy_def mp_def)
  define Y where "Y = 400 * e + yoe"
  from c assms have y: "m = (if mp < 10 then mp + 3 else mp - 9)" "d = doy - march_day mp + 1"
    "y = (if m \<le> 2 then Y + 1 else Y)"
    by (auto simp: Y_def Let_def split: if_splits)
  have mb: "march_base Y = 146097 * e + 365 * yoe + yoe div 4 - yoe div 100"
    by (rule era_split(3) [OF Y_def]) (use b in auto)
  have "(if m \<le> 2 then y - 1 else y) = Y" using y by auto
  moreover have "(if m \<le> 2 then m + 9 else m - 3) = mp" using y mm(1,2) by auto
  ultimately show "days_from_civil y m d = n"
    unfolding days_from_civil_march using y(2) mb doe(3) by (simp add: doy_def z_def)
  have leap: "doy = 365 \<Longrightarrow> is_leap (Y + 1)" using b by (simp add: Y_def)
  have "d \<le> days_in_month y m" if "mp < 11"
    using march_month_cases [OF mm(1,2)] mm(4) that y
    by (elim insertE emptyE) (simp_all add: march_day_def days_in_month_def)
  moreover have "d \<le> days_in_month y m" if "mp = 11"
    using bd(2) leap y that by (cases "doy = 365") (simp_all add: march_day_def days_in_month_def)
  ultimately show "valid_date y m d"
    using mm(1-3) y by (cases "mp = 11") (auto simp: valid_date_def)
qed

definition march_year :: "int \<Rightarrow> int \<Rightarrow> int" where
  "march_year y m = (if m \<le> 2 then y - 1 else y)"

definition march_index :: "int \<Rightarrow> int" where
  "march_index m = (if m \<le> 2 then m + 9 else m - 3)"

definition day_of_march_year :: "int \<Rightarrow> int \<Rightarrow> int" where
  "day_of_march_year m d = march_day (march_index m) + d - 1"

lemma valid_date_march:
  assumes "valid_date y m d"
  shows "0 \<le> day_of_march_year m d"
    "day_of_march_year m d < (if is_leap (march_year y m + 1) then 366 else 365)"
    "(5 * day_of_march_year m d + 2) div 153 = march_index m"
proof -
  have m: "m \<in> {1, 2, 3, 4, 5, 6, 7, 8, 9, 10, 11, 12}"
    using assms by (intro month_cases) (simp_all add: valid_date_def)
  from assms have d: "1 \<le> d" "d \<le> days_in_month y m" by (simp_all add: valid_date_def)
  from m d show "0 \<le> day_of_march_year m d"
    "day_of_march_year m d < (if is_leap (march_year y m + 1) then 366 else 365)"
    by (elim insertE emptyE; simp add: day_of_march_year_def march_index_def march_day_def
        days_in_month_def march_year_def split: if_splits)+
  have "5 * day_of_march_year m d + 2 \<ge> 153 * march_index m
      \<and> 5 * day_of_march_year m d + 2 < 153 * march_index m + 153"
    using m d by (elim insertE emptyE; simp add: day_of_march_year_def march_index_def march_day_def
        days_in_month_def split: if_splits)
  then show "(5 * day_of_march_year m d + 2) div 153 = march_index m" by linarith
qed

lemma days_from_civil_inj:
  assumes "valid_date y m d" "valid_date y' m' d'" "days_from_civil y m d = days_from_civil y' m' d'"
  shows "(y, m, d) = (y', m', d')"
proof -
  let ?Y = "march_year y m" and ?Y' = "march_year y' m'"
  let ?n = "day_of_march_year m d" and ?n' = "day_of_march_year m' d'"
  note b = valid_date_march [OF assms(1)] and b' = valid_date_march [OF assms(2)]
  from assms(3) have e: "march_base ?Y + ?n = march_base ?Y' + ?n'"
    by (simp add: days_from_civil_march march_year_def day_of_march_year_def march_index_def)
  have "march_base ?Y + ?n < march_base (?Y + 1)" "march_base ?Y' + ?n' < march_base (?Y' + 1)"
    using b(2) b'(2) by (auto simp: march_base_step)
  then have Y: "?Y = ?Y'"
    using e b(1) b'(1) march_base_mono [of "?Y + 1" ?Y'] march_base_mono [of "?Y' + 1" ?Y] by linarith
  with e have n: "?n = ?n'" by simp
  with b(3) b'(3) have i: "march_index m = march_index m'" by simp
  with assms(1,2) have m: "m = m'"
    by (auto simp: march_index_def valid_date_def split: if_splits)
  with n i Y show ?thesis by (simp add: day_of_march_year_def march_year_def split: if_splits)
qed

lemma civil_from_days_from_civil:
  assumes "valid_date y m d"
  shows "civil_from_days (days_from_civil y m d) = (y, m, d)"
proof -
  obtain y' m' d' where c: "civil_from_days (days_from_civil y m d) = (y', m', d')"
    by (cases "civil_from_days (days_from_civil y m d)") auto
  from days_from_civil_inj [OF civil_from_days_correct(1) [OF c] assms civil_from_days_correct(2) [OF c]]
  show ?thesis by (simp add: c)
qed

section \<open>Properties\<close>

text \<open>C25. The two calendar conversions are inverse to each other, on every day number and every
  valid date (leap years and negative years included), and from 1970 on the day number is the
  count of days in the reference calendar.\<close>

theorem civil_conversions:
  "(case civil_from_days n of (y, m, d) \<Rightarrow> valid_date y m d \<and> days_from_civil y m d = n) \<and>
   (valid_date y m d \<longrightarrow> civil_from_days (days_from_civil y m d) = (y, m, d)) \<and>
   (1970 \<le> y \<longrightarrow> valid_date y m d \<longrightarrow> days_from_civil y m d = civil_day y m d)"
  using civil_from_days_correct [of n]
  by (auto simp: civil_from_days_from_civil days_from_civil_reference valid_date_def split: prod.splits)

theorem civil_conversions_witness:
  "civil_from_days 19782 = (2024, 2, 29) \<and> days_from_civil 2024 2 29 = 19782
   \<and> days_from_civil 1970 3 1 = civil_day 1970 3 1"
proof -
  have d: "days_from_civil 2024 2 29 = 19782" by (simp add: days_from_civil_def)
  have v: "valid_date 2024 2 29" "valid_date 1970 3 1"
    by (simp_all add: valid_date_def days_in_month_def is_leap_def)
  from civil_conversions [of 0 2024 2 29] civil_conversions [of 0 1970 3 1] v d
  show ?thesis by simp
qed

end
