(* ===== verification/Sigv4.thy ===== *)
theory Sigv4
  imports Headers Calendar "HOL-Library.Multiset"
begin

text \<open>
  \<^verbatim>\<open>protocol/sigv4.rs\<close>: AWS Signature Version 4.  Parsing of the \<^verbatim>\<open>Authorization\<close> header and of presigned
  query parameters, canonicalisation of path, query and headers, the time windows, and the two
  verification procedures.

  The hash functions of the \<^verbatim>\<open>sha2\<close> and \<^verbatim>\<open>hmac\<close> crates are the fields of the parameter record
  \<open>Crypto\<close>.  A \<^verbatim>\<open>Duration\<close> is a number of nanoseconds, a \<^verbatim>\<open>SystemTime\<close> a signed distance from the epoch.
\<close>

section \<open>Data\<close>

record Crypto =
  sha256 :: "bytes \<Rightarrow> bytes"
  hmac_sha256 :: "bytes \<Rightarrow> bytes \<Rightarrow> bytes"

definition ALGORITHM :: bytes where
  "ALGORITHM = ascii ''AWS4-HMAC-SHA256''"

definition TERMINATOR :: bytes where
  "TERMINATOR = ascii ''aws4_request''"

definition MAX_PRESIGN_EXPIRY_SECONDS :: nat where
  "MAX_PRESIGN_EXPIRY_SECONDS = 7 * 24 * 60 * 60"

datatype PayloadMode =
    FullHash bytes | UnsignedPayload | StreamingSigned | StreamingUnsignedTrailer

datatype SigV4Error =
    MissingHeader bytes | SigDuplicateHeader bytes | MissingQueryParameter bytes
  | DuplicateQueryParameter bytes | InvalidUtf8 | InvalidAuthorization | UnsupportedAlgorithm
  | InvalidCredentialScope | InvalidSignedHeaders | MissingSignedHeader bytes
  | UnsignedAmzHeader bytes | MissingPayloadHash | UnsupportedPayloadMode | InvalidHex
  | InvalidTimestamp | RequestTimeTooSkewed | PresignedUrlNotYetValid | PresignedUrlExpired
  | InvalidExpires | RegionMismatch | ServiceMismatch | SignatureMismatch | PayloadHashMismatch
  | StreamingPayloadRequiresDecoder | InvalidCanonicalUri | InvalidCanonicalQuery

record CredentialScope =
  access_key :: bytes
  cs_date :: bytes
  cs_region :: bytes
  cs_service :: bytes

record HeaderAuthorization =
  ha_credential :: CredentialScope
  ha_signed_headers :: "bytes list"
  ha_signature :: bytes

record PresignedAuthorization =
  pa_credential :: CredentialScope
  pa_signed_headers :: "bytes list"
  pa_signature :: bytes
  pa_amz_date :: bytes
  expires_seconds :: nat

record SigV4Request =
  sr_method :: bytes
  sr_raw_path :: bytes
  sr_raw_query :: "bytes option"
  sr_query :: QueryParams
  sr_headers :: HeaderMap

definition SigV4Request_from :: "RequestHead \<Rightarrow> SigV4Request" where
  "SigV4Request_from request =
     \<lparr>sr_method = rh_method request, sr_raw_path = raw_path (rh_target request),
      sr_raw_query = raw_query (rh_target request), sr_query = rt_query (rh_target request),
      sr_headers = rh_headers request\<rparr>"

record VerificationConfig =
  vc_now :: SystemTime
  max_clock_skew :: nat
  expected_region :: "bytes option"
  expected_service :: bytes

record StreamingSigningContext =
  ctx_signing_key :: bytes
  ctx_amz_date :: bytes
  ctx_credential_scope :: bytes
  seed_signature :: bytes

record VerifiedSignature =
  vs_credential :: CredentialScope
  vs_signed_headers :: "bytes list"
  vs_payload_mode :: PayloadMode
  security_token :: "bytes option"
  canonical_request_hash :: bytes
  streaming_context :: "StreamingSigningContext option"

section \<open>Parsing\<close>

definition decode_hex_32 :: "bytes \<Rightarrow> SigV4Error + bytes" where
  "decode_hex_32 value = ok_or (decode_hex_32_opt value) InvalidHex"

definition PayloadMode_parse :: "bytes \<Rightarrow> SigV4Error + PayloadMode" where
  "PayloadMode_parse value =
     (if value = ascii ''UNSIGNED-PAYLOAD'' then Ok UnsignedPayload
      else if value = ascii ''STREAMING-AWS4-HMAC-SHA256-PAYLOAD'' then Ok StreamingSigned
      else if value = ascii ''STREAMING-UNSIGNED-PAYLOAD-TRAILER'' then Ok StreamingUnsignedTrailer
      else if length value = 64 then rbind (decode_hex_32 value) (\<lambda>h. Ok (FullHash h))
      else Err UnsupportedPayloadMode)"

definition verify_body :: "Crypto \<Rightarrow> PayloadMode \<Rightarrow> bytes \<Rightarrow> SigV4Error + unit" where
  "verify_body cr mode body =
     (case mode of
        FullHash expected \<Rightarrow>
          if constant_time_eq expected (sha256 cr body) then Ok () else Err PayloadHashMismatch
      | UnsignedPayload \<Rightarrow> Ok ()
      | _ \<Rightarrow> Err StreamingPayloadRequiresDecoder)"

definition scope :: "CredentialScope \<Rightarrow> bytes" where
  "scope c = cs_date c @ ascii ''/'' @ cs_region c @ ascii ''/'' @ cs_service c @ ascii ''/'' @ TERMINATOR"

definition one_header :: "HeaderMap \<Rightarrow> bytes \<Rightarrow> SigV4Error + bytes option" where
  "one_header headers n =
     (let values = HeaderMap_get_all headers n in
      if length values > 1 then Err (SigDuplicateHeader n) else Ok (list_first values))"

definition query_optional_one :: "QueryParams \<Rightarrow> bytes \<Rightarrow> SigV4Error + bytes option" where
  "query_optional_one query n =
     (let values = QueryParams_get_all query n in
      if length values > 1 then Err (DuplicateQueryParameter n) else Ok (list_first values))"

definition query_one :: "QueryParams \<Rightarrow> bytes \<Rightarrow> SigV4Error + bytes" where
  "query_one query n = rbind (query_optional_one query n) (\<lambda>v. ok_or v (MissingQueryParameter n))"

definition query_one_str :: "QueryParams \<Rightarrow> bytes \<Rightarrow> SigV4Error + bytes" where
  "query_one_str query n = rbind (query_one query n) (\<lambda>v. ok_or (from_utf8 v) InvalidUtf8)"

definition parse_credential :: "bytes \<Rightarrow> SigV4Error + CredentialScope" where
  "parse_credential value =
     (case split_on (\<lambda>b. b = 0x2f) value of
        [key, date, region, service, terminator] \<Rightarrow>
          if list_ex (\<lambda>field. field = []) [key, date, region, service, terminator]
            \<or> terminator \<noteq> TERMINATOR \<or> length date \<noteq> 8 \<or> \<not> list_all is_ascii_digit date
          then Err InvalidCredentialScope
          else Ok \<lparr>access_key = key, cs_date = date, cs_region = region, cs_service = service\<rparr>
      | _ \<Rightarrow> Err InvalidCredentialScope)"

definition is_lowercase_header_token :: "u8 \<Rightarrow> bool" where
  "is_lowercase_header_token b \<longleftrightarrow>
     is_ascii_lowercase b \<or> is_ascii_digit b \<or> b \<in> set (ascii ''!#$%&'*+-.^_`|~'')"

text \<open>\<^verbatim>\<open>windows(2).any(|pair| pair[0] >= pair[1])\<close>, negated.\<close>

fun strictly_ascending :: "bytes list \<Rightarrow> bool" where
  "strictly_ascending (a # b # rest) \<longleftrightarrow> a < b \<and> strictly_ascending (b # rest)"
| "strictly_ascending _ \<longleftrightarrow> True"

definition parse_signed_headers :: "bytes \<Rightarrow> SigV4Error + bytes list" where
  "parse_signed_headers value =
     (let headers = split_on (\<lambda>b. b = 0x3b) value in
      if headers = [] \<or> list_ex (\<lambda>n. n = [] \<or> \<not> list_all is_lowercase_header_token n) headers
        \<or> \<not> strictly_ascending headers
      then Err InvalidSignedHeaders else Ok headers)"

text \<open>One attribute of the header: exactly one each of Credential, SignedHeaders and Signature.\<close>

definition auth_attribute ::
  "bytes \<Rightarrow> CredentialScope option \<times> bytes list option \<times> bytes option \<Rightarrow>
   SigV4Error + (CredentialScope option \<times> bytes list option \<times> bytes option)" where
  "auth_attribute attribute acc = (case acc of (credential, signed_headers, signature) \<Rightarrow>
     rbind (ok_or (split_once 0x3d (str_trim attribute)) InvalidAuthorization) (\<lambda>(n, value).
     if value = [] then Err InvalidAuthorization
     else if n = ascii ''Credential'' \<and> credential = None then
       rbind (parse_credential value) (\<lambda>c. Ok (Some c, signed_headers, signature))
     else if n = ascii ''SignedHeaders'' \<and> signed_headers = None then
       rbind (parse_signed_headers value) (\<lambda>s. Ok (credential, Some s, signature))
     else if n = ascii ''Signature'' \<and> signature = None then
       rbind (decode_hex_32 value) (\<lambda>s. Ok (credential, signed_headers, Some s))
     else Err InvalidAuthorization))"

fun auth_attributes ::
  "bytes list \<Rightarrow> CredentialScope option \<times> bytes list option \<times> bytes option \<Rightarrow>
   SigV4Error + (CredentialScope option \<times> bytes list option \<times> bytes option)" where
  "auth_attributes [] acc = Ok acc"
| "auth_attributes (a # as) acc = rbind (auth_attribute a acc) (auth_attributes as)"

definition parse_header_authorization :: "HeaderMap \<Rightarrow> SigV4Error + HeaderAuthorization" where
  "parse_header_authorization headers =
     rbind (one_header headers (ascii ''authorization'')) (\<lambda>v.
     rbind (ok_or v (MissingHeader (ascii ''Authorization''))) (\<lambda>v.
     rbind (ok_or (from_utf8 v) InvalidUtf8) (\<lambda>authorization.
     rbind (ok_or (split_once 0x20 authorization) InvalidAuthorization) (\<lambda>(algorithm, attributes).
     if algorithm \<noteq> ALGORITHM then Err UnsupportedAlgorithm
     else rbind (auth_attributes (split_on (\<lambda>b. b = 0x2c) attributes) (None, None, None))
       (\<lambda>(credential, signed_headers, signature).
       rbind (ok_or credential InvalidAuthorization) (\<lambda>c.
       rbind (ok_or signed_headers InvalidAuthorization) (\<lambda>s.
       rbind (ok_or signature InvalidAuthorization) (\<lambda>g.
       Ok \<lparr>ha_credential = c, ha_signed_headers = s, ha_signature = g\<rparr>))))))))"

definition parse_presigned_authorization :: "QueryParams \<Rightarrow> SigV4Error + PresignedAuthorization" where
  "parse_presigned_authorization query =
     rbind (query_one_str query (ascii ''X-Amz-Algorithm'')) (\<lambda>algorithm.
     if algorithm \<noteq> ALGORITHM then Err UnsupportedAlgorithm
     else rbind (query_one_str query (ascii ''X-Amz-Expires'')) (\<lambda>v.
     rbind (ok_or (parse_unsigned 64 v) InvalidExpires) (\<lambda>expires.
     if \<not> (1 \<le> expires \<and> expires \<le> MAX_PRESIGN_EXPIRY_SECONDS) then Err InvalidExpires
     else
       rbind (query_one_str query (ascii ''X-Amz-Credential'')) (\<lambda>v.
       rbind (parse_credential v) (\<lambda>credential.
       rbind (query_one_str query (ascii ''X-Amz-SignedHeaders'')) (\<lambda>v.
       rbind (parse_signed_headers v) (\<lambda>signed_headers.
       rbind (query_one query (ascii ''X-Amz-Signature'')) (\<lambda>v.
       rbind (decode_hex_32 v) (\<lambda>signature.
       rbind (query_one_str query (ascii ''X-Amz-Date'')) (\<lambda>amz_date.
       Ok \<lparr>pa_credential = credential, pa_signed_headers = signed_headers,
           pa_signature = signature, pa_amz_date = amz_date, expires_seconds = expires\<rparr>))))))))))"

section \<open>Canonicalisation\<close>

fun canonical_uri_loop :: "bytes \<Rightarrow> SigV4Error + bytes" where
  "canonical_uri_loop [] = Ok []"
| "canonical_uri_loop (b # rest) =
     (if b = 0x2f \<or> is_unreserved b then rbind (canonical_uri_loop rest) (\<lambda>out. Ok (b # out))
      else if b = 0x25 then
        (case rest of
           h # l # rest' \<Rightarrow>
             if hex_nibble h = None \<or> hex_nibble l = None then Err InvalidCanonicalUri
             else rbind (canonical_uri_loop rest') (\<lambda>out.
               Ok (0x25 # to_ascii_uppercase h # to_ascii_uppercase l # out))
         | _ \<Rightarrow> Err InvalidCanonicalUri)
      else rbind (canonical_uri_loop rest) (\<lambda>out. Ok (push_percent_encoded b @ out)))"

definition canonical_uri :: "bytes \<Rightarrow> SigV4Error + bytes" where
  "canonical_uri path =
     (if \<not> starts_with [0x2f] path then Err InvalidCanonicalUri else canonical_uri_loop path)"

definition map_canonical_query_error :: "HttpParseError \<Rightarrow> SigV4Error" where
  "map_canonical_query_error e = InvalidCanonicalQuery"

fun canonical_query_pairs :: "bool \<Rightarrow> bytes list \<Rightarrow> SigV4Error + (bytes \<times> bytes) list" where
  "canonical_query_pairs exclude_signature [] = Ok []"
| "canonical_query_pairs exclude_signature (component # components) =
     (let (rn, rv) = (case split_once 0x3d component of Some p \<Rightarrow> p | None \<Rightarrow> (component, []))
      in rbind (map_err map_canonical_query_error (percent_decode rn)) (\<lambda>n.
         if exclude_signature \<and> n = ascii ''X-Amz-Signature''
         then canonical_query_pairs exclude_signature components
         else
           rbind (map_err map_canonical_query_error (percent_decode rv)) (\<lambda>v.
           rbind (canonical_query_pairs exclude_signature components) (\<lambda>ps.
           Ok ((aws_encode n True, aws_encode v True) # ps)))))"

definition query_pair_text :: "bytes \<times> bytes \<Rightarrow> bytes" where
  "query_pair_text p = fst p @ [0x3d] @ snd p"

definition canonical_query :: "bytes option \<Rightarrow> bool \<Rightarrow> SigV4Error + bytes" where
  "canonical_query query exclude_signature =
     (case query of
        None \<Rightarrow> Ok []
      | Some q \<Rightarrow>
          if q = [] then Ok []
          else rbind (canonical_query_pairs exclude_signature (split_on (\<lambda>b. b = 0x26) q)) (\<lambda>pairs.
            Ok (join [0x26] (map query_pair_text (sort pairs)))))"

fun normalize_header_loop :: "bool \<Rightarrow> bytes \<Rightarrow> bytes" where
  "normalize_header_loop in_whitespace [] = []"
| "normalize_header_loop in_whitespace (b # bs) =
     (if b = 0x20 \<or> b = 0x09 then
        (if \<not> in_whitespace then 0x20 # normalize_header_loop True bs
         else normalize_header_loop in_whitespace bs)
      else b # normalize_header_loop False bs)"

definition normalize_header_value :: "bytes \<Rightarrow> bytes" where
  "normalize_header_value value =
     (let normalized = normalize_header_loop True value in
      if normalized \<noteq> [] \<and> last normalized = 0x20 then butlast normalized else normalized)"

fun canonical_headers :: "HeaderMap \<Rightarrow> bytes list \<Rightarrow> SigV4Error + bytes" where
  "canonical_headers headers [] = Ok []"
| "canonical_headers headers (n # ns) =
     (let values = HeaderMap_get_all headers n in
      if values = [] then Err (MissingSignedHeader n)
      else rbind (canonical_headers headers ns) (\<lambda>rest.
        Ok (n @ [0x3a] @ join [0x2c] (map normalize_header_value values) @ [0x0a] @ rest)))"

definition build_canonical_request ::
  "SigV4Request \<Rightarrow> bytes list \<Rightarrow> bytes \<Rightarrow> bool \<Rightarrow> SigV4Error + bytes" where
  "build_canonical_request request signed_headers payload_literal exclude_signature =
     rbind (canonical_uri (sr_raw_path request)) (\<lambda>uri.
     rbind (canonical_query (sr_raw_query request) exclude_signature) (\<lambda>query.
     rbind (canonical_headers (sr_headers request) signed_headers) (\<lambda>headers.
     let signed_list = join [0x3b] signed_headers in
     Ok (sr_method request @ [0x0a] @ uri @ [0x0a] @ query @ [0x0a] @ headers @ [0x0a]
         @ signed_list @ [0x0a] @ payload_literal))))"

section \<open>Validation\<close>

definition find_err :: "('a \<Rightarrow> bool) \<Rightarrow> ('a \<Rightarrow> 'e) \<Rightarrow> 'a list \<Rightarrow> 'e + unit" where
  "find_err bad err xs = (case find bad xs of None \<Rightarrow> Ok () | Some x \<Rightarrow> Err (err x))"

definition validate_signed_headers :: "HeaderMap \<Rightarrow> bytes list \<Rightarrow> SigV4Error + unit" where
  "validate_signed_headers headers signed_names =
     (if ascii ''host'' \<notin> set signed_names then Err InvalidSignedHeaders
      else
        rbind (find_err (\<lambda>n. HeaderMap_get headers n = None) MissingSignedHeader signed_names) (\<lambda>_.
        find_err (\<lambda>field. starts_with (ascii ''x-amz-'') (hdr_name field)
            \<and> hdr_name field \<noteq> ascii ''x-amz-content-sha256'' \<and> hdr_name field \<notin> set signed_names)
          (\<lambda>field. UnsignedAmzHeader (hdr_name field)) (hm_fields headers)))"

definition validate_scope :: "CredentialScope \<Rightarrow> VerificationConfig \<Rightarrow> SigV4Error + unit" where
  "validate_scope credential config =
     (if cs_service credential \<noteq> expected_service config then Err ServiceMismatch
      else case expected_region config of
        Some region \<Rightarrow> if region \<noteq> cs_region credential then Err RegionMismatch else Ok ()
      | None \<Rightarrow> Ok ())"

definition as_secs :: "nat \<Rightarrow> nat" where
  "as_secs nanos = nanos div 1000000000"

definition unix_seconds :: "SystemTime \<Rightarrow> SigV4Error + int" where
  "unix_seconds time =
     (if time < 0 then Err InvalidTimestamp
      else let seconds = time div 1000000000 in
        if seconds < 2 ^ 63 then Ok seconds else Err InvalidTimestamp)"

definition validate_header_time :: "int \<Rightarrow> VerificationConfig \<Rightarrow> SigV4Error + unit" where
  "validate_header_time timestamp config =
     rbind (unix_seconds (vc_now config)) (\<lambda>now.
     if \<bar>now - timestamp\<bar> > int (as_secs (max_clock_skew config)) then Err RequestTimeTooSkewed
     else Ok ())"

definition validate_presign_time :: "int \<Rightarrow> nat \<Rightarrow> VerificationConfig \<Rightarrow> SigV4Error + unit" where
  "validate_presign_time timestamp expires config =
     rbind (unix_seconds (vc_now config)) (\<lambda>now.
     let s = int (as_secs (max_clock_skew config));
         skew = (if s < 2 ^ 63 then s else 2 ^ 63 - 1) in
     if now < i64_saturating (timestamp - skew) then Err PresignedUrlNotYetValid
     else if \<not> int expires < 2 ^ 63 then Err InvalidExpires
     else if now > i64_saturating (timestamp + int expires) then Err PresignedUrlExpired
     else Ok ())"

definition slice :: "nat \<Rightarrow> nat \<Rightarrow> 'a list \<Rightarrow> 'a list" where
  "slice i j xs = take (j - i) (drop i xs)"

definition parse_amz_timestamp :: "bytes \<Rightarrow> SigV4Error + int" where
  "parse_amz_timestamp bs =
     (if length bs \<noteq> 16 \<or> bs ! 8 \<noteq> 0x54 \<or> bs ! 15 \<noteq> 0x5a then Err InvalidTimestamp
      else if list_ex (\<lambda>(index, b). index \<noteq> 8 \<and> index \<noteq> 15 \<and> \<not> is_ascii_digit b) (enumerate 0 bs)
      then Err InvalidTimestamp
      else
       (let year = decimal (slice 0 4 bs); month = decimal (slice 4 6 bs);
            day = decimal (slice 6 8 bs); hour = decimal (slice 9 11 bs);
            minute = decimal (slice 11 13 bs); second = decimal (slice 13 15 bs) in
        if year < 1970 \<or> \<not> (1 \<le> month \<and> month \<le> 12) \<or> day = 0 \<or> day > days_in_month year month
          \<or> hour > 23 \<or> minute > 59 \<or> second > 59
        then Err InvalidTimestamp
        else
         (case i64_checked (days_from_civil year month day * 86400) of
            None \<Rightarrow> Err InvalidTimestamp
          | Some seconds \<Rightarrow>
              ok_or (i64_checked (seconds + (hour * 3600 + minute * 60 + second))) InvalidTimestamp)))"

section \<open>Verification\<close>

definition string_to_sign :: "bytes \<Rightarrow> bytes \<Rightarrow> bytes \<Rightarrow> bytes" where
  "string_to_sign amz_date scp canonical_hash =
     ALGORITHM @ [0x0a] @ amz_date @ [0x0a] @ scp @ [0x0a] @ hex_lower canonical_hash"

definition hmac_bytes :: "Crypto \<Rightarrow> bytes \<Rightarrow> bytes \<Rightarrow> bytes" where
  "hmac_bytes cr key value = hmac_sha256 cr key value"

definition derive_signing_key :: "Crypto \<Rightarrow> bytes \<Rightarrow> CredentialScope \<Rightarrow> bytes" where
  "derive_signing_key cr secret credential =
     (let initial = ascii ''AWS4'' @ secret;
          date_key = hmac_bytes cr initial (cs_date credential);
          region_key = hmac_bytes cr date_key (cs_region credential);
          service_key = hmac_bytes cr region_key (cs_service credential)
      in hmac_bytes cr service_key TERMINATOR)"

text \<open>\<^verbatim>\<open>verify_slice\<close> accepts exactly the tag that \<^verbatim>\<open>finalize\<close> would return.\<close>

definition verify_hmac :: "Crypto \<Rightarrow> bytes \<Rightarrow> bytes \<Rightarrow> bytes \<Rightarrow> SigV4Error + unit" where
  "verify_hmac cr key value signature =
     (if hmac_sha256 cr key value = signature then Ok () else Err SignatureMismatch)"

definition verify_header ::
  "Crypto \<Rightarrow> SigV4Request \<Rightarrow> bytes \<Rightarrow> VerificationConfig \<Rightarrow> SigV4Error + VerifiedSignature" where
  "verify_header cr request secret_access_key config =
     rbind (parse_header_authorization (sr_headers request)) (\<lambda>authorization.
     rbind (validate_scope (ha_credential authorization) config) (\<lambda>_.
     rbind (validate_signed_headers (sr_headers request) (ha_signed_headers authorization)) (\<lambda>_.
     rbind (one_header (sr_headers request) (ascii ''x-amz-date'')) (\<lambda>v.
     rbind (ok_or v (MissingHeader (ascii ''x-amz-date''))) (\<lambda>v.
     rbind (ok_or (from_utf8 v) InvalidUtf8) (\<lambda>amz_date.
     rbind (parse_amz_timestamp amz_date) (\<lambda>signed_time.
     if cs_date (ha_credential authorization) \<noteq> take 8 amz_date then Err InvalidCredentialScope
     else
     rbind (validate_header_time signed_time config) (\<lambda>_.
     rbind (one_header (sr_headers request) (ascii ''x-amz-content-sha256'')) (\<lambda>v.
     rbind (ok_or v MissingPayloadHash) (\<lambda>v.
     rbind (ok_or (from_utf8 v) InvalidUtf8) (\<lambda>payload_literal.
     rbind (PayloadMode_parse payload_literal) (\<lambda>payload_mode.
     rbind (build_canonical_request request (ha_signed_headers authorization) payload_literal False)
       (\<lambda>canonical_request.
     let request_hash = sha256 cr canonical_request;
         credential_scope = scope (ha_credential authorization);
         to_sign = string_to_sign amz_date credential_scope request_hash;
         signing_key = derive_signing_key cr secret_access_key (ha_credential authorization) in
     rbind (verify_hmac cr signing_key to_sign (ha_signature authorization)) (\<lambda>_.
     rbind (one_header (sr_headers request) (ascii ''x-amz-security-token'')) (\<lambda>v.
     rbind (opt_try (\<lambda>v. ok_or (from_utf8 v) InvalidUtf8) v) (\<lambda>token.
     Ok \<lparr>vs_credential = ha_credential authorization,
         vs_signed_headers = ha_signed_headers authorization,
         vs_payload_mode = payload_mode, security_token = token,
         canonical_request_hash = request_hash,
         streaming_context = (if payload_mode = StreamingSigned
           then Some \<lparr>ctx_signing_key = signing_key, ctx_amz_date = amz_date,
             ctx_credential_scope = credential_scope,
             seed_signature = ha_signature authorization\<rparr>
           else None)\<rparr>))))))))))))))))"

definition verify_presigned ::
  "Crypto \<Rightarrow> SigV4Request \<Rightarrow> bytes \<Rightarrow> VerificationConfig \<Rightarrow> SigV4Error + VerifiedSignature" where
  "verify_presigned cr request secret_access_key config =
     rbind (parse_presigned_authorization (sr_query request)) (\<lambda>authorization.
     rbind (validate_scope (pa_credential authorization) config) (\<lambda>_.
     rbind (validate_signed_headers (sr_headers request) (pa_signed_headers authorization)) (\<lambda>_.
     rbind (parse_amz_timestamp (pa_amz_date authorization)) (\<lambda>signed_time.
     if cs_date (pa_credential authorization) \<noteq> take 8 (pa_amz_date authorization)
     then Err InvalidCredentialScope
     else
     rbind (validate_presign_time signed_time (expires_seconds authorization) config) (\<lambda>_.
     rbind (build_canonical_request request (pa_signed_headers authorization)
       (ascii ''UNSIGNED-PAYLOAD'') True) (\<lambda>canonical_request.
     let request_hash = sha256 cr canonical_request;
         credential_scope = scope (pa_credential authorization);
         to_sign = string_to_sign (pa_amz_date authorization) credential_scope request_hash;
         signing_key = derive_signing_key cr secret_access_key (pa_credential authorization) in
     rbind (verify_hmac cr signing_key to_sign (pa_signature authorization)) (\<lambda>_.
     rbind (query_optional_one (sr_query request) (ascii ''X-Amz-Security-Token'')) (\<lambda>v.
     rbind (opt_try (\<lambda>v. ok_or (from_utf8 v) InvalidUtf8) v) (\<lambda>token.
     Ok \<lparr>vs_credential = pa_credential authorization,
         vs_signed_headers = pa_signed_headers authorization,
         vs_payload_mode = UnsignedPayload, security_token = token,
         canonical_request_hash = request_hash, streaming_context = None\<rparr>)))))))))"

section \<open>Canonical paths\<close>

lemma hex_value_uppercase: "hex_value h = Some x \<Longrightarrow> hex_value (to_ascii_uppercase h) = Some x"
  by (auto simp: hex_value_def ascii_class_defs byte_arith unat_sub_if' split: if_splits)

lemma to_ascii_uppercase_idem [simp]: "to_ascii_uppercase (to_ascii_uppercase h) = to_ascii_uppercase h"
  by (auto simp: ascii_class_defs byte_arith unat_sub_if')

lemma hex_uppercase_alnum: "hex_value h = Some x \<Longrightarrow> is_unreserved (to_ascii_uppercase h)"
  by (auto simp: hex_value_def is_unreserved_def ascii_class_defs byte_arith unat_sub_if' split: if_splits)

lemma percent_reserved: "\<not> is_unreserved 0x25"
  by (simp add: is_unreserved_def ascii_class_defs)

text \<open>The three ways a byte is taken over: as it is, as an escape, or newly escaped.\<close>

lemma canonical_uri_loop_ConsE:
  assumes "canonical_uri_loop (b # rest) = Ok u"
  obtains (plain) out where "b = 0x2f \<or> is_unreserved b" "canonical_uri_loop rest = Ok out" "u = b # out"
  | (escape) h l rest' x y out where "b = 0x25" "rest = h # l # rest'"
      "hex_value h = Some x" "hex_value l = Some y" "canonical_uri_loop rest' = Ok out"
      "u = 0x25 # to_ascii_uppercase h # to_ascii_uppercase l # out"
  | (raw) out where "b \<noteq> 0x25" "b \<noteq> 0x2f" "\<not> is_unreserved b" "canonical_uri_loop rest = Ok out"
      "u = push_percent_encoded b @ out"
proof (cases "b = 0x2f \<or> is_unreserved b")
  case True
  with assms show thesis by (auto intro: plain)
next
  case False
  show thesis
  proof (cases "b = 0x25")
    case True
    with assms False obtain h l rest' out where "rest = h # l # rest'" "hex_value h \<noteq> None"
      "hex_value l \<noteq> None" "canonical_uri_loop rest' = Ok out"
      "u = 0x25 # to_ascii_uppercase h # to_ascii_uppercase l # out"
      by (auto simp: hex_nibble_value split: list.splits if_splits)
    with True show thesis by (auto intro: escape)
  next
    case False': False
    with assms False show thesis by (auto intro: raw)
  qed
qed

lemma canonical_uri_loop_induct [consumes 1, case_names Nil plain escape raw]:
  assumes "canonical_uri_loop p = Ok u"
    and "P [] []"
    and "\<And>b rest out. b = 0x2f \<or> is_unreserved b \<Longrightarrow> P rest out \<Longrightarrow> P (b # rest) (b # out)"
    and "\<And>h l x y rest out. hex_value h = Some x \<Longrightarrow> hex_value l = Some y \<Longrightarrow> P rest out \<Longrightarrow>
      P (0x25 # h # l # rest) (0x25 # to_ascii_uppercase h # to_ascii_uppercase l # out)"
    and "\<And>b rest out. b \<noteq> 0x25 \<Longrightarrow> b \<noteq> 0x2f \<Longrightarrow> \<not> is_unreserved b \<Longrightarrow> P rest out \<Longrightarrow>
      P (b # rest) (push_percent_encoded b @ out)"
  shows "P p u"
  using assms(1)
proof (induction "length p" arbitrary: p u rule: less_induct)
  case less
  show ?case
  proof (cases p)
    case Nil
    with less.prems assms(2) show ?thesis by simp
  next
    case (Cons b rest)
    from less.prems [unfolded Cons] show ?thesis
      by (cases rule: canonical_uri_loop_ConsE)
        (use less.hyps assms(3-5) Cons in auto)
  qed
qed

lemma canonical_uri_loop_decode:
  "canonical_uri_loop p = Ok u \<Longrightarrow> percent_decode u = percent_decode p \<and> is_ok (percent_decode p)"
proof (induction rule: canonical_uri_loop_induct)
  case (plain b rest out)
  then have "b \<noteq> 0x25" by (auto dest: percent_not_unreserved)
  with plain show ?case by (cases "percent_decode rest") auto
next
  case (escape h l x y rest out)
  then show ?case
    by (cases "percent_decode rest")
      (simp_all add: percent_decode_escape hex_value_uppercase del: percent_decode.simps(2))
next
  case (raw b rest out)
  then show ?case by (cases "percent_decode rest") (auto simp: percent_decode_pushed)
qed simp

lemma canonical_uri_loop_total:
  "is_ok (percent_decode p) \<Longrightarrow> is_ok (canonical_uri_loop p)"
proof (induction p rule: canonical_uri_loop.induct)
  case (2 b rest)
  show ?case
  proof (cases "b = 0x25 \<and> \<not> is_unreserved b")
    case True
    with "2.prems" obtain h l rest' where r: "rest = h # l # rest'"
      by (auto split: list.splits)
    from "2.prems" True r obtain x y out where xy: "hex_value h = Some x" "hex_value l = Some y"
      "percent_decode rest' = Ok out"
      by (auto simp: is_ok_def ok_or_def rbind_def split: sum.splits option.splits)
    then have "is_ok (canonical_uri_loop rest')" using "2.IH"(2) True r by (auto simp: hex_nibble_value)
    then show ?thesis using True r xy by (auto simp: hex_nibble_value elim!: is_okE)
  next
    case False
    then have b: "b \<noteq> 0x25" by (auto dest: percent_not_unreserved)
    with "2.prems" have "is_ok (percent_decode rest)" by (cases "percent_decode rest") auto
    then have "is_ok (canonical_uri_loop rest)" using "2.IH"(1,3) b by blast
    then show ?thesis using b by (auto elim!: is_okE)
  qed
qed simp

lemma canonical_uri_loop_alphabet:
  "canonical_uri_loop p = Ok u \<Longrightarrow> \<forall>c \<in> set u. is_unreserved c \<or> c = 0x2f \<or> c = 0x25"
proof (induction rule: canonical_uri_loop_induct)
  case (raw b rest out)
  then show ?case
    by (auto simp: push_percent_encoded_def is_unreserved_def [of "hex_upper_digit _"]
        hex_digit_values nibble_bounds)
qed (auto simp: hex_uppercase_alnum)

lemma canonical_uri_escape:
  "hex_value h = Some x \<Longrightarrow> hex_value l = Some y \<Longrightarrow> canonical_uri_loop (0x25 # h # l # s) =
     rbind (canonical_uri_loop s) (\<lambda>out. Ok (0x25 # to_ascii_uppercase h # to_ascii_uppercase l # out))"
  by (simp add: percent_reserved hex_nibble_value)

lemma canonical_uri_loop_idem: "canonical_uri_loop p = Ok u \<Longrightarrow> canonical_uri_loop u = Ok u"
proof (induction rule: canonical_uri_loop_induct)
  case (escape h l x y rest out)
  then show ?case
    by (subst canonical_uri_escape) (auto simp: hex_value_uppercase)
next
  case (raw b rest out)
  then show ?case
    unfolding push_percent_encoded_def append_Cons append_Nil
    by (subst canonical_uri_escape) (auto simp: hex_digit_values nibble_bounds)
qed auto

lemma canonical_uri_iff: "is_ok (canonical_uri p) \<longleftrightarrow> starts_with [0x2f] p \<and> is_ok (percent_decode p)"
  using canonical_uri_loop_total [of p] canonical_uri_loop_decode [of p]
  by (auto simp: canonical_uri_def elim!: is_okE)

section \<open>Canonical queries\<close>

type_synonym pair = "bytes \<times> bytes"

definition decoded_pairs :: "bool \<Rightarrow> QueryParams \<Rightarrow> pair list" where
  "decoded_pairs exclude q =
     filter (\<lambda>(n, v). \<not> (exclude \<and> n = ascii ''X-Amz-Signature''))
       (map (\<lambda>p. (qp_name p, qp_value p)) (qp_pairs q))"

definition encode_pair :: "pair \<Rightarrow> pair" where
  "encode_pair p = (aws_encode (fst p) True, aws_encode (snd p) True)"

definition canonical_text :: "pair list \<Rightarrow> bytes" where
  "canonical_text ps = join [0x26] (map query_pair_text (sort (map encode_pair ps)))"

lemma canonical_query_pairs_loop:
  "query_loop cs = Ok ps \<Longrightarrow>
   canonical_query_pairs ex cs = Ok (map encode_pair (decoded_pairs ex \<lparr>qp_pairs = ps\<rparr>))"
proof (induction cs arbitrary: ps)
  case (Cons c cs)
  then obtain p ps' where p: "parse_query_component c = Ok p" "query_loop cs = Ok ps'" "ps = p # ps'"
    by auto
  obtain rn rv where r: "(case split_once 0x3d c of Some p \<Rightarrow> p | None \<Rightarrow> (c, [])) = (rn, rv)"
    by fastforce
  from p(1) r obtain n v where nv: "percent_decode rn = Ok n" "percent_decode rv = Ok v"
    "qp_name p = n" "qp_value p = v"
    by (auto simp: parse_query_component_def)
  have d: "decoded_pairs ex \<lparr>qp_pairs = ps\<rparr> =
      (if ex \<and> n = ascii ''X-Amz-Signature'' then [] else [(n, v)]) @ decoded_pairs ex \<lparr>qp_pairs = ps'\<rparr>"
    using p(3) nv(3,4) by (simp add: decoded_pairs_def del: ascii_Cons)
  show ?case
    unfolding d using Cons.IH [OF p(2)]
    by (cases ex) (simp_all add: r nv encode_pair_def del: ascii_Cons)
qed (simp add: decoded_pairs_def)

text \<open>The canonical query is a function of the decoded parameters the request handler sees.\<close>

lemma canonical_query_meaning:
  assumes "QueryParams_parse (case q of None \<Rightarrow> [] | Some s \<Rightarrow> s) = Ok ps"
  shows "canonical_query q ex = Ok (canonical_text (decoded_pairs ex ps))"
proof (cases "q = None \<or> q = Some []")
  case True
  with assms have "ps = \<lparr>qp_pairs = []\<rparr>" by (auto simp: QueryParams_parse_def)
  then have "canonical_text (decoded_pairs ex ps) = []"
    by (simp add: canonical_text_def decoded_pairs_def)
  with True show ?thesis by (auto simp: canonical_query_def)
next
  case False
  then obtain s where s: "q = Some s" "s \<noteq> []" by auto
  with assms obtain fs where "query_loop (split_on (\<lambda>b. b = 0x26) s) = Ok fs" "ps = \<lparr>qp_pairs = fs\<rparr>"
    by (auto simp: QueryParams_parse_def)
  with s canonical_query_pairs_loop show ?thesis
    by (simp add: canonical_query_def canonical_text_def)
qed

lemma unreserved_clean: "is_unreserved c \<Longrightarrow> c \<notin> {0x26, 0x3d, 0x0a}"
  by (auto simp: is_unreserved_def ascii_class_defs)

lemma aws_encode_clean: "0x26 \<notin> set (aws_encode v True)" "0x3d \<notin> set (aws_encode v True)"
    "0x0a \<notin> set (aws_encode v es)"
  using aws_encode_alphabet unreserved_clean by fastforce+

lemma query_pair_text_inj:
  assumes "0x3d \<notin> set (fst p)" "0x3d \<notin> set (fst q)" "query_pair_text p = query_pair_text q"
  shows "p = q"
proof -
  have "split_once 0x3d (query_pair_text p) = Some (fst p, snd p)"
    "split_once 0x3d (query_pair_text q) = Some (fst q, snd q)"
    using assms(1,2) by (simp_all add: query_pair_text_def split_once_at)
  with assms(3) show ?thesis by (simp add: prod_eq_iff)
qed

lemma map_text_inj:
  assumes "map query_pair_text xs = map query_pair_text ys"
    and c: "\<forall>p \<in> set xs \<union> set ys. 0x3d \<notin> set (fst p)"
  shows "xs = ys"
proof (rule map_inj_on [OF assms(1)], rule inj_onI)
  fix p q assume "p \<in> set xs \<union> set ys" "q \<in> set xs \<union> set ys" "query_pair_text p = query_pair_text q"
  with c show "p = q" by (intro query_pair_text_inj) blast+
qed

lemma join_text_inj:
  assumes "join [0x26] (map query_pair_text xs) = join [0x26] (map query_pair_text ys)"
    and c: "\<forall>p \<in> set xs \<union> set ys. 0x26 \<notin> set (fst p) \<and> 0x26 \<notin> set (snd p)"
  shows "map query_pair_text xs = map query_pair_text ys"
proof -
  have ne: "join [0x26] (map query_pair_text zs) \<noteq> []" if "zs \<noteq> []" for zs
    using that by (cases zs; cases "tl zs") (auto simp: query_pair_text_def)
  have s: "split_on (\<lambda>b. b = 0x26) (join [0x26] (map query_pair_text zs)) = map query_pair_text zs"
    if "zs \<noteq> []" "set zs \<subseteq> set xs \<union> set ys" for zs
    using that c by (intro split_on_join) (auto simp: query_pair_text_def)
  show ?thesis
  proof (cases "xs = [] \<or> ys = []")
    case True
    with assms(1) ne [of xs] ne [of ys] have "xs = []" "ys = []" by fastforce+
    then show ?thesis by simp
  next
    case False
    then have "xs \<noteq> []" "ys \<noteq> []" by simp_all
    from s [OF this(1)] s [OF this(2)] show ?thesis unfolding assms(1) by simp
  qed
qed

lemma encode_pair_inj: "inj encode_pair"
proof (rule injI)
  fix x y assume "encode_pair x = encode_pair y"
  then show "x = y"
    by (auto simp: encode_pair_def prod_eq_iff dest: percent.encode_inj [OF TrueI TrueI])
qed

lemma canonical_text_eq_iff: "canonical_text xs = canonical_text ys \<longleftrightarrow> mset xs = mset ys"
proof
  let ?e = "\<lambda>zs. sort (map encode_pair zs)"
  assume e: "canonical_text xs = canonical_text ys"
  have "map query_pair_text (?e xs) = map query_pair_text (?e ys)"
    using e unfolding canonical_text_def
    by (rule join_text_inj) (auto simp: encode_pair_def aws_encode_clean)
  then have "?e xs = ?e ys"
    by (rule map_text_inj) (auto simp: encode_pair_def aws_encode_clean)
  then have "mset (?e xs) = mset (?e ys)" by (rule arg_cong)
  then have "image_mset encode_pair (mset xs) = image_mset encode_pair (mset ys)" by simp
  then show "mset xs = mset ys"
    using multiset.inj_map [OF encode_pair_inj] by (simp add: inj_eq)
next
  assume "mset xs = mset ys"
  then have "mset (sort (map encode_pair ys)) = mset (map encode_pair xs)" by simp
  from properties_for_sort [OF this sorted_sort]
  have "sort (map encode_pair xs) = sort (map encode_pair ys)" .
  then show "canonical_text xs = canonical_text ys" by (simp add: canonical_text_def)
qed

section \<open>Canonical requests\<close>

text \<open>The canonical request as a list of lines.\<close>

definition header_line :: "HeaderMap \<Rightarrow> bytes \<Rightarrow> bytes" where
  "header_line m n = n @ [0x3a] @ join [0x2c] (map normalize_header_value (HeaderMap_get_all m n))"

definition request_lines :: "bytes \<Rightarrow> bytes \<Rightarrow> bytes \<Rightarrow> bytes list \<Rightarrow> bytes list \<Rightarrow> bytes \<Rightarrow> bytes list" where
  "request_lines mthd uri query headers signed_names payload =
     [mthd, uri, query] @ headers @ [[], join [0x3b] signed_names, payload]"

lemma canonical_headers_lines:
  "canonical_headers m ns = Ok hs \<Longrightarrow>
     hs = concat (map (\<lambda>n. header_line m n @ [0x0a]) ns) \<and> (\<forall>n \<in> set ns. HeaderMap_get_all m n \<noteq> [])"
  by (induction ns arbitrary: hs) (auto simp: header_line_def Let_def split: if_splits)

lemma canonical_headers_total:
  "\<forall>n \<in> set ns. HeaderMap_get_all m n \<noteq> [] \<Longrightarrow> is_ok (canonical_headers m ns)"
  by (induction ns) (auto simp: Let_def elim!: is_okE)

lemma join_lines:
  "join [d] (ls @ x # xs) = concat (map (\<lambda>l. l @ [d]) ls) @ join [d] (x # xs)"
proof (induction ls)
  case (Cons l ls)
  then show ?case by (cases ls) auto
qed simp

lemma build_canonical_request_lines:
  assumes "build_canonical_request r ns payload ex = Ok c"
  shows "\<exists>uri query. canonical_uri (sr_raw_path r) = Ok uri \<and> canonical_query (sr_raw_query r) ex = Ok query
    \<and> (\<forall>n \<in> set ns. HeaderMap_get_all (sr_headers r) n \<noteq> [])
    \<and> c = join [0x0a] (request_lines (sr_method r) uri query (map (header_line (sr_headers r)) ns) ns payload)"
proof -
  from assms obtain uri query hs where u: "canonical_uri (sr_raw_path r) = Ok uri"
    "canonical_query (sr_raw_query r) ex = Ok query" "canonical_headers (sr_headers r) ns = Ok hs"
    "c = sr_method r @ [0x0a] @ uri @ [0x0a] @ query @ [0x0a] @ hs @ [0x0a]
         @ join [0x3b] ns @ [0x0a] @ payload"
    by (auto simp: build_canonical_request_def Let_def)
  note h = canonical_headers_lines [OF u(3)]
  have "c = join [0x0a] (request_lines (sr_method r) uri query (map (header_line (sr_headers r)) ns) ns payload)"
    unfolding u(4) request_lines_def
    using join_lines [of "0x0a" "[sr_method r, uri, query] @ map (header_line (sr_headers r)) ns"
        "[]" "[join [0x3b] ns, payload]"] h
    by (simp add: comp_def)
  with u h show ?thesis by blast
qed

definition no_lf :: "bytes \<Rightarrow> bool" where
  "no_lf l \<longleftrightarrow> 0x0a \<notin> set l"

lemma set_normalize_loop: "set (normalize_header_loop w v) \<subseteq> insert 0x20 (set v)"
  by (induction v arbitrary: w) auto

lemma set_normalize: "set (normalize_header_value v) \<subseteq> insert 0x20 (set v)"
  using set_normalize_loop [of True v] in_set_butlastD
  by (fastforce simp: normalize_header_value_def Let_def split: if_splits)

lemma set_join: "set (join sep xss) \<subseteq> set sep \<union> (\<Union> (set ` set xss))"
  by (induction sep xss rule: join.induct) auto

definition signed_names_wf :: "bytes list \<Rightarrow> bool" where
  "signed_names_wf ns \<longleftrightarrow> ns \<noteq> [] \<and> strictly_ascending ns
     \<and> list_all (\<lambda>n. n \<noteq> [] \<and> list_all is_lowercase_header_token n) ns"

lemma parse_signed_headers_wf: "parse_signed_headers v = Ok ns \<Longrightarrow> signed_names_wf ns"
  by (auto simp: parse_signed_headers_def signed_names_wf_def Let_def list_ex_iff list_all_iff
      split: if_splits)

lemma token_clean: "is_lowercase_header_token c \<Longrightarrow> c \<notin> {0x3b, 0x3a, 0x0a, 0x2c, 0x20}"
  by (auto simp: is_lowercase_header_token_def ascii_class_defs)

lemma signed_names_clean:
  "signed_names_wf ns \<Longrightarrow> n \<in> set ns \<Longrightarrow> 0x3b \<notin> set n \<and> 0x3a \<notin> set n \<and> 0x0a \<notin> set n"
  using token_clean unfolding signed_names_wf_def list_all_iff by blast

lemma split_signed_names:
  assumes "signed_names_wf ns"
  shows "split_on (\<lambda>b. b = 0x3b) (join [0x3b] ns) = ns"
proof (rule split_on_join)
  show "ns \<noteq> []" using assms by (simp add: signed_names_wf_def)
  show "\<forall>xs \<in> set ns. 0x3b \<notin> set xs" by (intro ballI) (simp add: signed_names_clean [OF assms])
qed

lemma signed_names_join_inj:
  assumes "signed_names_wf a" "signed_names_wf b" "join [0x3b] a = join [0x3b] b"
  shows "a = b"
  by (rule trans [OF split_signed_names [OF assms(1), symmetric, unfolded assms(3)]
      split_signed_names [OF assms(2)]])

lemma parse_signed_headers_join: "signed_names_wf ns \<Longrightarrow> parse_signed_headers (join [0x3b] ns) = Ok ns"
  using split_signed_names [of ns]
  by (auto simp: parse_signed_headers_def signed_names_wf_def list_ex_iff list_all_iff)

text \<open>Requests that come out of the head parser contribute no line feed to any line.\<close>

lemma get_all_clean:
  assumes "list_all (field_wf limits) (hm_fields m)" "v \<in> set (HeaderMap_get_all m n)"
  shows "0x0a \<notin> set v"
  using assms valid_field_byte_not
  by (auto simp: HeaderMap_get_all_def list_all_iff field_wf_def value_wf_def valid_field_value_def)

lemma header_line_no_lf:
  assumes "list_all (field_wf limits) (hm_fields m)" "0x0a \<notin> set n"
  shows "no_lf (header_line m n)"
proof -
  have "0x0a \<notin> set (normalize_header_value v)" if "v \<in> set (HeaderMap_get_all m n)" for v
    using get_all_clean [OF assms(1) that] set_normalize [of v] by auto
  then have "0x0a \<notin> set (join [0x2c] (map normalize_header_value (HeaderMap_get_all m n)))"
    using set_join [of "[0x2c]" "map normalize_header_value (HeaderMap_get_all m n)"] by auto
  with assms(2) show ?thesis by (simp add: no_lf_def header_line_def)
qed

lemma canonical_uri_no_lf: "canonical_uri p = Ok u \<Longrightarrow> no_lf u"
  using canonical_uri_loop_alphabet [of p u] unreserved_clean
  by (fastforce simp: canonical_uri_def no_lf_def split: if_splits)

lemma canonical_text_no_lf: "no_lf (canonical_text ps)"
  using set_join [of "[0x26]" "map query_pair_text (sort (map encode_pair ps))"] aws_encode_clean(3)
  by (fastforce simp: no_lf_def canonical_text_def query_pair_text_def encode_pair_def)

lemma request_lines_no_lf:
  assumes h: "head_wf limits h" and ns: "signed_names_wf ns" and "no_lf payload"
    and "canonical_uri (raw_path (rh_target h)) = Ok uri"
    and "canonical_query (raw_query (rh_target h)) ex = Ok query"
  shows "\<forall>l \<in> set (request_lines (rh_method h) uri query (map (header_line (rh_headers h)) ns) ns payload). no_lf l"
proof -
  from h have f: "list_all (field_wf limits) (hm_fields (rh_headers h))" by (simp add: head_wf_def)
  have m: "no_lf (rh_method h)"
    using h is_tchar_not by (fastforce simp: head_wf_def list_all_iff no_lf_def)
  have q: "no_lf query"
    using h assms(5) canonical_query_meaning canonical_text_no_lf
    by (fastforce simp: head_wf_def target_wf_def)
  have hl: "no_lf (header_line (rh_headers h) n)" if "n \<in> set ns" for n
    using header_line_no_lf [OF f] signed_names_clean [OF ns that] by blast
  have j: "no_lf (join [0x3b] ns)"
    using set_join [of "[0x3b]" ns] signed_names_clean [OF ns] by (fastforce simp: no_lf_def)
  have "no_lf []" by (simp add: no_lf_def)
  with m q hl j canonical_uri_no_lf [OF assms(4)] assms(3) show ?thesis
    by (auto simp: request_lines_def)
qed

lemma request_lines_inj:
  assumes "request_lines m u q hs ns p = request_lines m' u' q' hs' ns' p'"
  shows "m = m' \<and> u = u' \<and> q = q' \<and> hs = hs' \<and> join [0x3b] ns = join [0x3b] ns' \<and> p = p'"
  using assms by (auto simp: request_lines_def append_eq_append_conv)

lemma canonical_request_binds:
  assumes h: "head_wf limits h" "head_wf limits' h'"
    and ns: "signed_names_wf ns" "signed_names_wf ns'" and p: "no_lf p" "no_lf p'"
    and c: "build_canonical_request (SigV4Request_from h) ns p ex = Ok c"
      "build_canonical_request (SigV4Request_from h') ns' p' ex = Ok c"
  shows "rh_method h = rh_method h'"
    and "percent_decode (raw_path (rh_target h)) = percent_decode (raw_path (rh_target h'))"
    and "mset (decoded_pairs ex (rt_query (rh_target h))) = mset (decoded_pairs ex (rt_query (rh_target h')))"
    and "ns = ns'" and "p = p'"
    and "n \<in> set ns \<Longrightarrow> header_line (rh_headers h) n = header_line (rh_headers h') n"
proof -
  from build_canonical_request_lines [OF c(1)] obtain u q where u:
    "canonical_uri (raw_path (rh_target h)) = Ok u" "canonical_query (raw_query (rh_target h)) ex = Ok q"
    "c = join [0x0a] (request_lines (rh_method h) u q (map (header_line (rh_headers h)) ns) ns p)"
    by (auto simp: SigV4Request_from_def)
  from build_canonical_request_lines [OF c(2)] obtain u' q' where u':
    "canonical_uri (raw_path (rh_target h')) = Ok u'" "canonical_query (raw_query (rh_target h')) ex = Ok q'"
    "c = join [0x0a] (request_lines (rh_method h') u' q' (map (header_line (rh_headers h')) ns') ns' p')"
    by (auto simp: SigV4Request_from_def)
  let ?L = "request_lines (rh_method h) u q (map (header_line (rh_headers h)) ns) ns p"
  let ?L' = "request_lines (rh_method h') u' q' (map (header_line (rh_headers h')) ns') ns' p'"
  have "split_on (\<lambda>b. b = 0x0a) (join [0x0a] ?L) = ?L"
    using request_lines_no_lf [OF h(1) ns(1) p(1) u(1,2)]
    by (intro split_on_join) (auto simp: no_lf_def, simp add: request_lines_def)
  moreover have "split_on (\<lambda>b. b = 0x0a) (join [0x0a] ?L') = ?L'"
    using request_lines_no_lf [OF h(2) ns(2) p(2) u'(1,2)]
    by (intro split_on_join) (auto simp: no_lf_def, simp add: request_lines_def)
  ultimately have "?L = ?L'" using u(3) u'(3) by metis
  note e = request_lines_inj [OF this]
  from e show "rh_method h = rh_method h'" "p = p'" by auto
  from e signed_names_join_inj [OF ns] show n: "ns = ns'" by blast
  from e n show "n \<in> set ns \<Longrightarrow> header_line (rh_headers h) n = header_line (rh_headers h') n" by auto
  show "percent_decode (raw_path (rh_target h)) = percent_decode (raw_path (rh_target h'))"
    using canonical_uri_loop_decode u(1) u'(1) e by (metis canonical_uri_def sum.distinct(1))
  have "QueryParams_parse (case raw_query (rh_target g) of None \<Rightarrow> [] | Some s \<Rightarrow> s) = Ok (rt_query (rh_target g))"
    if "head_wf l g" for l g using that by (simp add: head_wf_def target_wf_def)
  from canonical_query_meaning [OF this [OF h(1)], of ex] canonical_query_meaning [OF this [OF h(2)], of ex]
    u(2) u'(2) e
  show "mset (decoded_pairs ex (rt_query (rh_target h))) = mset (decoded_pairs ex (rt_query (rh_target h')))"
    by (simp add: canonical_text_eq_iff)
qed

section \<open>Verification: what acceptance means\<close>

lemma find_err_Ok [simp]: "find_err bad err xs = Ok u \<longleftrightarrow> (\<forall>x \<in> set xs. \<not> bad x)"
  by (auto simp: find_err_def find_None_iff find_Some_iff split: option.splits)

lemma one_header_Some [simp]: "one_header m n = Ok (Some v) \<longleftrightarrow> HeaderMap_get_all m n = [v]"
  by (cases "HeaderMap_get_all m n") (auto simp: one_header_def)

lemma one_header_None [simp]: "one_header m n = Ok None \<longleftrightarrow> HeaderMap_get_all m n = []"
  by (cases "HeaderMap_get_all m n") (auto simp: one_header_def)

lemma query_optional_one_Some [simp]: "query_optional_one q n = Ok (Some v) \<longleftrightarrow> QueryParams_get_all q n = [v]"
  by (cases "QueryParams_get_all q n") (auto simp: query_optional_one_def)

lemma query_optional_one_None [simp]: "query_optional_one q n = Ok None \<longleftrightarrow> QueryParams_get_all q n = []"
  by (cases "QueryParams_get_all q n") (auto simp: query_optional_one_def)

text \<open>The conditions every accepted signature has to meet, whatever way it was transmitted.\<close>

definition scope_ok :: "CredentialScope \<Rightarrow> VerificationConfig \<Rightarrow> bool" where
  "scope_ok c config \<longleftrightarrow> cs_service c = expected_service config
     \<and> (\<forall>region. expected_region config = Some region \<longrightarrow> region = cs_region c)"

definition signed_headers_ok :: "HeaderMap \<Rightarrow> bytes list \<Rightarrow> bool" where
  "signed_headers_ok headers names \<longleftrightarrow> ascii ''host'' \<in> set names
     \<and> (\<forall>n \<in> set names. HeaderMap_get headers n \<noteq> None)
     \<and> (\<forall>f \<in> set (hm_fields headers). starts_with (ascii ''x-amz-'') (hdr_name f) \<longrightarrow>
          hdr_name f \<noteq> ascii ''x-amz-content-sha256'' \<longrightarrow> hdr_name f \<in> set names)"

definition unix_now :: "VerificationConfig \<Rightarrow> int" where
  "unix_now config = vc_now config div 1000000000"

definition clock_ok :: "VerificationConfig \<Rightarrow> bool" where
  "clock_ok config \<longleftrightarrow> 0 \<le> vc_now config \<and> unix_now config < 2 ^ 63"

lemma validate_scope_Ok [simp]: "validate_scope c config = Ok u \<longleftrightarrow> scope_ok c config"
  by (auto simp: validate_scope_def scope_ok_def split: option.splits if_splits)

lemma validate_signed_headers_Ok [simp]:
  "validate_signed_headers m ns = Ok u \<longleftrightarrow> signed_headers_ok m ns"
  by (auto simp: validate_signed_headers_def signed_headers_ok_def simp del: ascii_Cons split: if_splits)

lemma unix_seconds_Ok [simp]:
  "unix_seconds (vc_now config) = Ok t \<longleftrightarrow> clock_ok config \<and> t = unix_now config"
  by (auto simp: unix_seconds_def clock_ok_def unix_now_def Let_def split: if_splits)

lemma validate_header_time_Ok [simp]:
  "validate_header_time t config = Ok u \<longleftrightarrow>
     clock_ok config \<and> \<bar>unix_now config - t\<bar> \<le> int (as_secs (max_clock_skew config))"
  by (auto simp: validate_header_time_def split: if_splits)

lemma validate_presign_time_Ok:
  assumes "0 \<le> t" "t < 2 ^ 62" "expires \<le> 604800"
  shows "validate_presign_time t expires config = Ok u \<longleftrightarrow> clock_ok config
     \<and> t - int (as_secs (max_clock_skew config)) \<le> unix_now config
     \<and> unix_now config \<le> t + int expires"
proof -
  have n: "0 \<le> unix_now config" if "clock_ok config"
    using that by (auto simp: clock_ok_def unix_now_def)
  show ?thesis
    using assms n
    by (auto simp: validate_presign_time_def Let_def i64_saturating_def clock_ok_def min_def max_def
        split: if_splits)
qed

section \<open>Timestamps\<close>

lemma decimal_fold:
  "0 \<le> v \<Longrightarrow> 0 \<le> foldl (\<lambda>value b. value * 10 + int (unat (b - 0x30 :: u8))) v bs
     \<and> foldl (\<lambda>value b. value * 10 + int (unat (b - 0x30 :: u8))) v bs + 29 \<le> (v + 29) * 10 ^ length bs"
proof (induction bs arbitrary: v)
  case (Cons b bs)
  let ?w = "v * 10 + int (unat (b - 0x30))"
  have "int (unat (b - 0x30)) < 256" using unat_u8_less [of "b - 0x30"] by (simp only: of_nat_less_numeral_iff)
  moreover have "v * 10 + k + 29 \<le> (v + 29) * 10" if "k < 256" for k :: int using that by simp
  ultimately have w: "0 \<le> ?w" "?w + 29 \<le> (v + 29) * 10" using Cons.prems by (simp_all only: of_nat_0_le_iff add_nonneg_nonneg)
  have "(?w + 29) * 10 ^ length bs \<le> (v + 29) * 10 * 10 ^ length bs"
    by (rule mult_right_mono [OF w(2)]) simp
  from order_trans [OF conjunct2 [OF Cons.IH [OF w(1)]] this] conjunct1 [OF Cons.IH [OF w(1)]]
  show ?case unfolding foldl_Cons length_Cons power_Suc mult.assoc [symmetric] by (intro conjI)
qed simp

lemma decimal_bounds: "0 \<le> decimal bs" "decimal bs < 29 * 10 ^ length bs"
  using decimal_fold [of 0 bs] by (simp_all add: decimal_def)

text \<open>The number of seconds a timestamp stands for, in the reference calendar.\<close>

definition amz_seconds :: "bytes \<Rightarrow> int" where
  "amz_seconds bs =
     civil_day (decimal (slice 0 4 bs)) (decimal (slice 4 6 bs)) (decimal (slice 6 8 bs)) * 86400
     + decimal (slice 9 11 bs) * 3600 + decimal (slice 11 13 bs) * 60 + decimal (slice 13 15 bs)"

lemma days_before_year_bounds: "0 \<le> days_before_year k" "days_before_year k \<le> 366 * int k"
  by (induction k) simp_all

lemma days_in_month_bounds: "0 \<le> days_in_month y m" "days_in_month y m \<le> 31"
  by (simp_all add: days_in_month_def)

lemma days_before_month_bounds: "0 \<le> days_before_month y m \<and> days_before_month y m \<le> 31 * int m"
proof (induction m)
  case (Suc m)
  with days_in_month_bounds [of y "int m"] show ?case by simp
qed simp

lemma civil_day_bounds:
  assumes "1970 \<le> y" "1 \<le> m" "m \<le> 12" "1 \<le> d" "d \<le> days_in_month y m"
  shows "0 \<le> civil_day y m d" "civil_day y m d \<le> 366 * y"
proof -
  have "d \<le> 31" using assms(5) by (auto simp: days_in_month_def split: if_splits)
  with assms days_before_year_bounds [of "nat (y - 1970)"] days_before_month_bounds [of y "nat m"]
  show "0 \<le> civil_day y m d" "civil_day y m d \<le> 366 * y" by (auto simp: civil_day_def)
qed

lemma parse_amz_timestamp_reference:
  assumes "parse_amz_timestamp bs = Ok t"
  shows "t = amz_seconds bs" "0 \<le> t" "t < 2 ^ 62" "length bs = 16"
    "valid_date (decimal (slice 0 4 bs)) (decimal (slice 4 6 bs)) (decimal (slice 6 8 bs))"
proof -
  let ?y = "decimal (slice 0 4 bs)" and ?m = "decimal (slice 4 6 bs)" and ?d = "decimal (slice 6 8 bs)"
    and ?h = "decimal (slice 9 11 bs)" and ?i = "decimal (slice 11 13 bs)" and ?s = "decimal (slice 13 15 bs)"
  from assms have len: "length bs = 16" and y: "1970 \<le> ?y" and m: "1 \<le> ?m" "?m \<le> 12"
    and d: "?d \<noteq> 0" "?d \<le> days_in_month ?y ?m" and h: "?h \<le> 23" "?i \<le> 59" "?s \<le> 59"
    and t: "t = days_from_civil ?y ?m ?d * 86400 + (?h * 3600 + ?i * 60 + ?s)"
    by (auto simp: parse_amz_timestamp_def Let_def split: if_splits option.splits)
  show "length bs = 16" by (rule len)
  have d1: "1 \<le> ?d" using d(1) decimal_bounds(1) [of "slice 6 8 bs"] by linarith
  from m d1 d(2) show "valid_date ?y ?m ?d" by (simp add: valid_date_def)
  have c: "days_from_civil ?y ?m ?d = civil_day ?y ?m ?d" using y m by (rule days_from_civil_reference)
  show "t = amz_seconds bs" unfolding t c amz_seconds_def by simp
  have "length (slice 0 4 bs) = 4" using len by (simp add: slice_def)
  then have "?y < 290000" using decimal_bounds(2) [of "slice 0 4 bs"] by simp
  with civil_day_bounds [OF y m d1 d(2)] h decimal_bounds(1) [of "slice 9 11 bs"]
    decimal_bounds(1) [of "slice 11 13 bs"] decimal_bounds(1) [of "slice 13 15 bs"]
  show "0 \<le> t" "t < 2 ^ 62" unfolding t c by simp_all
qed

section \<open>Acceptance\<close>

definition signature_ok :: "Crypto \<Rightarrow> bytes \<Rightarrow> CredentialScope \<Rightarrow> bytes \<Rightarrow> bytes \<Rightarrow> bytes \<Rightarrow> bool" where
  "signature_ok cr secret c amz_date canonical_request signature \<longleftrightarrow>
     hmac_sha256 cr (derive_signing_key cr secret c)
       (string_to_sign amz_date (scope c) (sha256 cr canonical_request)) = signature"

lemma verify_hmac_Ok [simp]: "verify_hmac cr key s g = Ok u \<longleftrightarrow> hmac_sha256 cr key s = g"
  by (simp add: verify_hmac_def)

definition header_accepts ::
  "Crypto \<Rightarrow> SigV4Request \<Rightarrow> bytes \<Rightarrow> VerificationConfig \<Rightarrow>
   HeaderAuthorization \<Rightarrow> bytes \<Rightarrow> int \<Rightarrow> bytes \<Rightarrow> PayloadMode \<Rightarrow> bytes \<Rightarrow> bool" where
  "header_accepts cr r secret config a amz_date t payload mode canonical \<longleftrightarrow>
     parse_header_authorization (sr_headers r) = Ok a
     \<and> scope_ok (ha_credential a) config
     \<and> signed_headers_ok (sr_headers r) (ha_signed_headers a)
     \<and> HeaderMap_get_all (sr_headers r) (ascii ''x-amz-date'') = [amz_date] \<and> utf8_valid amz_date
     \<and> parse_amz_timestamp amz_date = Ok t \<and> cs_date (ha_credential a) = take 8 amz_date
     \<and> clock_ok config \<and> \<bar>unix_now config - t\<bar> \<le> int (as_secs (max_clock_skew config))
     \<and> HeaderMap_get_all (sr_headers r) (ascii ''x-amz-content-sha256'') = [payload]
     \<and> utf8_valid payload \<and> PayloadMode_parse payload = Ok mode
     \<and> build_canonical_request r (ha_signed_headers a) payload False = Ok canonical
     \<and> signature_ok cr secret (ha_credential a) amz_date canonical (ha_signature a)
     \<and> length (HeaderMap_get_all (sr_headers r) (ascii ''x-amz-security-token'')) \<le> 1
     \<and> (\<forall>v \<in> set (HeaderMap_get_all (sr_headers r) (ascii ''x-amz-security-token'')). utf8_valid v)"

lemma optional_text:
  "(\<exists>v token. one_header m n = Ok v \<and> opt_try (\<lambda>v. ok_or (from_utf8 v) InvalidUtf8) v = Ok token)
     \<longleftrightarrow> length (HeaderMap_get_all m n) \<le> 1 \<and> (\<forall>v \<in> set (HeaderMap_get_all m n). utf8_valid v)"
  by (cases "HeaderMap_get_all m n") (auto simp: one_header_def opt_try_eq_Inr)

lemma optional_text_query:
  "(\<exists>v token. query_optional_one q n = Ok v \<and> opt_try (\<lambda>v. ok_or (from_utf8 v) InvalidUtf8) v = Ok token)
     \<longleftrightarrow> length (QueryParams_get_all q n) \<le> 1 \<and> (\<forall>v \<in> set (QueryParams_get_all q n). utf8_valid v)"
  by (cases "QueryParams_get_all q n") (auto simp: query_optional_one_def opt_try_eq_Inr)

lemma header_accepts_complete:
  assumes "header_accepts cr r secret config a amz_date t payload mode canonical"
  shows "\<exists>v. verify_header cr r secret config = Ok v"
proof -
  from assms obtain v token where
    "one_header (sr_headers r) (ascii ''x-amz-security-token'') = Ok v"
    "opt_try (\<lambda>v. ok_or (from_utf8 v) InvalidUtf8) v = Ok token"
    using optional_text [of "sr_headers r" "ascii ''x-amz-security-token''"]
    unfolding header_accepts_def by blast
  moreover have "one_header (sr_headers r) (ascii ''x-amz-date'') = Ok (Some amz_date)"
    "one_header (sr_headers r) (ascii ''x-amz-content-sha256'') = Ok (Some payload)"
    "validate_scope (ha_credential a) config = Ok ()"
    "validate_signed_headers (sr_headers r) (ha_signed_headers a) = Ok ()"
    "validate_header_time t config = Ok ()" "from_utf8 amz_date = Some amz_date"
    "from_utf8 payload = Some payload"
    "verify_hmac cr (derive_signing_key cr secret (ha_credential a))
       (string_to_sign amz_date (scope (ha_credential a)) (sha256 cr canonical)) (ha_signature a) = Ok ()"
    using assms by (simp_all add: header_accepts_def signature_ok_def del: ascii_Cons)
  ultimately show ?thesis
    using assms unfolding header_accepts_def
    by (simp add: verify_header_def Let_def del: ascii_Cons one_header_Some)
qed

lemma header_accepts_sound:
  assumes "verify_header cr r secret config = Ok v"
  shows "\<exists>a amz_date t payload mode canonical.
     header_accepts cr r secret config a amz_date t payload mode canonical
     \<and> vs_credential v = ha_credential a \<and> vs_signed_headers v = ha_signed_headers a
     \<and> vs_payload_mode v = mode \<and> canonical_request_hash v = sha256 cr canonical
     \<and> streaming_context v = (if mode = StreamingSigned
         then Some \<lparr>ctx_signing_key = derive_signing_key cr secret (ha_credential a),
             ctx_amz_date = amz_date, ctx_credential_scope = scope (ha_credential a),
             seed_signature = ha_signature a\<rparr>
         else None)"
proof -
  from assms show ?thesis
    unfolding verify_header_def header_accepts_def
    using optional_text [of "sr_headers r" "ascii ''x-amz-security-token''"]
    by (auto simp: Let_def signature_ok_def simp del: ascii_Cons split: if_splits)
qed

text \<open>The same for presigned URLs.\<close>

definition presigned_accepts ::
  "Crypto \<Rightarrow> SigV4Request \<Rightarrow> bytes \<Rightarrow> VerificationConfig \<Rightarrow> PresignedAuthorization \<Rightarrow> int \<Rightarrow> bytes \<Rightarrow> bool" where
  "presigned_accepts cr r secret config a t canonical \<longleftrightarrow>
     parse_presigned_authorization (sr_query r) = Ok a
     \<and> scope_ok (pa_credential a) config
     \<and> signed_headers_ok (sr_headers r) (pa_signed_headers a)
     \<and> parse_amz_timestamp (pa_amz_date a) = Ok t \<and> cs_date (pa_credential a) = take 8 (pa_amz_date a)
     \<and> clock_ok config \<and> t - int (as_secs (max_clock_skew config)) \<le> unix_now config
     \<and> unix_now config \<le> t + int (expires_seconds a)
     \<and> build_canonical_request r (pa_signed_headers a) (ascii ''UNSIGNED-PAYLOAD'') True = Ok canonical
     \<and> signature_ok cr secret (pa_credential a) (pa_amz_date a) canonical (pa_signature a)
     \<and> length (QueryParams_get_all (sr_query r) (ascii ''X-Amz-Security-Token'')) \<le> 1
     \<and> (\<forall>v \<in> set (QueryParams_get_all (sr_query r) (ascii ''X-Amz-Security-Token'')). utf8_valid v)"

lemma presigned_expires:
  "parse_presigned_authorization q = Ok a \<Longrightarrow> 1 \<le> expires_seconds a \<and> expires_seconds a \<le> 604800"
  by (auto simp: parse_presigned_authorization_def MAX_PRESIGN_EXPIRY_SECONDS_def simp del: ascii_Cons
      split: if_splits)

lemma presigned_accepts_complete:
  assumes "presigned_accepts cr r secret config a t canonical"
  shows "\<exists>v. verify_presigned cr r secret config = Ok v"
proof -
  from assms obtain v token where
    "query_optional_one (sr_query r) (ascii ''X-Amz-Security-Token'') = Ok v"
    "opt_try (\<lambda>v. ok_or (from_utf8 v) InvalidUtf8) v = Ok token"
    using optional_text_query [of "sr_query r" "ascii ''X-Amz-Security-Token''"]
    unfolding presigned_accepts_def by blast
  moreover have "expires_seconds a \<le> 604800" "0 \<le> t" "t < 2 ^ 62"
    using assms presigned_expires [of "sr_query r" a] parse_amz_timestamp_reference(2,3) [of "pa_amz_date a" t]
    by (auto simp: presigned_accepts_def)
  with assms have "validate_presign_time t (expires_seconds a) config = Ok ()"
    by (simp add: validate_presign_time_Ok presigned_accepts_def)
  moreover have "validate_scope (pa_credential a) config = Ok ()"
    "validate_signed_headers (sr_headers r) (pa_signed_headers a) = Ok ()"
    "verify_hmac cr (derive_signing_key cr secret (pa_credential a))
       (string_to_sign (pa_amz_date a) (scope (pa_credential a)) (sha256 cr canonical)) (pa_signature a) = Ok ()"
    using assms by (simp_all add: presigned_accepts_def signature_ok_def del: ascii_Cons)
  ultimately show ?thesis
    using assms unfolding presigned_accepts_def
    by (simp add: verify_presigned_def Let_def del: ascii_Cons)
qed

lemma presigned_accepts_sound:
  assumes "verify_presigned cr r secret config = Ok v"
  shows "\<exists>a t canonical. presigned_accepts cr r secret config a t canonical
     \<and> vs_credential v = pa_credential a \<and> vs_signed_headers v = pa_signed_headers a
     \<and> vs_payload_mode v = UnsignedPayload \<and> canonical_request_hash v = sha256 cr canonical
     \<and> streaming_context v = None"
proof -
  from assms obtain a t where a: "parse_presigned_authorization (sr_query r) = Ok a"
    "parse_amz_timestamp (pa_amz_date a) = Ok t"
    "validate_presign_time t (expires_seconds a) config = Ok ()"
    by (auto simp: verify_presigned_def simp del: ascii_Cons split: if_splits)
  have "expires_seconds a \<le> 604800" using presigned_expires [OF a(1)] by simp
  note tm = validate_presign_time_Ok [OF parse_amz_timestamp_reference(2,3) [OF a(2)] this, of config "()"] a(3)
  from assms a tm show ?thesis
    unfolding verify_presigned_def presigned_accepts_def
    using optional_text_query [of "sr_query r" "ascii ''X-Amz-Security-Token''"]
    by (auto simp: Let_def signature_ok_def simp del: ascii_Cons split: if_splits)
qed

section \<open>The Authorization header\<close>

definition credential_byte :: "u8 \<Rightarrow> bool" where
  "credential_byte b \<longleftrightarrow> is_ascii_graphic b \<and> b \<noteq> 0x2f \<and> b \<noteq> 0x2c"

definition credential_wf :: "CredentialScope \<Rightarrow> bool" where
  "credential_wf c \<longleftrightarrow>
     access_key c \<noteq> [] \<and> list_all credential_byte (access_key c)
     \<and> length (cs_date c) = 8 \<and> list_all is_ascii_digit (cs_date c)
     \<and> cs_region c \<noteq> [] \<and> list_all credential_byte (cs_region c)
     \<and> cs_service c \<noteq> [] \<and> list_all credential_byte (cs_service c)"

definition credential_text :: "CredentialScope \<Rightarrow> bytes" where
  "credential_text c = access_key c @ ascii ''/'' @ scope c"

definition authorization_text :: "HeaderAuthorization \<Rightarrow> bytes" where
  "authorization_text a = ALGORITHM @ [0x20] @ join [0x2c]
     [ascii ''Credential='' @ credential_text (ha_credential a),
      0x20 # ascii ''SignedHeaders='' @ join [0x3b] (ha_signed_headers a),
      0x20 # ascii ''Signature='' @ hex_lower (ha_signature a)]"

lemma digit_credential_byte: "is_ascii_digit b \<Longrightarrow> credential_byte b"
  by (auto simp: credential_byte_def ascii_class_defs byte_arith)

lemma credential_fields:
  assumes "credential_wf c"
  shows "credential_text c = join [0x2f] [access_key c, cs_date c, cs_region c, cs_service c, TERMINATOR]"
    "\<forall>f \<in> set [access_key c, cs_date c, cs_region c, cs_service c, TERMINATOR]. f \<noteq> [] \<and> list_all credential_byte f"
proof -
  show "credential_text c = join [0x2f] [access_key c, cs_date c, cs_region c, cs_service c, TERMINATOR]"
    by (simp add: credential_text_def scope_def)
  have "list_all credential_byte TERMINATOR" "TERMINATOR \<noteq> []"
    by (simp_all add: TERMINATOR_def credential_byte_def is_ascii_graphic_def)
  moreover have "cs_date c \<noteq> []" using assms by (auto simp: credential_wf_def)
  ultimately show "\<forall>f \<in> set [access_key c, cs_date c, cs_region c, cs_service c, TERMINATOR]. f \<noteq> [] \<and> list_all credential_byte f"
    using assms digit_credential_byte by (auto simp: credential_wf_def list_all_iff)
qed

lemma parse_credential_text:
  assumes "credential_wf c"
  shows "parse_credential (credential_text c) = Ok c"
proof -
  let ?fs = "[access_key c, cs_date c, cs_region c, cs_service c, TERMINATOR]"
  note f = credential_fields [OF assms]
  have "split_on (\<lambda>b. b = 0x2f) (credential_text c) = ?fs"
    unfolding f(1)
  proof (rule split_on_join)
    show "\<forall>xs \<in> set ?fs. 0x2f \<notin> set xs"
      using f(2) unfolding list_all_iff credential_byte_def by blast
  qed simp
  moreover have "\<not> list_ex (\<lambda>field. field = []) ?fs" using f(2) unfolding list_ex_iff by blast
  ultimately show ?thesis
    using assms by (cases c) (auto simp: parse_credential_def credential_wf_def)
qed

lemma token_graphic: "is_lowercase_header_token b \<Longrightarrow> is_ascii_graphic b \<and> b \<noteq> 0x2c"
  by (auto simp: is_lowercase_header_token_def ascii_class_defs byte_arith)

lemma hex_lower_graphic: "b \<in> set (hex_lower v) \<Longrightarrow> is_ascii_graphic b \<and> b \<noteq> 0x2c"
proof (induction v)
  case (Cons x v)
  have "is_ascii_graphic (hex_lower_digit n) \<and> hex_lower_digit n \<noteq> 0x2c" if "unat n < 16" for n
    using that by (auto simp: hex_digits ascii_class_defs byte_arith)
  with Cons nibble_bounds [of x] show ?case by auto
qed simp

definition attribute_ok :: "bytes \<Rightarrow> bool" where
  "attribute_ok v \<longleftrightarrow> v \<noteq> [] \<and> (\<forall>b \<in> set v. is_ascii_graphic b \<and> b \<noteq> 0x2c)"

lemma set_joinD: "b \<in> set (join sep xss) \<Longrightarrow> b \<in> set sep \<or> (\<exists>xs \<in> set xss. b \<in> set xs)"
  using set_join [of sep xss] by auto

lemma attributes_ok:
  "credential_wf c \<Longrightarrow> attribute_ok (credential_text c)"
  "signed_names_wf ns \<Longrightarrow> attribute_ok (join [0x3b] ns)"
  "v \<noteq> [] \<Longrightarrow> attribute_ok (hex_lower v)"
proof -
  assume c: "credential_wf c"
  have "credential_text c \<noteq> []" using c by (simp add: credential_text_def)
  moreover have "is_ascii_graphic b \<and> b \<noteq> 0x2c" if "b \<in> set (credential_text c)" for b
    using set_joinD [OF that [unfolded credential_fields(1) [OF c]]]
  proof
    assume "\<exists>xs \<in> set [access_key c, cs_date c, cs_region c, cs_service c, TERMINATOR]. b \<in> set xs"
    with credential_fields(2) [OF c] have "credential_byte b" unfolding list_all_iff by blast
    then show ?thesis by (simp add: credential_byte_def)
  qed (simp add: is_ascii_graphic_def)
  ultimately show "attribute_ok (credential_text c)" by (simp add: attribute_ok_def)
next
  assume n: "signed_names_wf ns"
  then obtain x xs where x: "ns = x # xs" "x \<noteq> []" by (cases ns) (auto simp: signed_names_wf_def)
  then have "join [0x3b] ns \<noteq> []" by (cases xs) auto
  moreover have "is_ascii_graphic b \<and> b \<noteq> 0x2c" if "b \<in> set (join [0x3b] ns)" for b
    using set_joinD [OF that] n token_graphic
    by (auto simp: signed_names_wf_def list_all_iff is_ascii_graphic_def)
  ultimately show "attribute_ok (join [0x3b] ns)" by (simp add: attribute_ok_def)
next
  assume "v \<noteq> []"
  then have "hex_lower v \<noteq> []" by (cases v) simp_all
  then show "attribute_ok (hex_lower v)" unfolding attribute_ok_def using hex_lower_graphic by blast
qed

lemma auth_attribute_named:
  assumes "attribute_ok value" "list_all is_ascii_graphic n" "0x3d \<notin> set n"
    and "attribute = n @ 0x3d # value \<or> attribute = 0x20 # n @ 0x3d # value"
  shows "split_once 0x3d (str_trim attribute) = Some (n, value)"
proof -
  have "list_all is_ascii_graphic (n @ 0x3d # value)"
    using assms(1,2) by (auto simp: attribute_ok_def list_all_iff is_ascii_graphic_def)
  with str_trim_graphic [OF this] assms(3,4) show ?thesis by (auto simp: split_once_at)
qed

lemma auth_names:
  "list_all is_ascii_graphic (ascii ''Credential'')" "0x3d \<notin> set (ascii ''Credential'')"
  "list_all is_ascii_graphic (ascii ''SignedHeaders'')" "0x3d \<notin> set (ascii ''SignedHeaders'')"
  "list_all is_ascii_graphic (ascii ''Signature'')" "0x3d \<notin> set (ascii ''Signature'')"
  "ascii ''SignedHeaders'' \<noteq> ascii ''Credential''" "ascii ''Signature'' \<noteq> ascii ''Credential''"
  "ascii ''Signature'' \<noteq> ascii ''SignedHeaders''" "0x20 \<notin> set ALGORITHM"
  by (simp_all add: is_ascii_graphic_def ALGORITHM_def)

definition authorization_wf :: "HeaderAuthorization \<Rightarrow> bool" where
  "authorization_wf a \<longleftrightarrow> credential_wf (ha_credential a) \<and> signed_names_wf (ha_signed_headers a)
     \<and> length (ha_signature a) = 32"

lemma ascii_append: "ascii (s @ t) = ascii s @ ascii t"
  by (simp add: ascii_def)

lemma eq_suffix: "ascii (s @ ''='') = ascii s @ [0x3d]"
  by (simp add: ascii_append)

lemma auth_attributes_text:
  assumes "authorization_wf a"
  defines "A \<equiv> ascii ''Credential='' @ credential_text (ha_credential a)"
    and "B \<equiv> 0x20 # ascii ''SignedHeaders='' @ join [0x3b] (ha_signed_headers a)"
    and "C \<equiv> 0x20 # ascii ''Signature='' @ hex_lower (ha_signature a)"
  shows "auth_attributes [A, B, C] (None, None, None)
     = Ok (Some (ha_credential a), Some (ha_signed_headers a), Some (ha_signature a))"
proof -
  from assms(1) have w: "credential_wf (ha_credential a)" "signed_names_wf (ha_signed_headers a)"
    "length (ha_signature a) = 32" "ha_signature a \<noteq> []" by (auto simp: authorization_wf_def)
  note ok = attributes_ok(1) [OF w(1)] attributes_ok(2) [OF w(2)] attributes_ok(3) [OF w(4)]
  have "split_once 0x3d (str_trim A) = Some (ascii ''Credential'', credential_text (ha_credential a))"
    using eq_suffix [of "''Credential''"]
    by (intro auth_attribute_named ok auth_names) (simp add: A_def del: ascii_Cons)
  moreover have "split_once 0x3d (str_trim B) = Some (ascii ''SignedHeaders'', join [0x3b] (ha_signed_headers a))"
    using eq_suffix [of "''SignedHeaders''"]
    by (intro auth_attribute_named ok auth_names) (simp add: B_def del: ascii_Cons)
  moreover have "split_once 0x3d (str_trim C) = Some (ascii ''Signature'', hex_lower (ha_signature a))"
    using eq_suffix [of "''Signature''"]
    by (intro auth_attribute_named ok auth_names) (simp add: C_def del: ascii_Cons)
  moreover have "decode_hex_32 (hex_lower (ha_signature a)) = Ok (ha_signature a)"
    using w(3) by (simp add: decode_hex_32_def)
  ultimately show ?thesis
    using ok parse_credential_text [OF w(1)] parse_signed_headers_join [OF w(2)] auth_names
    by (simp add: auth_attribute_def attribute_ok_def del: ascii_Cons)
qed

lemma parse_authorization_text:
  assumes "authorization_wf a" and "HeaderMap_get_all m (ascii ''authorization'') = [authorization_text a]"
  shows "parse_header_authorization m = Ok a"
proof -
  let ?A = "ascii ''Credential='' @ credential_text (ha_credential a)"
  let ?B = "0x20 # ascii ''SignedHeaders='' @ join [0x3b] (ha_signed_headers a)"
  let ?C = "0x20 # ascii ''Signature='' @ hex_lower (ha_signature a)"
  from assms(1) have w: "attribute_ok (credential_text (ha_credential a))"
    "attribute_ok (join [0x3b] (ha_signed_headers a))" "attribute_ok (hex_lower (ha_signature a))"
    by (auto simp: authorization_wf_def intro!: attributes_ok)
  have nc: "0x2c \<notin> set (ascii ''Credential='')" "0x2c \<notin> set (ascii ''SignedHeaders='')"
    "0x2c \<notin> set (ascii ''Signature='')" by simp_all
  have sp: "split_on (\<lambda>b. b = 0x2c) (join [0x2c] [?A, ?B, ?C]) = [?A, ?B, ?C]"
  proof (rule split_on_join)
    show "\<forall>xs \<in> set [?A, ?B, ?C]. 0x2c \<notin> set xs"
      using w nc unfolding attribute_ok_def by (simp del: ascii_Cons) blast
  qed simp
  have asc: "\<forall>b \<in> set (ascii ''Credential='') \<union> set (ascii ''SignedHeaders='') \<union> set (ascii ''Signature='') \<union> set ALGORITHM. b < 0x80"
    by (simp add: ALGORITHM_def)
  have "\<forall>b \<in> set (authorization_text a). b < 0x80"
  proof
    fix b assume "b \<in> set (authorization_text a)"
    then have "b \<in> set (ascii ''Credential='') \<union> set (ascii ''SignedHeaders='') \<union> set (ascii ''Signature='') \<union> set ALGORITHM
       \<or> b \<in> {0x20, 0x2c} \<or> b \<in> set (credential_text (ha_credential a))
       \<or> b \<in> set (join [0x3b] (ha_signed_headers a)) \<or> b \<in> set (hex_lower (ha_signature a))"
      unfolding authorization_text_def by (auto simp del: ascii_Cons)
    with w asc graphic_ascii show "b < 0x80" unfolding attribute_ok_def by auto
  qed
  then have "from_utf8 (authorization_text a) = Some (authorization_text a)"
    by (simp add: utf8_valid_ascii)
  moreover have "split_once 0x20 (authorization_text a) = Some (ALGORITHM, join [0x2c] [?A, ?B, ?C])"
    unfolding authorization_text_def append_Cons append_Nil by (rule split_once_at) (rule auth_names)
  moreover have "one_header m (ascii ''authorization'') = Ok (Some (authorization_text a))"
    using assms(2) by (simp del: ascii_Cons)
  ultimately show ?thesis
    using auth_attributes_text [OF assms(1)]
    by (simp add: parse_header_authorization_def sp del: ascii_Cons one_header_Some join.simps auth_attributes.simps)
qed

section \<open>Properties\<close>

text \<open>C3. Header signatures: a request is accepted exactly when its \<^verbatim>\<open>Authorization\<close> value parses, the scope
  is the configured one, \<^verbatim>\<open>host\<close> and every \<^verbatim>\<open>x-amz-\<close> field except \<^verbatim>\<open>x-amz-content-sha256\<close> are signed
  and present, there is one \<^verbatim>\<open>x-amz-date\<close> with the credential's date and within the allowed skew of
  the server's clock, the payload mode is known, and the signature is the HMAC of the canonical
  request under the key derived from the secret.\<close>

theorem header_signature_decision:
  "(\<exists>v. verify_header cr r secret config = Ok v) =
   (\<exists>a amz_date t payload mode canonical.
      header_accepts cr r secret config a amz_date t payload mode canonical)"
  using header_accepts_sound header_accepts_complete by meson

text \<open>C4. Presigned URLs: accepted exactly when the query parameters parse (with an expiry of one
  second to seven days), scope and signed fields are as for headers, the clock lies between the
  signing time minus the skew and the signing time plus the expiry, and the signature is the HMAC
  of the canonical request without its own signature parameter.  The signing time is the number
  of seconds of the timestamp in the reference calendar.\<close>

theorem presigned_signature_decision:
  "(\<exists>v. verify_presigned cr r secret config = Ok v) =
   (\<exists>a t canonical. presigned_accepts cr r secret config a t canonical
      \<and> t = amz_seconds (pa_amz_date a) \<and> 1 \<le> expires_seconds a \<and> expires_seconds a \<le> 604800)"
proof -
  have "t = amz_seconds (pa_amz_date a) \<and> 1 \<le> expires_seconds a \<and> expires_seconds a \<le> 604800"
    if "presigned_accepts cr r secret config a t canonical" for a t canonical
    using that parse_amz_timestamp_reference(1) [of "pa_amz_date a" t] presigned_expires [of "sr_query r" a]
    unfolding presigned_accepts_def by blast
  then show ?thesis
    using presigned_accepts_sound [of cr r secret config] presigned_accepts_complete [of cr r secret config]
    by blast
qed

text \<open>C23. The canonical query means the decoded parameters: two queries that the request parser
  accepts have the same canonical form if and only if they carry the same multiset of decoded
  name-value pairs (for presigned URLs, apart from the signature itself).\<close>

theorem canonical_query_injective:
  assumes "QueryParams_parse q = Ok ps" and "QueryParams_parse q' = Ok ps'"
  shows "canonical_query (Some q) ex = canonical_query (Some q') ex \<longleftrightarrow>
     mset (decoded_pairs ex ps) = mset (decoded_pairs ex ps')"
  using canonical_query_meaning [of "Some q" ps ex] canonical_query_meaning [of "Some q'" ps' ex] assms
  by (simp add: canonical_text_eq_iff)

theorem canonical_query_injective_witness:
  "canonical_query (Some (ascii ''b=%41&a=1'')) False = canonical_query (Some (ascii ''a=1&b=A'')) False"
proof -
  have p: "QueryParams_parse (ascii ''b=%41&a=1'') = Ok \<lparr>qp_pairs =
      [\<lparr>raw_name = ascii ''b'', raw_value = ascii ''%41'', qp_name = ascii ''b'', qp_value = ascii ''A''\<rparr>,
       \<lparr>raw_name = ascii ''a'', raw_value = ascii ''1'', qp_name = ascii ''a'', qp_value = ascii ''1''\<rparr>]\<rparr>"
    "QueryParams_parse (ascii ''a=1&b=A'') = Ok \<lparr>qp_pairs =
      [\<lparr>raw_name = ascii ''a'', raw_value = ascii ''1'', qp_name = ascii ''a'', qp_value = ascii ''1''\<rparr>,
       \<lparr>raw_name = ascii ''b'', raw_value = ascii ''A'', qp_name = ascii ''b'', qp_value = ascii ''A''\<rparr>]\<rparr>"
    by (simp_all add: http_eval)
  from canonical_query_injective [OF p, of False] show ?thesis
    by (simp add: decoded_pairs_def add_mset_commute del: ascii_Cons ascii_Nil)
qed

text \<open>C33. The signed path is the served path: canonicalisation succeeds exactly on the paths whose
  escapes are well formed, does not change what the path decodes to, leaves only unreserved
  characters, slashes and escapes, and is idempotent.\<close>

theorem canonical_uri_correct:
  "is_ok (canonical_uri p) = (starts_with [0x2f] p \<and> is_ok (percent_decode p)) \<and>
   (\<forall>u. canonical_uri p = Ok u \<longrightarrow> percent_decode u = percent_decode p
      \<and> (\<forall>c \<in> set u. is_unreserved c \<or> c = 0x2f \<or> c = 0x25) \<and> canonical_uri u = Ok u)"
proof (intro conjI allI impI)
  show "is_ok (canonical_uri p) = (starts_with [0x2f] p \<and> is_ok (percent_decode p))"
    by (rule canonical_uri_iff)
next
  fix u assume "canonical_uri p = Ok u"
  then have l: "canonical_uri_loop p = Ok u" and s: "starts_with [0x2f] p"
    by (auto simp: canonical_uri_def split: if_splits)
  from canonical_uri_loop_decode [OF l] show "percent_decode u = percent_decode p" by simp
  from canonical_uri_loop_alphabet [OF l] show "\<forall>c \<in> set u. is_unreserved c \<or> c = 0x2f \<or> c = 0x25" .
  from s obtain r where "p = 0x2f # r" by (cases p) auto
  with l have "starts_with [0x2f] u" by auto
  with canonical_uri_loop_idem [OF l] show "canonical_uri u = Ok u" by (simp add: canonical_uri_def)
qed

theorem canonical_uri_correct_witness:
  "canonical_uri (ascii ''/a%2fb c'') = Ok (ascii ''/a%2Fb%20c'')
   \<and> percent_decode (ascii ''/a%2Fb%20c'') = percent_decode (ascii ''/a%2fb c'')"
proof -
  have c: "canonical_uri (ascii ''/a%2fb c'') = Ok (ascii ''/a%2Fb%20c'')" by code_simp
  from canonical_uri_correct [of "ascii ''/a%2fb c''"] c show ?thesis by (simp del: ascii_Cons)
qed

text \<open>C34. The \<^verbatim>\<open>Authorization\<close> header that a client writes for a credential, a sorted list of signed
  header names and a signature is parsed back to them.\<close>

theorem authorization_roundtrip:
  assumes "authorization_wf a" and "HeaderMap_get_all m (ascii ''authorization'') = [authorization_text a]"
  shows "parse_header_authorization m = Ok a"
  using assms by (rule parse_authorization_text)

definition sample_credential :: CredentialScope where
  "sample_credential = \<lparr>access_key = ascii ''AK'', cs_date = ascii ''20240229'',
     cs_region = ascii ''r'', cs_service = ascii ''s3''\<rparr>"

definition sample_authorization :: HeaderAuthorization where
  "sample_authorization = \<lparr>ha_credential = sample_credential,
     ha_signed_headers = [ascii ''host'', ascii ''x-amz-date''], ha_signature = replicate 32 0\<rparr>"

lemma sample_authorization_wf: "authorization_wf sample_authorization"
  by (simp add: authorization_wf_def sample_authorization_def sample_credential_def credential_wf_def
      credential_byte_def signed_names_wf_def is_lowercase_header_token_def ascii_class_defs)

theorem authorization_roundtrip_witness:
  "parse_header_authorization \<lparr>hm_fields = [\<lparr>hdr_name = ascii ''authorization'',
     hdr_value = authorization_text sample_authorization\<rparr>]\<rparr> = Ok sample_authorization"
  by (rule authorization_roundtrip [OF sample_authorization_wf])
    (simp add: HeaderMap_get_all_def del: ascii_Cons)

section \<open>A signature binds its request\<close>

text \<open>A collision of a hash function: two inputs that differ and have the same digest.\<close>

definition collides :: "('a \<Rightarrow> 'b) \<Rightarrow> 'a \<Rightarrow> 'a \<Rightarrow> bool" where
  "collides f x y \<longleftrightarrow> x \<noteq> y \<and> f x = f y"

lemma string_to_sign_inj:
  assumes "string_to_sign d s h = string_to_sign d' s h'" "no_lf d" "no_lf d'"
  shows "d = d' \<and> h = h'"
proof -
  from assms(1) have "d @ 0x0a # s @ [0x0a] @ hex_lower h = d' @ 0x0a # s @ [0x0a] @ hex_lower h'"
    by (simp add: string_to_sign_def)
  then have "split_once 0x0a (d @ 0x0a # s @ [0x0a] @ hex_lower h) = split_once 0x0a (d' @ 0x0a # s @ [0x0a] @ hex_lower h')"
    by (rule arg_cong)
  moreover have "split_once 0x0a (x @ 0x0a # y) = Some (x, y)" if "no_lf x" for x y :: bytes
    using that by (simp add: split_once_Some no_lf_def)
  ultimately have "d = d'" "hex_lower h = hex_lower h'" using assms(2,3) by simp_all
  then show ?thesis using hex.encode_inj [OF TrueI TrueI] by blast
qed

lemma header_value_no_lf:
  assumes "head_wf limits h" "HeaderMap_get_all (rh_headers h) n = [v]"
  shows "no_lf v"
  using get_all_clean [of limits "rh_headers h" v n] assms by (simp add: head_wf_def no_lf_def)

lemma authorization_names_wf:
  assumes "parse_header_authorization m = Ok a"
  shows "signed_names_wf (ha_signed_headers a)"
proof -
  have inv: "auth_attributes as acc = Ok acc' \<Longrightarrow> (\<forall>ns. fst (snd acc) = Some ns \<longrightarrow> signed_names_wf ns) \<Longrightarrow>
      (\<forall>ns. fst (snd acc') = Some ns \<longrightarrow> signed_names_wf ns)" for as acc acc'
  proof (induction as arbitrary: acc)
    case (Cons x as)
    from Cons.prems(1) obtain acc1 where a: "auth_attribute x acc = Ok acc1" "auth_attributes as acc1 = Ok acc'"
      by auto
    have "\<forall>ns. fst (snd acc1) = Some ns \<longrightarrow> signed_names_wf ns"
      using a(1) Cons.prems(2) parse_signed_headers_wf
      by (auto simp: auth_attribute_def simp del: ascii_Cons split: prod.splits if_splits)
    from Cons.IH [OF a(2) this] show ?case .
  qed simp
  from assms obtain as c g where "auth_attributes as (None, None, None)
      = Ok (Some c, Some (ha_signed_headers a), Some g)"
    by (auto simp: parse_header_authorization_def simp del: ascii_Cons split: if_splits)
  from inv [OF this] show ?thesis by simp
qed

text \<open>The blank-separated words of a field value: what its canonical form keeps.\<close>

definition header_words :: "bytes \<Rightarrow> bytes list" where
  "header_words v = filter (\<lambda>w. w \<noteq> []) (split_on is_ows v)"

lemma words_Nil [simp]: "header_words [] = []"
  by (simp add: header_words_def)

lemma words_blank: "is_ows b \<Longrightarrow> header_words (b # bs) = header_words bs"
  by (simp add: header_words_def)

lemma split_on_takeWhile:
  "split_on p xs = takeWhile (Not \<circ> p) xs # (case dropWhile (Not \<circ> p) xs of [] \<Rightarrow> [] | y # ys \<Rightarrow> split_on p ys)"
  by (induction xs) (auto split: list.splits)

lemma words_word:
  assumes "\<not> is_ows b"
  shows "header_words (b # bs) = (b # takeWhile (Not \<circ> is_ows) bs) # header_words (dropWhile (Not \<circ> is_ows) bs)"
proof (cases "dropWhile (Not \<circ> is_ows) bs")
  case Nil
  show ?thesis by (simp add: assms header_words_def split_on_takeWhile [of _ bs] Nil)
next
  case (Cons y ys)
  then have "is_ows y" by (metis comp_apply hd_dropWhile list.distinct(1) list.sel(1))
  with assms Cons show ?thesis by (simp add: header_words_def split_on_takeWhile [of _ bs])
qed

lemma words_clean: "w \<in> set (header_words v) \<Longrightarrow> w \<noteq> [] \<and> 0x20 \<notin> set w"
  using split_on_pieces [of w is_ows v "0x20"] by (auto simp: header_words_def is_ows_def)

lemma words_join_inj:
  assumes "join [0x20] (header_words v) = join [0x20] (header_words v')"
  shows "header_words v = header_words v'"
proof -
  have again: "header_words u =
      (if join [0x20] (header_words u) = [] then [] else split_on (\<lambda>b. b = 0x20) (join [0x20] (header_words u)))" for u
  proof (cases "header_words u")
    case (Cons w ws)
    then have "join [0x20] (header_words u) \<noteq> []" using words_clean [of w u] by (cases ws) auto
    moreover have "split_on (\<lambda>b. b = 0x20) (join [0x20] (header_words u)) = header_words u"
      using Cons words_clean [of _ u] by (intro split_on_join) auto
    ultimately show ?thesis by simp
  qed simp
  show ?thesis by (subst again, subst (2) again, simp add: assms)
qed

lemma words_none: "header_words v = [] \<longleftrightarrow> (\<forall>b \<in> set v. is_ows b)"
proof (induction v)
  case (Cons b v)
  then show ?case by (cases "is_ows b") (simp_all add: words_blank words_word)
qed simp

lemma normalize_loop_word:
  "normalize_header_loop False v = takeWhile (Not \<circ> is_ows) v
     @ (case dropWhile (Not \<circ> is_ows) v of [] \<Rightarrow> [] | b # bs \<Rightarrow> 0x20 # normalize_header_loop True bs)"
  by (induction v) (auto simp: is_ows_def)

lemma normalize_loop_words:
  "normalize_header_loop True v
     = join [0x20] (header_words v) @ (if header_words v \<noteq> [] \<and> is_ows (last v) then [0x20] else [])"
proof (induction v rule: length_induct)
  case (1 v)
  show ?case
  proof (cases v)
    case (Cons b bs)
    show ?thesis
    proof (cases "is_ows b")
      case True
      have "normalize_header_loop True v = normalize_header_loop True bs" using True by (simp add: Cons is_ows_def)
      moreover have "header_words v = header_words bs" using True by (simp add: Cons words_blank)
      moreover have "header_words bs \<noteq> [] \<Longrightarrow> last v = last bs" by (auto simp: Cons)
      moreover have "normalize_header_loop True bs
          = join [0x20] (header_words bs) @ (if header_words bs \<noteq> [] \<and> is_ows (last bs) then [0x20] else [])"
        using 1 Cons by simp
      ultimately show ?thesis by (cases "header_words bs = []") auto
    next
      case False
      then have loop: "normalize_header_loop True v = b # normalize_header_loop False bs" by (simp add: Cons is_ows_def)
      let ?w = "takeWhile (Not \<circ> is_ows) bs"
      show ?thesis
      proof (cases "dropWhile (Not \<circ> is_ows) bs")
        case Nil
        then have "?w = bs" by (metis append_Nil2 takeWhile_dropWhile_id)
        moreover have "\<not> is_ows (last v)" using Nil False by (cases bs rule: rev_cases) (auto simp: Cons dropWhile_append split: if_splits)
        ultimately show ?thesis unfolding loop by (simp add: Nil False Cons words_word normalize_loop_word)
      next
        case (Cons y r)
        have y: "is_ows y" using Cons by (metis comp_apply hd_dropWhile list.distinct(1) list.sel(1))
        have v: "v = (b # ?w) @ y # r" using Cons \<open>v = b # bs\<close> by (metis append_Cons takeWhile_dropWhile_id)
        have "length r < length v" by (subst v) simp
        with 1 have ih: "normalize_header_loop True r = join [0x20] (header_words r) @ (if header_words r \<noteq> [] \<and> is_ows (last r) then [0x20] else [])"
          by blast
        have words: "header_words v = (b # ?w) # header_words r"
          using False Cons y \<open>v = b # bs\<close> by (simp add: words_word words_blank)
        have lst: "last v = (if r = [] then y else last r)" by (subst v) simp
        show ?thesis
        proof (cases "header_words r")
          case Nil
          then have "is_ows (last v)" using y lst by (auto simp: words_none)
          with Nil Cons ih show ?thesis unfolding loop words by (simp add: normalize_loop_word)
        next
          case (Cons w ws)
          then have "r \<noteq> []" by auto
          with Cons \<open>dropWhile _ bs = y # r\<close> ih lst show ?thesis unfolding loop words by (simp add: normalize_loop_word)
        qed
      qed
    qed
  qed simp
qed

lemma last_join_words: "header_words v \<noteq> [] \<Longrightarrow> join [0x20] (header_words v) \<noteq> [] \<and> last (join [0x20] (header_words v)) \<noteq> 0x20"
proof -
  have "ws \<noteq> [] \<Longrightarrow> (\<And>w. w \<in> set ws \<Longrightarrow> w \<noteq> [] \<and> 0x20 \<notin> set w) \<Longrightarrow> join [0x20] ws \<noteq> [] \<and> last (join [0x20] ws) \<noteq> 0x20" for ws :: "bytes list"
  proof (induction "[0x20] :: bytes" ws rule: join.induct)
    case (2 w)
    then show ?case using last_in_set [of w] by fastforce
  qed auto
  then show "header_words v \<noteq> [] \<Longrightarrow> ?thesis" using words_clean by blast
qed

lemma normalize_words: "normalize_header_value v = join [0x20] (header_words v)"
  using last_join_words [of v] by (cases "header_words v = []") (auto simp: normalize_header_value_def normalize_loop_words)

lemma header_line_words:
  assumes "header_line m n = header_line m' n" "HeaderMap_get_all m n = [v]" "HeaderMap_get_all m' n = [v']"
  shows "header_words v = header_words v'"
  using assms by (intro words_join_inj) (simp add: header_line_def normalize_words)

text \<open>
  What a signature fixes of a request: the method, the decoded path, the decoded query parameters up to
  their order, and the canonical line of every signed field.  A field that occurs once in both
  requests has the same words in both; SigV4 joins the values of a repeated field with commas.
\<close>

definition signed_alike :: "bytes list \<Rightarrow> RequestHead \<Rightarrow> RequestHead \<Rightarrow> bool" where
  "signed_alike names h h' \<longleftrightarrow>
     rh_method h = rh_method h'
     \<and> percent_decode (raw_path (rh_target h)) = percent_decode (raw_path (rh_target h'))
     \<and> mset (decoded_pairs False (rt_query (rh_target h))) = mset (decoded_pairs False (rt_query (rh_target h')))
     \<and> (\<forall>n \<in> set names. header_line (rh_headers h) n = header_line (rh_headers h') n
         \<and> (\<forall>v v'. HeaderMap_get_all (rh_headers h) n = [v] \<longrightarrow> HeaderMap_get_all (rh_headers h') n = [v']
              \<longrightarrow> header_words v = header_words v'))"

lemma accepted_facts:
  assumes h: "head_wf limits h" and a: "header_accepts cr (SigV4Request_from h) secret config a d t p m c"
  shows "no_lf p" "no_lf d" "signed_names_wf (ha_signed_headers a)"
    "build_canonical_request (SigV4Request_from h) (ha_signed_headers a) p False = Ok c"
    "hmac_sha256 cr (derive_signing_key cr secret (ha_credential a))
      (string_to_sign d (scope (ha_credential a)) (sha256 cr c)) = ha_signature a"
  using a header_value_no_lf [OF h] authorization_names_wf
  by (auto simp: header_accepts_def signature_ok_def SigV4Request_from_def simp del: ascii_Cons)

text \<open>C1. A signature binds its request.  Suppose two requests the head parser produced are accepted under the
  same secret with the same credential and the same signature, at any dates and under any configurations.
  Then they have the same method, the same decoded path, the same multiset of decoded query parameters,
  the same payload declaration, the same date and the same list of signed headers, and each signed header
  has the same canonical line, hence the same words where it occurs once; or else their two canonical
  requests are an explicit collision of SHA-256, or their two strings to sign one of HMAC under the one
  derived key.  Nothing is assumed of SHA-256 and HMAC.\<close>

theorem signature_binds_request:
  assumes "head_wf limits h" and "head_wf limits' h'"
    and "header_accepts cr (SigV4Request_from h) secret config a d t p m c"
    and "header_accepts cr (SigV4Request_from h') secret config' a' d' t' p' m' c'"
    and "ha_credential a' = ha_credential a" and "ha_signature a' = ha_signature a"
  shows "signed_alike (ha_signed_headers a) h h' \<and> ha_signed_headers a' = ha_signed_headers a \<and> d' = d \<and> p' = p
    \<or> collides (sha256 cr) c c'
    \<or> collides (hmac_sha256 cr (derive_signing_key cr secret (ha_credential a)))
        (string_to_sign d (scope (ha_credential a)) (sha256 cr c))
        (string_to_sign d' (scope (ha_credential a)) (sha256 cr c'))"
proof (rule disjCI)
  note f = accepted_facts [OF assms(1,3)] and f' = accepted_facts [OF assms(2,4)]
  let ?s = "\<lambda>d c. string_to_sign d (scope (ha_credential a)) (sha256 cr c)"
  assume n: "\<not> (collides (sha256 cr) c c'
    \<or> collides (hmac_sha256 cr (derive_signing_key cr secret (ha_credential a))) (?s d c) (?s d' c'))"
  with f(5) f'(5) assms(5,6) have "?s d c = ?s d' c'" by (auto simp: collides_def)
  from string_to_sign_inj [OF this f(2) f'(2)] n have d: "d' = d" and c: "c' = c" by (auto simp: collides_def)
  note b = canonical_request_binds [OF assms(1,2) f(3) f'(3) f(1) f'(1) f(4) f'(4) [unfolded c]]
  have "signed_alike (ha_signed_headers a) h h'"
    using b(1-3,6) header_line_words unfolding signed_alike_def by blast
  with b(4,5) d show "signed_alike (ha_signed_headers a) h h' \<and> ha_signed_headers a' = ha_signed_headers a \<and> d' = d \<and> p' = p"
    by simp
qed

definition sample_limits :: HeadLimits where
  "sample_limits = \<lparr>max_head_bytes = 400, max_request_line_bytes = 40, max_header_line_bytes = 300, max_headers = 6\<rparr>"

definition sample_fields :: "Header list" where
  "sample_fields =
     [\<lparr>hdr_name = ascii ''host'', hdr_value = ascii ''x''\<rparr>,
      \<lparr>hdr_name = ascii ''authorization'', hdr_value = authorization_text sample_authorization\<rparr>,
      \<lparr>hdr_name = ascii ''x-amz-date'', hdr_value = ascii ''20240229T000000Z''\<rparr>,
      \<lparr>hdr_name = ascii ''x-amz-content-sha256'', hdr_value = ascii ''UNSIGNED-PAYLOAD''\<rparr>]"

definition sample_head :: "Header list \<Rightarrow> RequestHead" where
  "sample_head extra = \<lparr>rh_method = ascii ''GET'',
     rh_target = \<lparr>raw_path = ascii ''/b/k'', raw_query = None, rt_query = \<lparr>qp_pairs = []\<rparr>\<rparr>,
     rh_headers = \<lparr>hm_fields = sample_fields @ extra\<rparr>, rh_content_length = None, transfer_chunked = False\<rparr>"

definition sample_agent :: Header where
  "sample_agent = \<lparr>hdr_name = ascii ''user-agent'', hdr_value = ascii ''z''\<rparr>"

definition sample_config :: VerificationConfig where
  "sample_config = \<lparr>vc_now = 1709164800000000000, max_clock_skew = 0, expected_region = None,
     expected_service = ascii ''s3''\<rparr>"

lemma authorization_value_wf:
  assumes "authorization_wf a"
  shows "value_wf (authorization_text a)"
proof -
  from assms have w: "attribute_ok (credential_text (ha_credential a))"
    "attribute_ok (join [0x3b] (ha_signed_headers a))" "attribute_ok (hex_lower (ha_signature a))"
    by (auto simp: authorization_wf_def intro!: attributes_ok)
  have asc: "\<forall>b \<in> set (ascii ''Credential='') \<union> set (ascii ''SignedHeaders='') \<union> set (ascii ''Signature='') \<union> set ALGORITHM.
      is_ascii_graphic b"
    by (simp add: ALGORITHM_def is_ascii_graphic_def)
  have g: "b = 0x20 \<or> is_ascii_graphic b" if "b \<in> set (authorization_text a)" for b
  proof -
    from that have "b \<in> set (ascii ''Credential='') \<union> set (ascii ''SignedHeaders='') \<union> set (ascii ''Signature='') \<union> set ALGORITHM
       \<or> b \<in> {0x20, 0x2c} \<or> b \<in> set (credential_text (ha_credential a))
       \<or> b \<in> set (join [0x3b] (ha_signed_headers a)) \<or> b \<in> set (hex_lower (ha_signature a))"
      unfolding authorization_text_def by (auto simp del: ascii_Cons)
    moreover have "is_ascii_graphic 0x2c" by (simp add: is_ascii_graphic_def)
    ultimately show ?thesis using w asc unfolding attribute_ok_def insert_iff empty_iff by blast
  qed
  have "valid_field_byte b" if "b = 0x20 \<or> is_ascii_graphic b" for b
    using that by (auto simp: valid_field_byte_def is_ascii_graphic_def byte_arith)
  with g have "list_all valid_field_byte (authorization_text a)" unfolding list_all_iff by blast
  moreover have "last (authorization_text a) = last (hex_lower (ha_signature a))"
    using w(3) by (simp add: authorization_text_def attribute_ok_def)
  with w(3) have "is_ascii_graphic (last (authorization_text a))" by (simp add: attribute_ok_def)
  then have "\<not> is_ows (last (authorization_text a))" by (auto simp: is_ows_def is_ascii_graphic_def)
  moreover have "\<not> is_ows (hd (authorization_text a))"
    by (simp add: authorization_text_def ALGORITHM_def is_ows_def)
  ultimately show ?thesis
    by (simp add: value_wf_def valid_field_value_def trim_ows_def trim_by_id)
qed

lemma sample_auth_value: "value_wf (authorization_text sample_authorization)
    \<and> length (authorization_text sample_authorization) < 200"
  using authorization_value_wf [OF sample_authorization_wf]
  by (simp add: authorization_text_def sample_authorization_def sample_credential_def ALGORITHM_def
      credential_text_def scope_def TERMINATOR_def)

lemma sample_field_wf: "list_all (field_wf sample_limits) (sample_fields @ [sample_agent])"
proof -
  have "field_wf sample_limits \<lparr>hdr_name = ascii ''authorization'', hdr_value = authorization_text sample_authorization\<rparr>"
    using sample_auth_value
    by (simp add: field_wf_def field_line_def name_wf_def sample_limits_def is_tchar_def ascii_class_defs)
  then show ?thesis
    by (simp add: sample_fields_def sample_agent_def del: ascii_Cons)
      (simp add: field_wf_def field_line_def name_wf_def value_wf_def sample_limits_def http_eval)
qed

lemma sample_framing:
  "check_host \<lparr>hm_fields = sample_fields\<rparr> = Ok ()" "check_host \<lparr>hm_fields = sample_fields @ [sample_agent]\<rparr> = Ok ()"
  "body_framing \<lparr>hm_fields = sample_fields\<rparr> = Ok (None, False)"
  "body_framing \<lparr>hm_fields = sample_fields @ [sample_agent]\<rparr> = Ok (None, False)"
  by (simp_all add: sample_fields_def sample_agent_def check_host_def body_framing_def HeaderMap_get_all_def
      HeaderMap_get_def eq_ignore_ascii_case_def ascii_class_defs)

lemma sample_head_wf: "head_wf sample_limits (sample_head [])" "head_wf sample_limits (sample_head [sample_agent])"
proof -
  have "length sample_fields = 4" by (simp add: sample_fields_def)
  with sample_field_wf sample_framing
  show "head_wf sample_limits (sample_head [])" "head_wf sample_limits (sample_head [sample_agent])"
    unfolding head_wf_def
    by (simp_all add: sample_head_def sample_limits_def target_wf_def target_bytes_def
        request_line_bytes_def is_tchar_def ascii_class_defs QueryParams_parse_def)
qed

lemma sample_timestamp: "parse_amz_timestamp (ascii ''20240229T000000Z'') = Ok 1709164800"
  by code_simp


lemma sample_get_all:
  assumes "extra = [] \<or> extra = [sample_agent]"
  shows "HeaderMap_get_all (rh_headers (sample_head extra)) (ascii ''authorization'') = [authorization_text sample_authorization]"
    "HeaderMap_get_all (rh_headers (sample_head extra)) (ascii ''x-amz-date'') = [ascii ''20240229T000000Z'']"
    "HeaderMap_get_all (rh_headers (sample_head extra)) (ascii ''x-amz-content-sha256'') = [ascii ''UNSIGNED-PAYLOAD'']"
    "HeaderMap_get_all (rh_headers (sample_head extra)) (ascii ''x-amz-security-token'') = []"
    "HeaderMap_get_all (rh_headers (sample_head extra)) (ascii ''host'') = [ascii ''x'']"
  using assms
  by (auto simp: sample_head_def sample_fields_def sample_agent_def HeaderMap_get_all_def
      eq_ignore_ascii_case_def ascii_class_defs)

definition sample_canonical :: bytes where
  "sample_canonical = join [0x0a] [ascii ''GET'', ascii ''/b/k'', [], ascii ''host:x'',
     ascii ''x-amz-date:20240229T000000Z'', [], ascii ''host;x-amz-date'', ascii ''UNSIGNED-PAYLOAD'']"

lemma sample_build:
  assumes "extra = [] \<or> extra = [sample_agent]"
  shows "build_canonical_request (SigV4Request_from (sample_head extra)) [ascii ''host'', ascii ''x-amz-date'']
     (ascii ''UNSIGNED-PAYLOAD'') False = Ok sample_canonical"
proof -
  have c: "canonical_headers (rh_headers (sample_head extra)) [ascii ''host'', ascii ''x-amz-date''] =
      Ok (ascii ''host:x'' @ [0x0a] @ ascii ''x-amz-date:20240229T000000Z'' @ [0x0a])"
    using sample_get_all(2,5) [OF assms]
    by (simp add: normalize_header_value_def del: ascii_Cons) (simp add: normalize_header_value_def)
  have f: "sr_headers (SigV4Request_from (sample_head extra)) = rh_headers (sample_head extra)"
    "sr_method (SigV4Request_from (sample_head extra)) = ascii ''GET''"
    "sr_raw_path (SigV4Request_from (sample_head extra)) = ascii ''/b/k''"
    "sr_raw_query (SigV4Request_from (sample_head extra)) = None"
    by (simp_all add: SigV4Request_from_def sample_head_def)
  show ?thesis
    unfolding build_canonical_request_def f c
    by (simp add: canonical_uri_def canonical_query_def sample_canonical_def is_unreserved_def ascii_class_defs)
qed

definition sample_to_sign :: bytes where
  "sample_to_sign = string_to_sign (ascii ''20240229T000000Z'') (scope sample_credential) sample_canonical"

definition sample_crypto :: Crypto where
  "sample_crypto = \<lparr>sha256 = (\<lambda>m. m),
     hmac_sha256 = (\<lambda>k m. if m = sample_to_sign then replicate 32 0 else m)\<rparr>"

lemma sample_accepts:
  assumes "extra = [] \<or> extra = [sample_agent]"
  shows "header_accepts sample_crypto (SigV4Request_from (sample_head extra)) (ascii ''secret'') sample_config
     sample_authorization (ascii ''20240229T000000Z'') 1709164800 (ascii ''UNSIGNED-PAYLOAD'')
     UnsignedPayload sample_canonical"
proof -
  note g = sample_get_all [OF assms]
  have h: "sr_headers (SigV4Request_from (sample_head extra)) = rh_headers (sample_head extra)"
    by (simp add: SigV4Request_from_def)
  have "signed_headers_ok (rh_headers (sample_head extra)) [ascii ''host'', ascii ''x-amz-date'']"
    using assms g(2,5)
    by (auto simp: signed_headers_ok_def headers.get_first simp del: ascii_Cons)
      (auto simp: sample_head_def sample_fields_def sample_agent_def)
  moreover have "utf8_valid (ascii ''20240229T000000Z'')" "utf8_valid (ascii ''UNSIGNED-PAYLOAD'')"
    by (rule utf8_valid_ascii, simp)+
  moreover have "PayloadMode_parse (ascii ''UNSIGNED-PAYLOAD'') = Ok UnsignedPayload"
    by (simp add: PayloadMode_parse_def del: ascii_Cons)
  ultimately show ?thesis
    unfolding header_accepts_def h
    using g(1-4) parse_authorization_text [OF sample_authorization_wf g(1)] sample_timestamp sample_build [OF assms]
    by (simp add: sample_authorization_def del: ascii_Cons)
      (simp add: scope_ok_def sample_config_def sample_credential_def clock_ok_def unix_now_def as_secs_def
        signature_ok_def sample_crypto_def sample_to_sign_def)
qed

theorem signature_binds_request_witness:
  "sample_head [] \<noteq> sample_head [sample_agent]
   \<and> signed_alike [ascii ''host'', ascii ''x-amz-date''] (sample_head []) (sample_head [sample_agent])"
proof -
  have "\<not> collides f x x" for f :: "bytes \<Rightarrow> bytes" and x by (simp add: collides_def)
  with signature_binds_request [OF sample_head_wf sample_accepts [OF disjI1 [OF refl]]
      sample_accepts [OF disjI2 [OF refl]] refl refl]
  have "signed_alike (ha_signed_headers sample_authorization) (sample_head []) (sample_head [sample_agent])" by blast
  then show ?thesis by (simp add: sample_authorization_def sample_head_def del: ascii_Cons)
qed

end
