(* ===== verification/Chunked.thy ===== *)
theory Chunked
  imports Sigv4
begin

text \<open>
  \<^verbatim>\<open>protocol/chunked.rs\<close>: the incremental decoder of the \<^verbatim>\<open>aws-chunked\<close> content encoding, with signed
  chunks or an unsigned body that ends in checksum trailers.

  The running digests of the \<^verbatim>\<open>crc32fast\<close>, \<^verbatim>\<open>crc\<close>, \<^verbatim>\<open>sha1\<close> and \<^verbatim>\<open>sha2\<close> crates and the \<^verbatim>\<open>base64\<close> decoder are
  the parameter record \<open>Hashes\<close>; all digest states share the type \<open>'h\<close>.  A call of \<^verbatim>\<open>push\<close> returns the
  new state, the bytes appended to the caller's buffer and a result, also when it fails, since
  the source mutates \<^verbatim>\<open>self\<close> and the buffer before it returns an error.  The result \<open>Panicked\<close> stands
  for a failed \<^verbatim>\<open>expect\<close> or an arithmetic underflow.
\<close>

section \<open>Data\<close>

record 'h Hashes =
  crc32_new :: 'h
  crc32_update :: "'h \<Rightarrow> bytes \<Rightarrow> 'h"
  crc32_finalize :: "'h \<Rightarrow> 32 word"
  crc32c_new :: 'h
  crc32c_update :: "'h \<Rightarrow> bytes \<Rightarrow> 'h"
  crc32c_finalize :: "'h \<Rightarrow> 32 word"
  crc64nvme_new :: 'h
  crc64nvme_update :: "'h \<Rightarrow> bytes \<Rightarrow> 'h"
  crc64nvme_finalize :: "'h \<Rightarrow> u64"
  sha1_new :: 'h
  sha1_update :: "'h \<Rightarrow> bytes \<Rightarrow> 'h"
  sha1_finalize :: "'h \<Rightarrow> bytes"
  sha256_new :: 'h
  sha256_hasher_update :: "'h \<Rightarrow> bytes \<Rightarrow> 'h"
  sha256_finalize :: "'h \<Rightarrow> bytes"
  base64_decode :: "bytes \<Rightarrow> bytes option"

definition to_be_bytes :: "nat \<Rightarrow> 'a::len word \<Rightarrow> bytes" where
  "to_be_bytes n w = map (\<lambda>i. ucast (drop_bit (8 * (n - 1 - i)) w)) [0..<n]"

definition EMPTY_SHA256 :: bytes where
  "EMPTY_SHA256 = ascii ''e3b0c44298fc1c149afbf4c8996fb92427ae41e4649b934ca495991b7852b855''"

definition MAX_BUFFERED_CHUNK_BYTES :: nat where
  "MAX_BUFFERED_CHUNK_BYTES = 1024 * 1024"

record ChunkedLimits =
  max_chunk_header_bytes :: nat
  max_chunk_bytes :: nat
  max_decoded_bytes :: u64
  max_trailer_bytes :: nat
  max_trailers :: nat
  expected_decoded_length :: "u64 option"

definition ChunkedLimits_default :: ChunkedLimits where
  "ChunkedLimits_default = \<lparr>max_chunk_header_bytes = 1024, max_chunk_bytes = MAX_BUFFERED_CHUNK_BYTES,
     max_decoded_bytes = 5 * 1024 * 1024 * 1024, max_trailer_bytes = 16 * 1024, max_trailers = 8,
     expected_decoded_length = None\<rparr>"

datatype AwsChunkedMode = Signed StreamingSigningContext | UnsignedTrailer "bytes list"

datatype DecodeStatus = NeedMore | DecodeDone

record DecodedTrailer =
  tr_name :: bytes
  tr_value :: bytes

datatype ChunkedError =
    InputAfterEnd | HeaderTooLarge | InvalidChunkHeader | ChunkTooLarge | MissingChunkSignature
  | UnexpectedChunkSignature | ChunkSignatureMismatch | MissingChunkTerminator
  | DecodedBodyTooLarge | DecodedLengthMismatch u64 u64 | TrailerTooLarge | TooManyTrailers
  | InvalidTrailer | DuplicateTrailer bytes | UndeclaredTrailer bytes | MissingTrailer bytes
  | UnsupportedChecksum bytes | InvalidChecksumEncoding bytes | ChecksumMismatch bytes
  | UnexpectedTrailer

datatype Phase = PHeader | PData | PDataCrlf | PTrailers | PDone

record CurrentChunk =
  cc_size :: nat
  cc_data :: bytes
  cc_signature :: "bytes option"

record 'h AwsChunkedDecoder =
  dec_mode :: AwsChunkedMode
  dec_limits :: ChunkedLimits
  dec_phase :: Phase
  dec_input :: bytes
  dec_offset :: nat
  dec_current :: "CurrentChunk option"
  decoded_bytes :: u64
  dec_crc32 :: 'h
  dec_crc32c :: 'h
  dec_crc64nvme :: 'h
  dec_sha1 :: 'h
  dec_sha256 :: 'h
  dec_trailers :: "DecodedTrailer list"
  trailer_bytes :: nat
  previous_signature :: "bytes option"

datatype push_result = Pushed DecodeStatus | Failed ChunkedError | Panicked

section \<open>Construction\<close>

definition checksum_names :: "bytes list" where
  "checksum_names = [ascii ''x-amz-checksum-crc32'', ascii ''x-amz-checksum-crc32c'',
     ascii ''x-amz-checksum-sha1'', ascii ''x-amz-checksum-sha256'', ascii ''x-amz-checksum-crc64nvme'']"

fun validate_declarations_loop :: "bytes list \<Rightarrow> bytes list \<Rightarrow> ChunkedError + unit" where
  "validate_declarations_loop seen [] = Ok ()"
| "validate_declarations_loop seen (n # ns) =
     (if n \<notin> set checksum_names then Err (UnsupportedChecksum n)
      else if n \<in> set seen then Err (DuplicateTrailer n)
      else validate_declarations_loop (seen @ [n]) ns)"

definition validate_declarations :: "bytes list \<Rightarrow> ChunkedError + unit" where
  "validate_declarations declared =
     (if declared = [] then Err (MissingTrailer (ascii ''x-amz-trailer''))
      else validate_declarations_loop [] declared)"

definition AwsChunkedDecoder_new ::
  "'h Hashes \<Rightarrow> AwsChunkedMode \<Rightarrow> ChunkedLimits \<Rightarrow> ChunkedError + 'h AwsChunkedDecoder" where
  "AwsChunkedDecoder_new hs mode limits =
     rbind (case mode of
         Signed context \<Rightarrow> Ok (Some (seed_signature context))
       | UnsignedTrailer declared \<Rightarrow> rbind (validate_declarations declared) (\<lambda>_. Ok None))
     (\<lambda>previous.
     Ok \<lparr>dec_mode = mode, dec_limits = limits, dec_phase = PHeader, dec_input = [], dec_offset = 0,
         dec_current = None, decoded_bytes = 0, dec_crc32 = crc32_new hs, dec_crc32c = crc32c_new hs,
         dec_crc64nvme = crc64nvme_new hs, dec_sha1 = sha1_new hs, dec_sha256 = sha256_new hs,
         dec_trailers = [], trailer_bytes = 0, previous_signature = previous\<rparr>)"

section \<open>Operations\<close>

definition compact :: "'h AwsChunkedDecoder \<Rightarrow> 'h AwsChunkedDecoder" where
  "compact d =
     (if dec_offset d = length (dec_input d) then d\<lparr>dec_input := [], dec_offset := 0\<rparr>
      else if dec_offset d > 64 * 1024 \<and> dec_offset d > length (dec_input d) div 2
      then d\<lparr>dec_input := drop (dec_offset d) (dec_input d), dec_offset := 0\<rparr>
      else d)"

definition available :: "'h AwsChunkedDecoder \<Rightarrow> bytes" where
  "available d = drop (dec_offset d) (dec_input d)"

definition take_line ::
  "'h AwsChunkedDecoder \<Rightarrow> nat \<Rightarrow> bool \<Rightarrow> 'h AwsChunkedDecoder \<times> (ChunkedError + bytes option)" where
  "take_line d limit trailer =
     (let too_large = (if trailer then TrailerTooLarge else HeaderTooLarge) in
      case find_sub CRLF (available d) of
        None \<Rightarrow> if length (available d) > limit then (d, Err too_large) else (d, Ok None)
      | Some pos \<Rightarrow>
          if pos > limit then (d, Err too_large)
          else (d\<lparr>dec_offset := dec_offset d + pos + 2\<rparr>,
                Ok (Some (take pos (available d)))))"

fun hex_digits_value :: "bytes \<Rightarrow> nat option" where
  "hex_digits_value [] = Some 0"
| "hex_digits_value (b # bs) =
     (case hex_value b of None \<Rightarrow> None
      | Some v \<Rightarrow> map_option ((+) (unat v * 16 ^ length bs)) (hex_digits_value bs))"

fun header_extensions :: "bytes list \<Rightarrow> bytes option \<Rightarrow> ChunkedError + bytes option" where
  "header_extensions [] signature = Ok signature"
| "header_extensions (extension # rest) signature =
     rbind (ok_or (split_once 0x3d extension) InvalidChunkHeader) (\<lambda>(n, value).
     if n \<noteq> ascii ''chunk-signature'' \<or> signature \<noteq> None then Err InvalidChunkHeader
     else rbind (map_err (\<lambda>_. InvalidChunkHeader) (decode_hex_32 value)) (\<lambda>s.
       header_extensions rest (Some s)))"

definition parse_chunk_header :: "bytes \<Rightarrow> ChunkedError + (nat \<times> bytes option)" where
  "parse_chunk_header line =
     (case split_on (\<lambda>b. b = 0x3b) line of
        [] \<Rightarrow> Err InvalidChunkHeader
      | digits # extensions \<Rightarrow>
          if digits = [] \<or> length digits > 16 \<or> \<not> list_all is_ascii_hexdigit digits
          then Err InvalidChunkHeader
          else
            rbind (ok_or (hex_digits_value digits) InvalidChunkHeader) (\<lambda>chunk_size.
            rbind (header_extensions extensions None) (\<lambda>signature.
            Ok (chunk_size, signature))))"

definition chunk_string_to_sign :: "Crypto \<Rightarrow> StreamingSigningContext \<Rightarrow> bytes \<Rightarrow> bytes \<Rightarrow> bytes" where
  "chunk_string_to_sign cr context previous data =
     ascii ''AWS4-HMAC-SHA256-PAYLOAD'' @ [0x0a] @ ctx_amz_date context @ [0x0a]
     @ ctx_credential_scope context @ [0x0a] @ hex_lower previous @ [0x0a] @ EMPTY_SHA256 @ [0x0a]
     @ hex_lower (sha256 cr data)"

text \<open>\<open>None\<close> is the failed \<^verbatim>\<open>expect\<close> on a signed decoder without a previous signature.\<close>

definition verify_chunk_signature ::
  "Crypto \<Rightarrow> 'h AwsChunkedDecoder \<Rightarrow> bytes \<Rightarrow> bytes \<Rightarrow> (ChunkedError + unit) option" where
  "verify_chunk_signature cr d data signature =
     (case dec_mode d of
        UnsignedTrailer _ \<Rightarrow> Some (Err UnexpectedChunkSignature)
      | Signed context \<Rightarrow>
          (case previous_signature d of
             None \<Rightarrow> None
           | Some previous \<Rightarrow>
               Some (map_err (\<lambda>_. ChunkSignatureMismatch)
                 (verify_hmac cr (ctx_signing_key context)
                   (chunk_string_to_sign cr context previous data) signature))))"

definition over_limit :: "ChunkedLimits \<Rightarrow> u64 \<Rightarrow> bool" where
  "over_limit limits n \<longleftrightarrow> n > max_decoded_bytes limits
     \<or> (case expected_decoded_length limits of None \<Rightarrow> False | Some expected \<Rightarrow> n > expected)"

definition accept_decoded ::
  "'h Hashes \<Rightarrow> 'h AwsChunkedDecoder \<Rightarrow> bytes \<Rightarrow> 'h AwsChunkedDecoder \<times> bytes \<times> (ChunkedError + unit)" where
  "accept_decoded hs d data =
     (case u64_try_from (length data) of
        None \<Rightarrow> (d, [], Err DecodedBodyTooLarge)
      | Some n \<Rightarrow>
          (case checked_add (decoded_bytes d) n of
             None \<Rightarrow> (d, [], Err DecodedBodyTooLarge)
           | Some new_total \<Rightarrow>
               let d1 = d\<lparr>decoded_bytes := new_total\<rparr> in
               if over_limit (dec_limits d) new_total then (d1, [], Err DecodedBodyTooLarge)
               else (d1\<lparr>dec_crc32 := crc32_update hs (dec_crc32 d) data,
                        dec_crc32c := crc32c_update hs (dec_crc32c d) data,
                        dec_crc64nvme := crc64nvme_update hs (dec_crc64nvme d) data,
                        dec_sha1 := sha1_update hs (dec_sha1 d) data,
                        dec_sha256 := sha256_hasher_update hs (dec_sha256 d) data\<rparr>, data, Ok ())))"

definition trailer_name_byte :: "u8 \<Rightarrow> bool" where
  "trailer_name_byte b \<longleftrightarrow> is_ascii_lowercase b \<or> is_ascii_digit b \<or> b = 0x2d"

definition accept_trailer ::
  "'h AwsChunkedDecoder \<Rightarrow> bytes \<Rightarrow> 'h AwsChunkedDecoder \<times> (ChunkedError + unit)" where
  "accept_trailer d line =
     (case dec_mode d of
        Signed _ \<Rightarrow> (d, Err UnexpectedTrailer)
      | UnsignedTrailer declared \<Rightarrow>
          if length (dec_trailers d) \<ge> max_trailers (dec_limits d) then (d, Err TooManyTrailers)
          else if line \<noteq> [] \<and> is_ows (hd line) then (d, Err InvalidTrailer)
          else case position (\<lambda>b. b = 0x3a) line of
            None \<Rightarrow> (d, Err InvalidTrailer)
          | Some colon \<Rightarrow>
              let n = take colon line in
              if n = [] \<or> \<not> list_all trailer_name_byte n then (d, Err InvalidTrailer)
              else
               (let v0 = trim_ows (drop (colon + 1) line);
                    value = (if v0 \<noteq> [] \<and> last v0 = 0x0a then butlast v0 else v0) in
                if value = [] \<or> \<not> list_all is_ascii_graphic value then (d, Err InvalidTrailer)
                else if list_ex (\<lambda>t. tr_name t = n) (dec_trailers d) then (d, Err (DuplicateTrailer n))
                else if n \<notin> set declared then (d, Err (UndeclaredTrailer n))
                else (d\<lparr>dec_trailers := dec_trailers d @ [\<lparr>tr_name = n, tr_value = value\<rparr>]\<rparr>, Ok ())))"

definition calculated_checksum :: "'h Hashes \<Rightarrow> 'h AwsChunkedDecoder \<Rightarrow> bytes \<Rightarrow> (bytes \<times> nat) option" where
  "calculated_checksum hs d n =
     (if n = ascii ''x-amz-checksum-crc32'' then Some (to_be_bytes 4 (crc32_finalize hs (dec_crc32 d)), 8)
      else if n = ascii ''x-amz-checksum-crc32c'' then Some (to_be_bytes 4 (crc32c_finalize hs (dec_crc32c d)), 8)
      else if n = ascii ''x-amz-checksum-sha1'' then Some (sha1_finalize hs (dec_sha1 d), 28)
      else if n = ascii ''x-amz-checksum-sha256'' then Some (sha256_finalize hs (dec_sha256 d), 44)
      else if n = ascii ''x-amz-checksum-crc64nvme'' then Some (to_be_bytes 8 (crc64nvme_finalize hs (dec_crc64nvme d)), 12)
      else None)"

definition check_trailer :: "'h Hashes \<Rightarrow> 'h AwsChunkedDecoder \<Rightarrow> bytes \<Rightarrow> ChunkedError + unit" where
  "check_trailer hs d declared =
     rbind (ok_or (find (\<lambda>t. tr_name t = declared) (dec_trailers d)) (MissingTrailer declared)) (\<lambda>trailer.
     rbind (ok_or (calculated_checksum hs d declared) (UnsupportedChecksum declared)) (\<lambda>(expected, encoded_length).
     if length (tr_value trailer) \<noteq> encoded_length then Err (InvalidChecksumEncoding declared)
     else rbind (ok_or (base64_decode hs (tr_value trailer)) (InvalidChecksumEncoding declared)) (\<lambda>supplied.
       if length supplied \<noteq> length expected then Err (InvalidChecksumEncoding declared)
       else if \<not> constant_time_eq supplied expected then Err (ChecksumMismatch declared)
       else Ok ())))"

fun check_trailers :: "'h Hashes \<Rightarrow> 'h AwsChunkedDecoder \<Rightarrow> bytes list \<Rightarrow> ChunkedError + unit" where
  "check_trailers hs d [] = Ok ()"
| "check_trailers hs d (n # ns) = rbind (check_trailer hs d n) (\<lambda>_. check_trailers hs d ns)"

definition finish_trailers :: "'h Hashes \<Rightarrow> 'h AwsChunkedDecoder \<Rightarrow> ChunkedError + unit" where
  "finish_trailers hs d =
     rbind (case expected_decoded_length (dec_limits d) of
         Some expected \<Rightarrow> if decoded_bytes d \<noteq> expected
           then Err (DecodedLengthMismatch expected (decoded_bytes d)) else Ok ()
       | None \<Rightarrow> Ok ()) (\<lambda>_.
     case dec_mode d of
       Signed _ \<Rightarrow> if dec_trailers d = [] then Ok () else Err UnexpectedTrailer
     | UnsignedTrailer declared \<Rightarrow> check_trailers hs d declared)"

section \<open>The decoder loop\<close>

text \<open>
  One round of the loop in each phase: the new state, the bytes appended to the output, and the
  result when the round returns from \<^verbatim>\<open>push\<close>.
\<close>

type_synonym 'h step = "'h AwsChunkedDecoder \<times> bytes \<times> push_result option"

definition open_chunk ::
  "Crypto \<Rightarrow> 'h AwsChunkedDecoder \<Rightarrow> nat \<Rightarrow> bytes option \<Rightarrow> 'h step" where
  "open_chunk cr d chunk_size signature =
     (if chunk_size = 0 then
        (case signature of
           None \<Rightarrow> (d\<lparr>dec_phase := PTrailers\<rparr>, [], None)
         | Some s \<Rightarrow>
             (case verify_chunk_signature cr d [] s of
                None \<Rightarrow> (d, [], Some Panicked)
              | Some (Inl e) \<Rightarrow> (d, [], Some (Failed e))
              | Some (Inr _) \<Rightarrow> (d\<lparr>previous_signature := Some s, dec_phase := PTrailers\<rparr>, [], None)))
      else (d\<lparr>dec_current := Some \<lparr>cc_size = chunk_size, cc_data = [], cc_signature = signature\<rparr>,
              dec_phase := PData\<rparr>, [], None))"

definition header_step :: "Crypto \<Rightarrow> 'h AwsChunkedDecoder \<Rightarrow> 'h step" where
  "header_step cr d =
     (case take_line d (max_chunk_header_bytes (dec_limits d)) False of
        (d, Inl e) \<Rightarrow> (d, [], Some (Failed e))
      | (d, Inr None) \<Rightarrow> (d, [], Some (Pushed NeedMore))
      | (d, Inr (Some line)) \<Rightarrow>
          (case parse_chunk_header line of
             Inl e \<Rightarrow> (d, [], Some (Failed e))
           | Inr (chunk_size, signature) \<Rightarrow>
               if chunk_size > min (max_chunk_bytes (dec_limits d)) MAX_BUFFERED_CHUNK_BYTES
               then (d, [], Some (Failed ChunkTooLarge))
               else case u64_try_from chunk_size of
                 None \<Rightarrow> (d, [], Some (Failed DecodedBodyTooLarge))
               | Some declared \<Rightarrow>
                   (case checked_add (decoded_bytes d) declared of
                      None \<Rightarrow> (d, [], Some (Failed DecodedBodyTooLarge))
                    | Some after \<Rightarrow>
                        if over_limit (dec_limits d) after then (d, [], Some (Failed DecodedBodyTooLarge))
                        else case (dec_mode d, signature) of
                          (Signed _, None) \<Rightarrow> (d, [], Some (Failed MissingChunkSignature))
                        | (UnsignedTrailer _, Some _) \<Rightarrow> (d, [], Some (Failed UnexpectedChunkSignature))
                        | _ \<Rightarrow> open_chunk cr d chunk_size signature)))"

definition data_step :: "'h AwsChunkedDecoder \<Rightarrow> 'h step" where
  "data_step d =
     (case dec_current d of
        None \<Rightarrow> (d, [], Some Panicked)
      | Some current \<Rightarrow>
          if length (cc_data current) > cc_size current then (d, [], Some Panicked)
          else if available d = [] then (d, [], Some (Pushed NeedMore))
          else
           (let remaining = cc_size current - length (cc_data current);
                count = min remaining (length (available d));
                current' = current\<lparr>cc_data := cc_data current @ take count (available d)\<rparr>;
                d1 = d\<lparr>dec_current := Some current', dec_offset := dec_offset d + count\<rparr>
            in (if length (cc_data current') = cc_size current' then d1\<lparr>dec_phase := PDataCrlf\<rparr> else d1,
                [], None)))"

definition crlf_step :: "Crypto \<Rightarrow> 'h Hashes \<Rightarrow> 'h AwsChunkedDecoder \<Rightarrow> 'h step" where
  "crlf_step cr hs d =
     (if length (available d) < 2 then (d, [], Some (Pushed NeedMore))
      else if take 2 (available d) \<noteq> CRLF then (d, [], Some (Failed MissingChunkTerminator))
      else
       (let d1 = d\<lparr>dec_offset := dec_offset d + 2\<rparr> in
        case dec_current d1 of
          None \<Rightarrow> (d1, [], Some Panicked)
        | Some current \<Rightarrow>
            let d2 = d1\<lparr>dec_current := None\<rparr>;
                checked = (case cc_signature current of
                    None \<Rightarrow> Some (Inr d2)
                  | Some s \<Rightarrow> (case verify_chunk_signature cr d2 (cc_data current) s of
                      None \<Rightarrow> None
                    | Some (Inl e) \<Rightarrow> Some (Inl e)
                    | Some (Inr _) \<Rightarrow> Some (Inr (d2\<lparr>previous_signature := Some s\<rparr>))))
            in case checked of
              None \<Rightarrow> (d2, [], Some Panicked)
            | Some (Inl e) \<Rightarrow> (d2, [], Some (Failed e))
            | Some (Inr d3) \<Rightarrow>
                (case accept_decoded hs d3 (cc_data current) of
                   (d4, out, Inl e) \<Rightarrow> (d4, out, Some (Failed e))
                 | (d4, out, Inr _) \<Rightarrow> (d4\<lparr>dec_phase := PHeader\<rparr>, out, None))))"

definition trailer_step :: "'h Hashes \<Rightarrow> 'h AwsChunkedDecoder \<Rightarrow> 'h step" where
  "trailer_step hs d =
     (case take_line d (max_trailer_bytes (dec_limits d)) True of
        (d, Inl e) \<Rightarrow> (d, [], Some (Failed e))
      | (d, Inr None) \<Rightarrow> (d, [], Some (Pushed NeedMore))
      | (d, Inr (Some line)) \<Rightarrow>
          let new_total = trailer_bytes d + (length line + 2) in
          if \<not> new_total < 2 ^ 64 then (d, [], Some (Failed TrailerTooLarge))
          else
           (let d1 = d\<lparr>trailer_bytes := new_total\<rparr> in
            if new_total > max_trailer_bytes (dec_limits d) then (d1, [], Some (Failed TrailerTooLarge))
            else if line = [] then
              (case finish_trailers hs d1 of
                 Inl e \<Rightarrow> (d1, [], Some (Failed e))
               | Inr _ \<Rightarrow>
                   let d2 = d1\<lparr>dec_phase := PDone\<rparr> in
                   if available d2 \<noteq> [] then (d2, [], Some (Failed InputAfterEnd))
                   else (d2, [], Some (Pushed DecodeDone)))
            else case accept_trailer d1 line of
              (d2, Inl e) \<Rightarrow> (d2, [], Some (Failed e))
            | (d2, Inr _) \<Rightarrow> (d2, [], None)))"

definition decoder_step :: "Crypto \<Rightarrow> 'h Hashes \<Rightarrow> 'h AwsChunkedDecoder \<Rightarrow> 'h step" where
  "decoder_step cr hs d =
     (if dec_phase d = PDone then (d, [], Some (Pushed DecodeDone))
      else if dec_offset d > length (dec_input d) then (d, [], Some Panicked)
      else case dec_phase d of
        PHeader \<Rightarrow> header_step cr d
      | PData \<Rightarrow> data_step d
      | PDataCrlf \<Rightarrow> crlf_step cr hs d
      | _ \<Rightarrow> trailer_step hs d)"

definition phase_rank :: "Phase \<Rightarrow> nat" where
  "phase_rank p = (if p = PData then 1 else 0)"

lemma available_update [simp]:
  "available (d\<lparr>dec_phase := p\<rparr>) = available d"
  "available (d\<lparr>dec_current := c\<rparr>) = available d"
  "available (d\<lparr>previous_signature := s\<rparr>) = available d"
  "available (d\<lparr>trailer_bytes := n\<rparr>) = available d"
  "available (d\<lparr>dec_trailers := t\<rparr>) = available d"
  "available (d\<lparr>decoded_bytes := u\<rparr>) = available d"
  "available (d\<lparr>dec_crc32 := h\<rparr>) = available d"
  "available (d\<lparr>dec_crc32c := h\<rparr>) = available d"
  "available (d\<lparr>dec_crc64nvme := h\<rparr>) = available d"
  "available (d\<lparr>dec_sha1 := h\<rparr>) = available d"
  "available (d\<lparr>dec_sha256 := h\<rparr>) = available d"
  by (simp_all add: available_def)

lemma available_advance: "dec_offset d' = dec_offset d + k \<Longrightarrow> dec_input d' = dec_input d
    \<Longrightarrow> available d' = drop k (available d)"
  by (simp add: available_def add.commute)

lemma take_line_Some:
  assumes "take_line d limit t = (d', Inr (Some line))"
  shows "d' = d\<lparr>dec_offset := dec_offset d + (length line + 2)\<rparr>"
    and "find_sub CRLF (available d) = Some (length line)"
    and "length line \<le> limit" and "line = take (length line) (available d)"
    and "length line + 2 \<le> length (available d)"
proof -
  from assms obtain pos where p: "find_sub CRLF (available d) = Some pos" "pos \<le> limit"
    "line = take pos (available d)" and d': "d' = d\<lparr>dec_offset := dec_offset d + pos + 2\<rparr>"
    by (auto simp: take_line_def Let_def split: option.splits if_splits)
  from find_sub_Some [OF p(1)] have l: "pos + 2 \<le> length (available d)" by (auto simp: CRLF_def)
  with p(3) have pos: "length line = pos" by simp
  show "d' = d\<lparr>dec_offset := dec_offset d + (length line + 2)\<rparr>" using d' pos by simp
  show "find_sub CRLF (available d) = Some (length line)" using p(1) pos by simp
  show "length line \<le> limit" using p(2) pos by simp
  show "line = take (length line) (available d)" using p(3) pos by simp
  show "length line + 2 \<le> length (available d)" using l pos by simp
qed

text \<open>What a round that goes on did, by phase.\<close>

lemma open_chunk_continue:
  assumes "open_chunk cr d n sig = (d', out, None)"
  shows "out = [] \<and> dec_offset d' = dec_offset d \<and> dec_input d' = dec_input d"
  using assms by (auto simp: open_chunk_def split: if_splits option.splits sum.splits)

lemma header_step_continue:
  assumes "header_step cr d = (d', out, None)"
  obtains line d1 n sig where
    "take_line d (max_chunk_header_bytes (dec_limits d)) False = (d1, Inr (Some line))"
    and "parse_chunk_header line = Inr (n, sig)"
    and "open_chunk cr d1 n sig = (d', out, None)"
    and "case dec_mode d of Signed _ \<Rightarrow> sig \<noteq> None | UnsignedTrailer _ \<Rightarrow> sig = None"
    and "n \<le> min (max_chunk_bytes (dec_limits d)) MAX_BUFFERED_CHUNK_BYTES"
    and "unat (decoded_bytes d) + n < 2 ^ 64"
    and "\<not> over_limit (dec_limits d) (decoded_bytes d + of_nat n)"
proof -
  obtain d1 r where t: "take_line d (max_chunk_header_bytes (dec_limits d)) False = (d1, r)"
    by (cases "take_line d (max_chunk_header_bytes (dec_limits d)) False") auto
  with assms obtain line where r: "r = Inr (Some line)"
    by (auto simp: header_step_def split: sum.splits option.splits)
  from take_line_Some(1) [OF t [unfolded r]]
  have d1: "dec_limits d1 = dec_limits d" "decoded_bytes d1 = decoded_bytes d" "dec_mode d1 = dec_mode d"
    by simp_all
  from assms obtain n sig where p: "parse_chunk_header line = Inr (n, sig)"
    by (auto simp: header_step_def t r split: sum.splits)
  from assms show thesis
    by (intro that [OF t [unfolded r] p])
      (auto simp: header_step_def t r p d1 checked_add_def u64_try_from_def unat_of_nat
        split: if_splits option.splits AwsChunkedMode.splits)
qed

lemma data_step_continue:
  assumes "data_step d = (d', out, None)"
  obtains c k where "dec_current d = Some c" and "length (cc_data c) \<le> cc_size c"
    and "available d \<noteq> []" and "k = min (cc_size c - length (cc_data c)) (length (available d))"
    and "out = []"
    and "d' = d\<lparr>dec_current := Some (c\<lparr>cc_data := cc_data c @ take k (available d)\<rparr>),
                dec_offset := dec_offset d + k,
                dec_phase := (if length (cc_data c) + k = cc_size c then PDataCrlf else dec_phase d)\<rparr>"
  using assms by (auto simp: data_step_def Let_def split: option.splits if_splits)

lemma accept_decoded_Ok:
  assumes "accept_decoded hs d data = (d', out, Inr u)"
  obtains n where "out = data" and "unat (decoded_bytes d) + length data < 2 ^ 64"
    and "n = decoded_bytes d + of_nat (length data)" and "\<not> over_limit (dec_limits d) n"
    and "d' = d\<lparr>decoded_bytes := n, dec_crc32 := crc32_update hs (dec_crc32 d) data,
                dec_crc32c := crc32c_update hs (dec_crc32c d) data,
                dec_crc64nvme := crc64nvme_update hs (dec_crc64nvme d) data,
                dec_sha1 := sha1_update hs (dec_sha1 d) data,
                dec_sha256 := sha256_hasher_update hs (dec_sha256 d) data\<rparr>"
  using assms
  by (auto simp: accept_decoded_def Let_def checked_add_def u64_try_from_def unat_of_nat
      split: option.splits if_splits)

lemma crlf_step_continue:
  assumes "crlf_step cr hs d = (d', out, None)"
  obtains c d3 d4 where "2 \<le> length (available d)" and "take 2 (available d) = CRLF"
    and "dec_current d = Some c"
    and "case cc_signature c of
           None \<Rightarrow> d3 = d\<lparr>dec_offset := dec_offset d + 2, dec_current := None\<rparr>
         | Some s \<Rightarrow> verify_chunk_signature cr d (cc_data c) s = Some (Inr ())
             \<and> d3 = d\<lparr>dec_offset := dec_offset d + 2, dec_current := None, previous_signature := Some s\<rparr>"
    and "accept_decoded hs d3 (cc_data c) = (d4, out, Inr ())" and "d' = d4\<lparr>dec_phase := PHeader\<rparr>"
proof -
  have v: "verify_chunk_signature cr (d\<lparr>dec_offset := k, dec_current := None\<rparr>) x s
      = verify_chunk_signature cr d x s" for k x s
    by (simp add: verify_chunk_signature_def split: AwsChunkedMode.splits)
  from assms obtain c where c: "2 \<le> length (available d)" "take 2 (available d) = CRLF"
    "dec_current d = Some c"
    by (auto simp: crlf_step_def Let_def split: if_splits option.splits)
  let ?e = "d\<lparr>dec_offset := dec_offset d + 2, dec_current := None\<rparr>"
  show thesis
  proof (cases "cc_signature c")
    case None
    with assms c obtain d4 where "accept_decoded hs ?e (cc_data c) = (d4, out, Inr ())"
      "d' = d4\<lparr>dec_phase := PHeader\<rparr>"
      by (auto simp: crlf_step_def Let_def split: sum.splits prod.splits)
    with c None show thesis by (intro that [of c ?e d4]) simp_all
  next
    case (Some s)
    with assms c obtain d4 where "verify_chunk_signature cr d (cc_data c) s = Some (Inr ())"
      "accept_decoded hs (?e\<lparr>previous_signature := Some s\<rparr>) (cc_data c) = (d4, out, Inr ())"
      "d' = d4\<lparr>dec_phase := PHeader\<rparr>"
      by (auto simp: crlf_step_def Let_def v split: option.splits sum.splits prod.splits)
    with c Some show thesis by (intro that [of c "?e\<lparr>previous_signature := Some s\<rparr>" d4]) simp_all
  qed
qed

lemma accept_trailer_Ok:
  assumes "accept_trailer d line = (d', Inr u)"
  obtains declared n v where "dec_mode d = UnsignedTrailer declared" and "n \<in> set declared"
    and "n \<notin> tr_name ` set (dec_trailers d)"
    and "length (dec_trailers d) < max_trailers (dec_limits d)"
    and "d' = d\<lparr>dec_trailers := dec_trailers d @ [\<lparr>tr_name = n, tr_value = v\<rparr>]\<rparr>"
proof -
  have "\<exists>declared n v. dec_mode d = UnsignedTrailer declared \<and> n \<in> set declared
      \<and> n \<notin> tr_name ` set (dec_trailers d) \<and> length (dec_trailers d) < max_trailers (dec_limits d)
      \<and> d' = d\<lparr>dec_trailers := dec_trailers d @ [\<lparr>tr_name = n, tr_value = v\<rparr>]\<rparr>"
    using assms unfolding accept_trailer_def Let_def list_ex_iff image_iff
    by (simp split: AwsChunkedMode.splits if_splits option.splits) (metis not_le)+
  then show thesis using that by blast
qed

lemma trailer_step_continue:
  assumes "trailer_step hs d = (d', out, None)"
  obtains line d1 where "out = []" and "line \<noteq> []"
    and "take_line d (max_trailer_bytes (dec_limits d)) True = (d1, Inr (Some line))"
    and "trailer_bytes d + length line + 2 < 2 ^ 64"
    and "trailer_bytes d + length line + 2 \<le> max_trailer_bytes (dec_limits d)"
    and "accept_trailer (d1\<lparr>trailer_bytes := trailer_bytes d + (length line + 2)\<rparr>) line = (d', Inr ())"
proof -
  obtain d1 r where t: "take_line d (max_trailer_bytes (dec_limits d)) True = (d1, r)"
    by (cases "take_line d (max_trailer_bytes (dec_limits d)) True") auto
  with assms obtain line where r: "r = Inr (Some line)"
    by (auto simp: trailer_step_def split: sum.splits option.splits)
  from take_line_Some(1) [OF t [unfolded r]]
  have d1: "dec_limits d1 = dec_limits d" "trailer_bytes d1 = trailer_bytes d" by simp_all
  from assms show thesis
    by (intro that [OF _ _ t [unfolded r]])
      (auto simp: trailer_step_def t r d1 Let_def split: if_splits sum.splits prod.splits)
qed

lemma step_measure:
  assumes "decoder_step cr hs d = (d', out, None)"
  shows "(d', d) \<in> measures [\<lambda>d. length (available d), \<lambda>d. phase_rank (dec_phase d)]"
proof (cases "dec_phase d")
  case PHeader
  with assms have "header_step cr d = (d', out, None)" by (simp add: decoder_step_def split: if_splits)
  then obtain line d1 n sig where
    t: "take_line d (max_chunk_header_bytes (dec_limits d)) False = (d1, Inr (Some line))"
    and o: "open_chunk cr d1 n sig = (d', out, None)" by (rule header_step_continue)
  from open_chunk_continue [OF o] take_line_Some(1) [OF t]
  have "available d' = drop (length line + 2) (available d)" by (intro available_advance) simp_all
  with take_line_Some(5) [OF t] show ?thesis by simp arith
next
  case PData
  with assms have "data_step d = (d', out, None)" by (simp add: decoder_step_def split: if_splits)
  then obtain c k where c: "length (cc_data c) \<le> cc_size c" "available d \<noteq> []"
    and k: "k = min (cc_size c - length (cc_data c)) (length (available d))"
    and d': "d' = d\<lparr>dec_current := Some (c\<lparr>cc_data := cc_data c @ take k (available d)\<rparr>),
                dec_offset := dec_offset d + k,
                dec_phase := (if length (cc_data c) + k = cc_size c then PDataCrlf else dec_phase d)\<rparr>"
    by (rule data_step_continue)
  from d' have "available d' = drop k (available d)" by (intro available_advance) simp_all
  with c k d' PData show ?thesis by (cases "k = 0") (auto simp: phase_rank_def min_def split: if_splits)
next
  case PDataCrlf
  with assms have "crlf_step cr hs d = (d', out, None)" by (simp add: decoder_step_def split: if_splits)
  then show ?thesis
    by (rule crlf_step_continue)
      (auto elim!: accept_decoded_Ok simp: available_def split: option.splits)
next
  case PTrailers
  with assms have "trailer_step hs d = (d', out, None)" by (simp add: decoder_step_def split: if_splits)
  then obtain line d1
    where t: "take_line d (max_trailer_bytes (dec_limits d)) True = (d1, Inr (Some line))"
    and a: "accept_trailer (d1\<lparr>trailer_bytes := trailer_bytes d + (length line + 2)\<rparr>) line = (d', Inr ())"
    by (rule trailer_step_continue)
  from a take_line_Some(1) [OF t] have "available d' = drop (length line + 2) (available d)"
    by (auto elim!: accept_trailer_Ok intro!: available_advance)
  with take_line_Some(5) [OF t] show ?thesis by simp arith
next
  case PDone
  with assms show ?thesis by (simp add: decoder_step_def)
qed

function decoder_loop :: "Crypto \<Rightarrow> 'h Hashes \<Rightarrow> 'h AwsChunkedDecoder \<Rightarrow>
  'h AwsChunkedDecoder \<times> bytes \<times> push_result" where
  "decoder_loop cr hs d =
     (case decoder_step cr hs d of
        (d', out, Some r) \<Rightarrow> (d', out, r)
      | (d', out, None) \<Rightarrow> prepend out (decoder_loop cr hs d'))"
  by pat_completeness auto
termination
  by (relation "inv_image (measures [\<lambda>d. length (available d), \<lambda>d. phase_rank (dec_phase d)]) (\<lambda>(cr, hs, d). d)")
    (auto simp: in_inv_image dest: step_measure [OF sym] simp del: in_measures)

declare decoder_loop.simps [simp del]

definition AwsChunkedDecoder_push :: "Crypto \<Rightarrow> 'h Hashes \<Rightarrow> 'h AwsChunkedDecoder \<Rightarrow> bytes \<Rightarrow>
  'h AwsChunkedDecoder \<times> bytes \<times> push_result" where
  "AwsChunkedDecoder_push cr hs d bs =
     (if dec_phase d = PDone
      then (d, [], if bs = [] then Pushed DecodeDone else Failed InputAfterEnd)
      else let d1 = compact d in decoder_loop cr hs (d1\<lparr>dec_input := dec_input d1 @ bs\<rparr>))"

definition AwsChunkedDecoder_finish :: "'h AwsChunkedDecoder \<Rightarrow> ChunkedError + unit" where
  "AwsChunkedDecoder_finish d =
     (case dec_phase d of
        PDone \<Rightarrow> Ok ()
      | PDataCrlf \<Rightarrow> Err MissingChunkTerminator
      | PTrailers \<Rightarrow> Err InvalidTrailer
      | PHeader \<Rightarrow> Err InvalidChunkHeader
      | PData \<Rightarrow> Err InvalidChunkHeader)"

section \<open>Invariant of the decoder\<close>

definition chunk_inv :: "'h AwsChunkedDecoder \<Rightarrow> bool" where
  "chunk_inv d \<longleftrightarrow>
     dec_offset d \<le> length (dec_input d)
     \<and> (case dec_current d of
          None \<Rightarrow> dec_phase d \<notin> {PData, PDataCrlf}
        | Some c \<Rightarrow> length (cc_data c) \<le> cc_size c
            \<and> (dec_phase d = PDataCrlf \<longrightarrow> length (cc_data c) = cc_size c)
            \<and> 0 < cc_size c \<and> cc_size c \<le> MAX_BUFFERED_CHUNK_BYTES
            \<and> cc_size c \<le> max_chunk_bytes (dec_limits d)
            \<and> dec_phase d \<in> {PData, PDataCrlf}
            \<and> unat (decoded_bytes d) + cc_size c < 2 ^ 64
            \<and> \<not> over_limit (dec_limits d) (decoded_bytes d + of_nat (cc_size c))
            \<and> (case dec_mode d of Signed _ \<Rightarrow> cc_signature c \<noteq> None | UnsignedTrailer _ \<Rightarrow> cc_signature c = None))
     \<and> (case dec_mode d of
          Signed _ \<Rightarrow> previous_signature d \<noteq> None \<and> dec_trailers d = []
        | UnsignedTrailer declared \<Rightarrow> previous_signature d = None
            \<and> list_all (\<lambda>t. tr_name t \<in> set declared) (dec_trailers d) \<and> distinct (map tr_name (dec_trailers d)))
     \<and> length (dec_trailers d) \<le> max_trailers (dec_limits d)
     \<and> trailer_bytes d \<le> max_trailer_bytes (dec_limits d)
     \<and> \<not> over_limit (dec_limits d) (decoded_bytes d)"

lemma over_limit_0 [simp]: "\<not> over_limit l 0"
  by (simp add: over_limit_def split: option.splits)

lemma new_inv: "AwsChunkedDecoder_new hs mode limits = Inr d \<Longrightarrow> chunk_inv d"
  by (auto simp: AwsChunkedDecoder_new_def chunk_inv_def split: AwsChunkedMode.splits)

lemma offset_advance:
  "dec_offset d \<le> length (dec_input d) \<Longrightarrow> k \<le> length (available d) \<Longrightarrow>
     dec_offset d + k \<le> length (dec_input d)"
  by (simp add: available_def)

lemma header_step_inv:
  assumes "chunk_inv d" "dec_phase d = PHeader" "header_step cr d = (d', out, None)"
  shows "chunk_inv d'"
proof -
  from assms(3) obtain line d1 n sig where
    t: "take_line d (max_chunk_header_bytes (dec_limits d)) False = (d1, Inr (Some line))"
    and o: "open_chunk cr d1 n sig = (d', out, None)"
    and m: "case dec_mode d of Signed _ \<Rightarrow> sig \<noteq> None | UnsignedTrailer _ \<Rightarrow> sig = None"
    and n: "n \<le> min (max_chunk_bytes (dec_limits d)) MAX_BUFFERED_CHUNK_BYTES"
      "unat (decoded_bytes d) + n < 2 ^ 64" "\<not> over_limit (dec_limits d) (decoded_bytes d + of_nat n)"
    by (rule header_step_continue)
  have "dec_offset d + (length line + 2) \<le> length (dec_input d)"
    using assms(1) take_line_Some(5) [OF t] by (intro offset_advance) (simp_all add: chunk_inv_def)
  with assms(1,2) m n o show ?thesis
    unfolding take_line_Some(1) [OF t]
    by (auto simp: chunk_inv_def open_chunk_def verify_chunk_signature_def
        split: option.splits AwsChunkedMode.splits if_splits sum.splits)
qed

lemma data_step_inv:
  assumes "chunk_inv d" "dec_phase d = PData" "data_step d = (d', out, None)"
  shows "chunk_inv d'"
proof -
  from assms(3) obtain c k where c: "dec_current d = Some c" "length (cc_data c) \<le> cc_size c"
    and k: "k = min (cc_size c - length (cc_data c)) (length (available d))"
    and d': "d' = d\<lparr>dec_current := Some (c\<lparr>cc_data := cc_data c @ take k (available d)\<rparr>),
                dec_offset := dec_offset d + k,
                dec_phase := (if length (cc_data c) + k = cc_size c then PDataCrlf else dec_phase d)\<rparr>"
    by (rule data_step_continue)
  have "dec_offset d + k \<le> length (dec_input d)"
    using assms(1) k by (intro offset_advance) (simp_all add: chunk_inv_def)
  with assms(1,2) c k show ?thesis unfolding d'
    by (auto simp: chunk_inv_def split: AwsChunkedMode.splits)
qed

lemma crlf_step_inv:
  assumes "chunk_inv d" "dec_phase d = PDataCrlf" "crlf_step cr hs d = (d', out, None)"
  shows "chunk_inv d'"
proof -
  from assms(3) obtain c d3 d4 where a: "2 \<le> length (available d)" and c: "dec_current d = Some c"
    and s: "case cc_signature c of
           None \<Rightarrow> d3 = d\<lparr>dec_offset := dec_offset d + 2, dec_current := None\<rparr>
         | Some s \<Rightarrow> verify_chunk_signature cr d (cc_data c) s = Some (Inr ())
             \<and> d3 = d\<lparr>dec_offset := dec_offset d + 2, dec_current := None, previous_signature := Some s\<rparr>"
    and ac: "accept_decoded hs d3 (cc_data c) = (d4, out, Inr ())" and d': "d' = d4\<lparr>dec_phase := PHeader\<rparr>"
    by (rule crlf_step_continue)
  have "dec_offset d + 2 \<le> length (dec_input d)"
    using assms(1) a by (intro offset_advance) (simp_all add: chunk_inv_def)
  with assms(1,2) c s ac show ?thesis unfolding d'
    by (auto simp: chunk_inv_def elim!: accept_decoded_Ok split: option.splits AwsChunkedMode.splits)
qed

lemma trailer_step_inv:
  assumes "chunk_inv d" "dec_phase d = PTrailers" "trailer_step hs d = (d', out, None)"
  shows "chunk_inv d'"
proof -
  from assms(3) obtain line d1
    where t: "take_line d (max_trailer_bytes (dec_limits d)) True = (d1, Inr (Some line))"
    and l: "trailer_bytes d + length line + 2 \<le> max_trailer_bytes (dec_limits d)"
    and a: "accept_trailer (d1\<lparr>trailer_bytes := trailer_bytes d + (length line + 2)\<rparr>) line = (d', Inr ())"
    by (rule trailer_step_continue)
  have "dec_offset d + (length line + 2) \<le> length (dec_input d)"
    using assms(1) take_line_Some(5) [OF t] by (intro offset_advance) (simp_all add: chunk_inv_def)
  with assms(1,2) l a show ?thesis unfolding take_line_Some(1) [OF t]
    by (auto simp: chunk_inv_def elim!: accept_trailer_Ok split: option.splits)
qed

lemma step_inv:
  assumes "chunk_inv d" "decoder_step cr hs d = (d', out, None)"
  shows "chunk_inv d'"
  using assms header_step_inv [OF assms(1), of cr d' out] data_step_inv [OF assms(1), of d' out]
    crlf_step_inv [OF assms(1), of cr hs d' out] trailer_step_inv [OF assms(1), of hs d' out]
  by (cases "dec_phase d") (auto simp: decoder_step_def split: if_splits)

text \<open>A round that stops for more input leaves the state as it is; none panics.\<close>

lemma step_more: "decoder_step cr hs d = (d', out, Some (Pushed NeedMore)) \<Longrightarrow> d' = d \<and> out = []"
  by (auto simp: decoder_step_def header_step_def data_step_def crlf_step_def trailer_step_def
      open_chunk_def take_line_def Let_def
      split: if_splits Phase.splits option.splits sum.splits prod.splits AwsChunkedMode.splits)

lemma step_no_panic:
  assumes "chunk_inv d"
  shows "decoder_step cr hs d \<noteq> (d', out, Some Panicked)"
proof (cases "dec_phase d")
  case PHeader
  show ?thesis
  proof
    assume "decoder_step cr hs d = (d', out, Some Panicked)"
    with PHeader assms have h: "header_step cr d = (d', out, Some Panicked)"
      by (simp add: decoder_step_def chunk_inv_def split: if_splits)
    obtain d1 r where t: "take_line d (max_chunk_header_bytes (dec_limits d)) False = (d1, r)"
      by (cases "take_line d (max_chunk_header_bytes (dec_limits d)) False") auto
    with h obtain line where r: "r = Inr (Some line)"
      by (auto simp: header_step_def split: sum.splits option.splits)
    from take_line_Some(1) [OF t [unfolded r]] assms h show False
      by (auto simp: header_step_def t r chunk_inv_def open_chunk_def verify_chunk_signature_def
          split: sum.splits option.splits if_splits AwsChunkedMode.splits)
  qed
next
  case PDataCrlf
  with assms obtain c where "dec_current d = Some c" by (auto simp: chunk_inv_def split: option.splits)
  with assms PDataCrlf show ?thesis
    by (auto simp: decoder_step_def crlf_step_def chunk_inv_def Let_def verify_chunk_signature_def
        split: if_splits option.splits sum.splits prod.splits AwsChunkedMode.splits)
qed (use assms in \<open>auto simp: decoder_step_def data_step_def trailer_step_def chunk_inv_def Let_def
    take_line_def split: if_splits option.splits sum.splits prod.splits\<close>)

lemma step_done_phase:
  "decoder_step cr hs d = (d', out, Some (Pushed DecodeDone)) \<Longrightarrow> dec_phase d' = PDone"
  by (auto simp: decoder_step_def header_step_def data_step_def crlf_step_def trailer_step_def
      open_chunk_def take_line_def Let_def
      split: if_splits Phase.splits option.splits sum.splits prod.splits AwsChunkedMode.splits)

lemma loop_cases:
  assumes "decoder_loop cr hs d = (d', out, r)"
  obtains (stop) "decoder_step cr hs d = (d', out, Some r)"
  | (continue) d1 o1 o2 where "decoder_step cr hs d = (d1, o1, None)"
      and "decoder_loop cr hs d1 = (d', o2, r)" and "out = o1 @ o2"
  using assms unfolding decoder_loop.simps [of cr hs d]
  by (auto simp: prepend_def split: prod.splits option.splits)

text \<open>Rule induction over the rounds of a loop that ends in the given outcome.\<close>

lemma loop_induct [consumes 1, case_names stop continue]:
  assumes "decoder_loop cr hs d = (d', out, r)"
    and "\<And>d out. decoder_step cr hs d = (d', out, Some r) \<Longrightarrow> P d out"
    and "\<And>d d1 o1 o2. decoder_step cr hs d = (d1, o1, None) \<Longrightarrow> decoder_loop cr hs d1 = (d', o2, r)
      \<Longrightarrow> P d1 o2 \<Longrightarrow> P d (o1 @ o2)"
  shows "P d out"
  using assms(1)
proof (induction cr\<equiv>cr hs\<equiv>hs d arbitrary: out rule: decoder_loop.induct)
  case (1 d)
  from 1(2) show ?case
  proof (cases rule: loop_cases)
    case stop
    then show ?thesis by (rule assms(2))
  next
    case (continue d1 o1 o2)
    with 1(1) [of d1 "(o1, None)" o1 None] show ?thesis by (auto intro: assms(3))
  qed
qed

end
