(* ===== verification/ChunkedFeed.thy ===== *)
theory ChunkedFeed
  imports Chunked
begin

text \<open>
  How the decoder of \<^verbatim>\<open>protocol/chunked.rs\<close> reacts to the fragments of a body: the buffer lemmas, the
  decoder as an instance of the \<open>incremental\<close> contract, and the properties of a whole body.
\<close>

section \<open>Fragmentation of the encoded body\<close>

text \<open>The consumed prefix of the buffer, and so \<^verbatim>\<open>compact\<close>, is invisible.\<close>

definition dec_view :: "'h AwsChunkedDecoder \<Rightarrow> 'h AwsChunkedDecoder" where
  "dec_view d = d\<lparr>dec_input := available d, dec_offset := 0\<rparr>"

text \<open>The same decoder with more consumed bytes before its buffer and more input after it.\<close>

definition rebuf :: "bytes \<Rightarrow> bytes \<Rightarrow> 'h AwsChunkedDecoder \<Rightarrow> 'h AwsChunkedDecoder" where
  "rebuf p b d = d\<lparr>dec_input := p @ dec_input d @ b, dec_offset := length p + dec_offset d\<rparr>"

lemma rebuf_simps [simp]:
  "dec_mode (rebuf p b d) = dec_mode d" "dec_limits (rebuf p b d) = dec_limits d"
  "dec_phase (rebuf p b d) = dec_phase d" "dec_current (rebuf p b d) = dec_current d"
  "decoded_bytes (rebuf p b d) = decoded_bytes d" "dec_trailers (rebuf p b d) = dec_trailers d"
  "trailer_bytes (rebuf p b d) = trailer_bytes d" "previous_signature (rebuf p b d) = previous_signature d"
  "dec_crc32 (rebuf p b d) = dec_crc32 d" "dec_crc32c (rebuf p b d) = dec_crc32c d"
  "dec_crc64nvme (rebuf p b d) = dec_crc64nvme d" "dec_sha1 (rebuf p b d) = dec_sha1 d"
  "dec_sha256 (rebuf p b d) = dec_sha256 d" "dec_offset (rebuf p b d) = length p + dec_offset d"
  "dec_input (rebuf p b d) = p @ dec_input d @ b"
  by (simp_all add: rebuf_def)

lemma rebuf_update:
  "rebuf p b d\<lparr>dec_phase := ph\<rparr> = rebuf p b (d\<lparr>dec_phase := ph\<rparr>)"
  "rebuf p b d\<lparr>dec_current := c\<rparr> = rebuf p b (d\<lparr>dec_current := c\<rparr>)"
  "rebuf p b d\<lparr>previous_signature := s\<rparr> = rebuf p b (d\<lparr>previous_signature := s\<rparr>)"
  "rebuf p b d\<lparr>trailer_bytes := n\<rparr> = rebuf p b (d\<lparr>trailer_bytes := n\<rparr>)"
  "rebuf p b d\<lparr>dec_trailers := t\<rparr> = rebuf p b (d\<lparr>dec_trailers := t\<rparr>)"
  "rebuf p b d\<lparr>decoded_bytes := u\<rparr> = rebuf p b (d\<lparr>decoded_bytes := u\<rparr>)"
  "rebuf p b d\<lparr>dec_crc32 := h\<rparr> = rebuf p b (d\<lparr>dec_crc32 := h\<rparr>)"
  "rebuf p b d\<lparr>dec_crc32c := h\<rparr> = rebuf p b (d\<lparr>dec_crc32c := h\<rparr>)"
  "rebuf p b d\<lparr>dec_crc64nvme := h\<rparr> = rebuf p b (d\<lparr>dec_crc64nvme := h\<rparr>)"
  "rebuf p b d\<lparr>dec_sha1 := h\<rparr> = rebuf p b (d\<lparr>dec_sha1 := h\<rparr>)"
  "rebuf p b d\<lparr>dec_sha256 := h\<rparr> = rebuf p b (d\<lparr>dec_sha256 := h\<rparr>)"
  "rebuf p b d\<lparr>dec_offset := length p + k\<rparr> = rebuf p b (d\<lparr>dec_offset := k\<rparr>)"
  by (simp_all add: rebuf_def)

lemma available_rebuf: "dec_offset d \<le> length (dec_input d) \<Longrightarrow> available (rebuf p b d) = available d @ b"
  by (simp add: available_def)

lemma rebuf_eq_view: "dec_offset d \<le> length (dec_input d) \<Longrightarrow> d = rebuf (take (dec_offset d) (dec_input d)) [] (dec_view d)"
  by (simp add: rebuf_def dec_view_def available_def)

lemma view_rebuf:
  "dec_offset d \<le> length (dec_input d) \<Longrightarrow> dec_view (rebuf p b d) = rebuf [] b (dec_view d)"
  by (simp add: rebuf_def dec_view_def available_def)

lemma take_line_rebuf:
  assumes "dec_offset d \<le> length (dec_input d)" "take_line d l t = (d', Inr (Some line))"
  shows "take_line (rebuf p b d) l t = (rebuf p b d', Inr (Some line))"
proof -
  note t = take_line_Some [OF assms(2)]
  have f: "find_sub CRLF (available d @ b) = Some (length line)" by (rule find_sub_append [OF t(2)])
  have "take (length line) (available d) = line" using t(4) by simp
  moreover have "rebuf p b d\<lparr>dec_offset := length p + dec_offset d + length line + 2\<rparr>
      = rebuf p b (d\<lparr>dec_offset := dec_offset d + (length line + 2)\<rparr>)"
    by (simp add: rebuf_def add.assoc)
  ultimately show ?thesis
    using t(1,3,5) by (simp add: take_line_def available_rebuf [OF assms(1)] f del: add_2_eq_Suc')
qed

lemma verify_cong:
  "dec_mode e = dec_mode d \<Longrightarrow> previous_signature e = previous_signature d \<Longrightarrow>
     verify_chunk_signature cr e x s = verify_chunk_signature cr d x s"
  by (simp add: verify_chunk_signature_def split: AwsChunkedMode.splits)

lemma open_chunk_rebuf:
  "open_chunk cr d n sig = (d', out, r) \<Longrightarrow> open_chunk cr (rebuf p b d) n sig = (rebuf p b d', out, r)"
  by (auto simp: open_chunk_def rebuf_update verify_cong [of "rebuf p b d" d]
      split: if_splits option.splits sum.splits)

lemma accept_decoded_rebuf:
  "accept_decoded hs d x = (d', out, r) \<Longrightarrow> accept_decoded hs (rebuf p b d) x = (rebuf p b d', out, r)"
  by (auto simp: accept_decoded_def Let_def rebuf_update split: if_splits option.splits)

lemma accept_trailer_rebuf:
  "accept_trailer d line = (d', r) \<Longrightarrow> accept_trailer (rebuf p b d) line = (rebuf p b d', r)"
  by (auto simp: accept_trailer_def Let_def rebuf_update split: if_splits option.splits AwsChunkedMode.splits)

lemma finish_trailers_cong:
  assumes "dec_mode e = dec_mode d" "dec_limits e = dec_limits d" "decoded_bytes e = decoded_bytes d"
    "dec_trailers e = dec_trailers d" "dec_crc32 e = dec_crc32 d" "dec_crc32c e = dec_crc32c d"
    "dec_crc64nvme e = dec_crc64nvme d" "dec_sha1 e = dec_sha1 d" "dec_sha256 e = dec_sha256 d"
  shows "finish_trailers hs e = finish_trailers hs d"
proof -
  have c: "check_trailer hs e = check_trailer hs d"
    using assms by (intro ext) (simp add: check_trailer_def calculated_checksum_def)
  have "check_trailers hs e ns = check_trailers hs d ns" for ns by (induction ns) (simp_all add: c)
  then show ?thesis using assms
    by (simp add: finish_trailers_def split: AwsChunkedMode.splits option.splits)
qed

text \<open>A round that goes on goes on in the same way when the buffer is longer, unless it empties
  the buffer into an incomplete chunk.\<close>

lemma header_step_rebuf:
  assumes "dec_offset d \<le> length (dec_input d)" "header_step cr d = (d', out, None)"
  shows "header_step cr (rebuf p b d) = (rebuf p b d', out, None)"
proof -
  from assms(2) obtain line d1 n sig where
    t: "take_line d (max_chunk_header_bytes (dec_limits d)) False = (d1, Inr (Some line))"
    and ph: "parse_chunk_header line = Inr (n, sig)"
    and o: "open_chunk cr d1 n sig = (d', out, None)" by (rule header_step_continue)
  from take_line_Some(1) [OF t]
  have d1: "dec_limits d1 = dec_limits d" "decoded_bytes d1 = decoded_bytes d" "dec_mode d1 = dec_mode d"
    by simp_all
  from assms(2) show ?thesis
    by (auto simp: header_step_def t take_line_rebuf [OF assms(1) t] ph d1 intro: open_chunk_rebuf
        split: if_splits option.splits AwsChunkedMode.splits)
qed

lemma data_step_rebuf:
  assumes "dec_offset d \<le> length (dec_input d)" "data_step d = (d', out, None)"
    and "b = [] \<or> dec_phase d' = PDataCrlf" and "dec_phase d = PData"
  shows "data_step (rebuf p b d) = (rebuf p b d', out, None)"
proof -
  from assms(2) obtain c k where c: "dec_current d = Some c" "length (cc_data c) \<le> cc_size c"
    "available d \<noteq> []" and k: "k = min (cc_size c - length (cc_data c)) (length (available d))"
    and o: "out = []"
    and d': "d' = d\<lparr>dec_current := Some (c\<lparr>cc_data := cc_data c @ take k (available d)\<rparr>),
                dec_offset := dec_offset d + k,
                dec_phase := (if length (cc_data c) + k = cc_size c then PDataCrlf else dec_phase d)\<rparr>"
    by (rule data_step_continue)
  have k': "min (cc_size c - length (cc_data c)) (length (available d) + length b) = k"
    using assms(3,4) k c(2) d' by (auto split: if_splits)
  have t: "k - length (available d) = 0" "min (length (available d)) k = k" using k by simp_all
  have e: "rebuf p b x\<lparr>dec_offset := length p + dec_offset d + k\<rparr>
      = rebuf p b (x\<lparr>dec_offset := dec_offset d + k\<rparr>)" for x :: "'a AwsChunkedDecoder"
    by (simp add: rebuf_def)
  show ?thesis
    using c assms(4) unfolding data_step_def d' o
    by (simp add: available_rebuf [OF assms(1)] k' t e rebuf_update Let_def)
qed

lemma crlf_step_rebuf:
  assumes "dec_offset d \<le> length (dec_input d)" "crlf_step cr hs d = (d', out, None)"
  shows "crlf_step cr hs (rebuf p b d) = (rebuf p b d', out, None)"
proof -
  from assms(2) obtain c d3 d4 where a: "2 \<le> length (available d)" "take 2 (available d) = CRLF"
    and c: "dec_current d = Some c"
    and s: "case cc_signature c of
           None \<Rightarrow> d3 = d\<lparr>dec_offset := dec_offset d + 2, dec_current := None\<rparr>
         | Some s \<Rightarrow> verify_chunk_signature cr d (cc_data c) s = Some (Inr ())
             \<and> d3 = d\<lparr>dec_offset := dec_offset d + 2, dec_current := None, previous_signature := Some s\<rparr>"
    and ac: "accept_decoded hs d3 (cc_data c) = (d4, out, Inr ())" and d': "d' = d4\<lparr>dec_phase := PHeader\<rparr>"
    by (rule crlf_step_continue)
  note r = accept_decoded_rebuf [OF ac, of p b]
  have e: "rebuf p b d\<lparr>dec_offset := length p + dec_offset d + 2, dec_current := None\<rparr>
      = rebuf p b (d\<lparr>dec_offset := dec_offset d + 2, dec_current := None\<rparr>)"
    by (simp add: rebuf_def)
  have v: "verify_chunk_signature cr (rebuf p b (d\<lparr>dec_offset := dec_offset d + 2, dec_current := None\<rparr>)) x y
      = verify_chunk_signature cr d x y" for x y by (rule verify_cong) simp_all
  show ?thesis
    using a c s r unfolding crlf_step_def available_rebuf [OF assms(1)] rebuf_simps e Let_def d'
    by (cases "cc_signature c") (simp_all add: e v rebuf_update available_rebuf [OF assms(1)] del: add_2_eq_Suc')
qed

lemma trailer_step_rebuf:
  assumes "dec_offset d \<le> length (dec_input d)" "trailer_step hs d = (d', out, None)"
  shows "trailer_step hs (rebuf p b d) = (rebuf p b d', out, None)"
proof -
  from assms(2) obtain line d1 where o: "out = []" and n: "line \<noteq> []"
    and t: "take_line d (max_trailer_bytes (dec_limits d)) True = (d1, Inr (Some line))"
    and l: "trailer_bytes d + length line + 2 < 2 ^ 64"
      "trailer_bytes d + length line + 2 \<le> max_trailer_bytes (dec_limits d)"
    and a: "accept_trailer (d1\<lparr>trailer_bytes := trailer_bytes d + (length line + 2)\<rparr>) line = (d', Inr ())"
    by (rule trailer_step_continue)
  from take_line_Some(1) [OF t] have "dec_limits d1 = dec_limits d" "trailer_bytes d1 = trailer_bytes d" by simp_all
  with o n l accept_trailer_rebuf [OF a, of p b] show ?thesis
    by (simp add: trailer_step_def take_line_rebuf [OF assms(1) t] Let_def rebuf_update)
qed

lemma step_rebuf:
  assumes "dec_offset d \<le> length (dec_input d)" "decoder_step cr hs d = (d', out, None)"
    and "b = [] \<or> dec_phase d \<noteq> PData \<or> dec_phase d' = PDataCrlf"
  shows "decoder_step cr hs (rebuf p b d) = (rebuf p b d', out, None)"
  using assms header_step_rebuf [OF assms(1), of cr d' out p b] crlf_step_rebuf [OF assms(1), of cr hs d' out p b]
    trailer_step_rebuf [OF assms(1), of hs d' out p b] data_step_rebuf [OF assms(1), of d' out b p]
  by (cases "dec_phase d") (auto simp: decoder_step_def)

lemma available_shift [simp]: "available (rebuf p [] d) = available d"
  by (simp add: available_def)

lemma view_shift [simp]: "dec_view (rebuf p [] d) = dec_view d"
  by (simp add: dec_view_def rebuf_def available_def)

lemma take_line_shift:
  assumes "take_line d l t = (d', r)"
  shows "take_line (rebuf p [] d) l t = (rebuf p [] d', r)"
proof -
  have e: "rebuf p [] d\<lparr>dec_offset := length p + dec_offset d + k + 2\<rparr>
      = rebuf p [] (d\<lparr>dec_offset := dec_offset d + k + 2\<rparr>)" for k by (simp add: rebuf_def add.assoc)
  show ?thesis using assms
    by (auto simp: take_line_def Let_def e simp del: add_2_eq_Suc' split: option.splits if_splits)
qed

lemma header_step_shift:
  assumes "header_step cr d = (d', out, r)"
  shows "header_step cr (rebuf p [] d) = (rebuf p [] d', out, r)"
proof -
  obtain d1 l where t: "take_line d (max_chunk_header_bytes (dec_limits d)) False = (d1, l)"
    by (cases "take_line d (max_chunk_header_bytes (dec_limits d)) False") auto
  from assms show ?thesis
    by (auto simp: header_step_def t take_line_shift [OF t] intro: open_chunk_rebuf
        split: sum.splits option.splits if_splits AwsChunkedMode.splits)
qed

lemma crlf_step_shift:
  assumes "crlf_step cr hs d = (d', out, r)"
  shows "crlf_step cr hs (rebuf p [] d) = (rebuf p [] d', out, r)"
proof -
  have e: "rebuf p [] d\<lparr>dec_offset := length p + dec_offset d + 2\<rparr>
      = rebuf p [] (d\<lparr>dec_offset := dec_offset d + 2\<rparr>)"
    by (simp add: rebuf_def)
  have v: "verify_chunk_signature cr (rebuf p [] x) = verify_chunk_signature cr x"
    for x :: "'a AwsChunkedDecoder" by (intro ext verify_cong) simp_all
  have a: "accept_decoded hs (rebuf p [] x) y = map_prod (rebuf p []) id (accept_decoded hs x y)"
    for x :: "'a AwsChunkedDecoder" and y
    by (cases "accept_decoded hs x y") (simp add: accept_decoded_rebuf)
  from assms show ?thesis unfolding crlf_step_def Let_def rebuf_simps e
    by (auto simp: v a rebuf_update simp del: add_2_eq_Suc'
        split: if_splits option.splits sum.splits prod.splits)
qed

lemma trailer_step_shift:
  assumes "trailer_step hs d = (d', out, r)"
  shows "trailer_step hs (rebuf p [] d) = (rebuf p [] d', out, r)"
proof -
  obtain d1 l where t: "take_line d (max_trailer_bytes (dec_limits d)) True = (d1, l)"
    by (cases "take_line d (max_trailer_bytes (dec_limits d)) True") auto
  have f: "finish_trailers hs (rebuf p [] x) = finish_trailers hs x" for x :: "'a AwsChunkedDecoder"
    by (rule finish_trailers_cong) simp_all
  from assms show ?thesis
    by (auto simp: trailer_step_def t take_line_shift [OF t] Let_def rebuf_update f
        dest: accept_trailer_rebuf [of _ _ _ _ p "[]"]
        split: sum.splits option.splits if_splits prod.splits)
qed

lemma data_step_shift:
  assumes "data_step d = (d', out, r)"
  shows "data_step (rebuf p [] d) = (rebuf p [] d', out, r)"
proof -
  have e: "rebuf p [] x\<lparr>dec_offset := length p + dec_offset d + k\<rparr>
      = rebuf p [] (x\<lparr>dec_offset := dec_offset d + k\<rparr>)" for x :: "'a AwsChunkedDecoder" and k
    by (simp add: rebuf_def)
  from assms show ?thesis
    by (auto simp: data_step_def Let_def rebuf_update e split: option.splits if_splits)
qed

lemma step_shift:
  "decoder_step cr hs d = (d', out, r) \<Longrightarrow> decoder_step cr hs (rebuf p [] d) = (rebuf p [] d', out, r)"
  using header_step_shift [of cr d d' out r p] data_step_shift [of d d' out r p]
    crlf_step_shift [of cr hs d d' out r p] trailer_step_shift [of hs d d' out r p]
  by (cases "dec_phase d") (auto simp: decoder_step_def split: if_splits)

lemma loop_stop: "decoder_step cr hs d = (d', out, Some r) \<Longrightarrow> decoder_loop cr hs d = (d', out, r)"
  by (simp add: decoder_loop.simps [of cr hs d])

lemma loop_continue:
  "decoder_step cr hs d = (d1, out, None) \<Longrightarrow> decoder_loop cr hs d = prepend out (decoder_loop cr hs d1)"
  by (simp add: decoder_loop.simps [of cr hs d])

lemma loop_shift:
  "decoder_loop cr hs d = (d', out, r) \<Longrightarrow> decoder_loop cr hs (rebuf p [] d) = (rebuf p [] d', out, r)"
proof (induction rule: loop_induct)
  case (continue d d1 o1 o2)
  from loop_continue [OF step_shift [OF continue(1), of p]] continue(3) show ?case
    by (simp add: prepend_def)
qed (intro loop_stop step_shift)

text \<open>A round that empties the buffer into an incomplete chunk and stops does, with more input,
  what the two rounds do in sequence.\<close>

lemma data_step_split:
  assumes "dec_offset d \<le> length (dec_input d)" "dec_phase d = PData"
    and "data_step d = (d1, o1, None)" and "dec_phase d1 \<noteq> PDataCrlf" and "b \<noteq> []"
  shows "data_step (rebuf [] b d) = data_step (rebuf [] b d1)" and "available d1 = []"
    and "dec_phase d1 = PData" and "o1 = []" and "dec_offset d1 \<le> length (dec_input d1)"
    and "decoder_step cr hs d1 = (d1, [], Some (Pushed NeedMore))"
proof -
  from assms(3) obtain c k where c: "dec_current d = Some c" "length (cc_data c) \<le> cc_size c"
    and k: "k = min (cc_size c - length (cc_data c)) (length (available d))" and o: "o1 = []"
    and d1: "d1 = d\<lparr>dec_current := Some (c\<lparr>cc_data := cc_data c @ take k (available d)\<rparr>),
                dec_offset := dec_offset d + k,
                dec_phase := (if length (cc_data c) + k = cc_size c then PDataCrlf else dec_phase d)\<rparr>"
    by (rule data_step_continue)
  with assms(4) have n: "length (cc_data c) + k \<noteq> cc_size c" by auto
  with k c(2) have kl: "k = length (available d)" "k < cc_size c - length (cc_data c)" by auto
  with d1 n assms(2) have d1': "d1 = d\<lparr>dec_current := Some (c\<lparr>cc_data := cc_data c @ available d\<rparr>),
      dec_offset := length (dec_input d)\<rparr>"
    using assms(1) by (simp add: available_def)
  show a: "available d1 = []" by (simp add: d1' available_def)
  show o1: "o1 = []" by (rule o)
  show ph: "dec_phase d1 = PData" using assms(2) by (simp add: d1')
  show off: "dec_offset d1 \<le> length (dec_input d1)" by (simp add: d1')
  show "decoder_step cr hs d1 = (d1, [], Some (Pushed NeedMore))"
    using kl off a by (simp add: decoder_step_def ph data_step_def) (simp add: d1')
  have cur: "dec_current d1 = Some (c\<lparr>cc_data := cc_data c @ available d\<rparr>)" by (simp add: d1')
  have m: "min (cc_size c - length (cc_data c)) (length (available d) + length b)
      = length (available d) + min (cc_size c - (length (cc_data c) + length (available d))) (length b)"
    using kl by auto
  have le: "\<not> cc_size c < length (cc_data c)" "\<not> cc_size c < length (cc_data c) + length (available d)"
    using kl c(2) by auto
  have "length (dec_input d) = dec_offset d + length (available d)" using assms(1) by (simp add: available_def)
  then show "data_step (rebuf [] b d) = data_step (rebuf [] b d1)"
    using assms(5) unfolding data_step_def available_rebuf [OF assms(1)] available_rebuf [OF off]
    by (simp add: c cur a m le Let_def) (simp add: d1' rebuf_def add.assoc)
qed

lemma loop_inv:
  "decoder_loop cr hs d = (d', out, r) \<Longrightarrow> r = Pushed NeedMore \<Longrightarrow> chunk_inv d \<Longrightarrow> chunk_inv d'"
  by (induction rule: loop_induct) (auto dest: step_more step_inv)

lemma loop_no_panic: "decoder_loop cr hs d = (d', out, r) \<Longrightarrow> chunk_inv d \<Longrightarrow> r \<noteq> Panicked"
proof (induction rule: loop_induct)
  case (stop d out)
  with step_no_panic [OF stop(2), of cr hs d' out] show ?case by auto
qed (auto dest: step_inv)

lemma loop_extend:
  "decoder_loop cr hs d = (d', out, r) \<Longrightarrow> r = Pushed NeedMore \<Longrightarrow> chunk_inv d \<Longrightarrow>
     decoder_loop cr hs (rebuf [] b d) = prepend out (decoder_loop cr hs (rebuf [] b d'))"
proof (induction rule: loop_induct)
  case (stop d out)
  then show ?case using step_more by fastforce
next
  case (continue d d1 o1 o2)
  from continue have off: "dec_offset d \<le> length (dec_input d)" by (simp add: chunk_inv_def)
  from step_inv [OF continue(5,1)] continue(3,4)
  have IH: "decoder_loop cr hs (rebuf [] b d1) = prepend o2 (decoder_loop cr hs (rebuf [] b d'))" by blast
  show ?case
  proof (cases "b = [] \<or> dec_phase d \<noteq> PData \<or> dec_phase d1 = PDataCrlf")
    case True
    from loop_continue [OF step_rebuf [OF off continue(1) True, of "[]"]] IH show ?thesis
      by simp
  next
    case False
    with continue(1) off have ds: "data_step d = (d1, o1, None)" by (simp add: decoder_step_def)
    from False have p: "dec_phase d = PData" "dec_phase d1 \<noteq> PDataCrlf" "b \<noteq> []" by simp_all
    note sp = data_step_split [OF off p(1) ds p(2,3)]
    from loop_stop [OF sp(6)] continue(2) have d': "d' = d1" "o2 = []" by simp_all
    have "decoder_step cr hs (rebuf [] b d) = decoder_step cr hs (rebuf [] b d1)"
      using sp(1,3,5) p(1) off by (simp add: decoder_step_def)
    then have "decoder_loop cr hs (rebuf [] b d) = decoder_loop cr hs (rebuf [] b d1)"
      by (simp only: decoder_loop.simps [of cr hs "rebuf [] b d"] decoder_loop.simps [of cr hs "rebuf [] b d1"])
    with d' sp(4) show ?thesis by (simp add: prepend_def)
  qed
qed

lemma compact_shift:
  assumes "dec_offset d \<le> length (dec_input d)"
  obtains p where "d = rebuf p [] (compact d)"
proof (cases "compact d = d")
  case True
  then show thesis by (intro that [of "[]"]) (simp add: rebuf_def)
next
  case False
  with assms show thesis by (intro that [of "take (dec_offset d) (dec_input d)"])
    (auto simp: rebuf_def compact_def split: if_splits)
qed

lemma compact_simps [simp]: "dec_phase (compact d) = dec_phase d" "available (compact d) = available d"
  "dec_mode (compact d) = dec_mode d" "dec_limits (compact d) = dec_limits d"
  by (simp_all add: compact_def available_def)

lemma compact_inv: "chunk_inv d \<Longrightarrow> chunk_inv (rebuf [] a (compact d))"
  by (auto simp: chunk_inv_def compact_def split: option.splits AwsChunkedMode.splits)

lemma push_loop:
  "dec_phase d \<noteq> PDone \<Longrightarrow> AwsChunkedDecoder_push cr hs d a = decoder_loop cr hs (rebuf [] a (compact d))"
  by (simp add: AwsChunkedDecoder_push_def rebuf_def Let_def)

definition chunk_more :: "push_result \<Rightarrow> bool" where
  "chunk_more r \<longleftrightarrow> r = Pushed NeedMore"

lemma push_more_phase:
  assumes "AwsChunkedDecoder_push cr hs d a = (d', out, r)" "chunk_more r"
  shows "dec_phase d \<noteq> PDone"
  using assms by (auto simp: AwsChunkedDecoder_push_def chunk_more_def split: if_splits)

lemma loop_more_phase:
  "decoder_loop cr hs d = (d', out, r) \<Longrightarrow> r = Pushed NeedMore \<Longrightarrow> dec_phase d' \<noteq> PDone"
proof (induction rule: loop_induct)
  case (stop d out)
  then show ?case using step_more [of cr hs d d' out] by (auto simp: decoder_step_def)
qed

interpretation body: incremental "AwsChunkedDecoder_push cr hs" chunk_more dec_view chunk_inv
proof
  fix d :: "'a AwsChunkedDecoder" and a d' out r
  assume inv: "chunk_inv d" and p: "AwsChunkedDecoder_push cr hs d a = (d', out, r)" and m: "chunk_more r"
  from push_more_phase [OF p m] have ph: "dec_phase d \<noteq> PDone" .
  from p have l: "decoder_loop cr hs (rebuf [] a (compact d)) = (d', out, r)" by (simp only: push_loop [OF ph])
  from m have r: "r = Pushed NeedMore" by (simp add: chunk_more_def)
  show "chunk_inv d'" by (rule loop_inv [OF l r compact_inv [OF inv]])
  fix b
  have e: "rebuf [] (a @ b) (compact d) = rebuf [] b (rebuf [] a (compact d))" by (simp add: rebuf_def)
  have ph': "dec_phase d' \<noteq> PDone" by (rule loop_more_phase [OF l r])
  from loop_inv [OF l r compact_inv [OF inv]] have "dec_offset d' \<le> length (dec_input d')"
    by (simp add: chunk_inv_def)
  then obtain q where q: "d' = rebuf q [] (compact d')" by (rule compact_shift)
  have "rebuf [] b (rebuf q [] x) = rebuf q [] (rebuf [] b x)" for x :: "'a AwsChunkedDecoder"
    by (simp add: rebuf_def)
  from arg_cong [OF q, of "rebuf [] b", unfolded this]
  have "rebuf [] b d' = rebuf q [] (rebuf [] b (compact d'))" .
  with loop_shift [of cr hs "rebuf [] b (compact d')" _ _ _ q]
  have "outcome dec_view (decoder_loop cr hs (rebuf [] b d'))
      = outcome dec_view (decoder_loop cr hs (rebuf [] b (compact d')))"
    by (cases "decoder_loop cr hs (rebuf [] b (compact d'))") simp
  then show "outcome dec_view (AwsChunkedDecoder_push cr hs d (a @ b)) =
     prepend out (outcome dec_view (AwsChunkedDecoder_push cr hs d' b))"
    unfolding push_loop [OF ph] push_loop [OF ph'] e loop_extend [OF l r compact_inv [OF inv]]
    by (simp add: outcome_prepend)
qed

end
