(* ===== verification/ChunkedBody.thy ===== *)
theory ChunkedBody
  imports ChunkedFeed
begin

text \<open>
  The properties of a whole \<^verbatim>\<open>aws-chunked\<close> body: what has been delivered is authenticated, counted and
  hashed, and every well-formed body is accepted.
\<close>

section \<open>What the decoder has delivered\<close>

text \<open>The running digests: hashing a body in pieces is hashing their concatenation.\<close>

definition hashes_incremental :: "'h Hashes \<Rightarrow> bool" where
  "hashes_incremental hs \<longleftrightarrow>
     (\<forall>s a b. crc32_update hs (crc32_update hs s a) b = crc32_update hs s (a @ b))
     \<and> (\<forall>s a b. crc32c_update hs (crc32c_update hs s a) b = crc32c_update hs s (a @ b))
     \<and> (\<forall>s a b. crc64nvme_update hs (crc64nvme_update hs s a) b = crc64nvme_update hs s (a @ b))
     \<and> (\<forall>s a b. sha1_update hs (sha1_update hs s a) b = sha1_update hs s (a @ b))
     \<and> (\<forall>s a b. sha256_hasher_update hs (sha256_hasher_update hs s a) b = sha256_hasher_update hs s (a @ b))
     \<and> (\<forall>s. crc32_update hs s [] = s \<and> crc32c_update hs s [] = s \<and> crc64nvme_update hs s [] = s
          \<and> sha1_update hs s [] = s \<and> sha256_hasher_update hs s [] = s)"

definition hashed :: "'h Hashes \<Rightarrow> 'h AwsChunkedDecoder \<Rightarrow> bytes \<Rightarrow> bool" where
  "hashed hs d t \<longleftrightarrow>
     dec_crc32 d = crc32_update hs (crc32_new hs) t
     \<and> dec_crc32c d = crc32c_update hs (crc32c_new hs) t
     \<and> dec_crc64nvme d = crc64nvme_update hs (crc64nvme_new hs) t
     \<and> dec_sha1 d = sha1_update hs (sha1_new hs) t
     \<and> dec_sha256 d = sha256_hasher_update hs (sha256_new hs) t"

text \<open>A chain of chunks in which every signature covers its predecessor and its own data.\<close>

fun signed_chain :: "Crypto \<Rightarrow> StreamingSigningContext \<Rightarrow> bytes \<Rightarrow> (bytes \<times> bytes) list \<Rightarrow> bytes \<Rightarrow> bool" where
  "signed_chain cr context previous [] final \<longleftrightarrow> final = previous"
| "signed_chain cr context previous ((data, signature) # chunks) final \<longleftrightarrow>
     hmac_sha256 cr (ctx_signing_key context) (chunk_string_to_sign cr context previous data) = signature
     \<and> signed_chain cr context signature chunks final"

lemma signed_chain_snoc:
  "signed_chain cr c p (chunks @ [(data, s)]) q \<longleftrightarrow>
     (\<exists>m. signed_chain cr c p chunks m \<and> q = s
        \<and> hmac_sha256 cr (ctx_signing_key c) (chunk_string_to_sign cr c m data) = s)"
  by (induction chunks arbitrary: p) auto

definition closed_chunks :: "(bytes \<times> bytes) list \<Rightarrow> bool" where
  "closed_chunks chunks \<longleftrightarrow> chunks \<noteq> [] \<and> fst (last chunks) = [] \<and> (\<forall>c \<in> set (butlast chunks). fst c \<noteq> [])"

definition open_chunks :: "(bytes \<times> bytes) list \<Rightarrow> bool" where
  "open_chunks chunks \<longleftrightarrow> (\<forall>c \<in> set chunks. fst c \<noteq> [])"

definition authenticated :: "Crypto \<Rightarrow> 'h AwsChunkedDecoder \<Rightarrow> bytes \<Rightarrow> bool" where
  "authenticated cr d t \<longleftrightarrow>
     (case dec_mode d of
        UnsignedTrailer _ \<Rightarrow> True
      | Signed context \<Rightarrow>
          \<exists>chunks q. t = concat (map fst chunks) \<and> previous_signature d = Some q
            \<and> signed_chain cr context (seed_signature context) chunks q
            \<and> (if dec_phase d \<in> {PTrailers, PDone} then closed_chunks chunks else open_chunks chunks))"

lemma authenticated_cong:
  assumes "dec_mode e = dec_mode d" "previous_signature e = previous_signature d"
    and "dec_phase e \<in> {PTrailers, PDone} \<longleftrightarrow> dec_phase d \<in> {PTrailers, PDone}"
  shows "authenticated cr e t = authenticated cr d t"
  unfolding authenticated_def assms ..

text \<open>All of it: what a state that has not failed says about the bytes delivered so far.\<close>

definition delivered :: "Crypto \<Rightarrow> 'h Hashes \<Rightarrow> 'h AwsChunkedDecoder \<Rightarrow> bytes \<Rightarrow> bool" where
  "delivered cr hs d t \<longleftrightarrow> chunk_inv d \<and> unat (decoded_bytes d) = length t \<and> authenticated cr d t
     \<and> (hashes_incremental hs \<longrightarrow> hashed hs d t)"

lemma step_out: "decoder_step cr hs d = (d', out, Some r) \<Longrightarrow> out = []"
  by (auto simp: decoder_step_def header_step_def data_step_def crlf_step_def trailer_step_def
      open_chunk_def take_line_def accept_decoded_def Let_def
      split: if_splits Phase.splits option.splits sum.splits prod.splits AwsChunkedMode.splits)

lemma step_done:
  assumes "decoder_step cr hs d = (d', out, Some (Pushed DecodeDone))" and "dec_phase d \<noteq> PDone"
  obtains k n where "dec_phase d = PTrailers" and "finish_trailers hs d = Inr ()" and "available d' = []"
    and "n \<le> max_trailer_bytes (dec_limits d)"
    and "d' = d\<lparr>dec_offset := dec_offset d + k, trailer_bytes := n, dec_phase := PDone\<rparr>"
    and "k \<le> length (available d)"
proof -
  have ph: "dec_phase d = PTrailers"
    using assms by (auto simp: decoder_step_def header_step_def data_step_def crlf_step_def
      open_chunk_def take_line_def Let_def
      split: if_splits Phase.splits option.splits sum.splits prod.splits AwsChunkedMode.splits)
  with assms have t: "trailer_step hs d = (d', out, Some (Pushed DecodeDone))"
    by (auto simp: decoder_step_def split: if_splits)
  obtain d1 l where tl: "take_line d (max_trailer_bytes (dec_limits d)) True = (d1, l)"
    by (cases "take_line d (max_trailer_bytes (dec_limits d)) True") auto
  with t obtain line where l: "l = Inr (Some line)"
    by (auto simp: trailer_step_def split: sum.splits option.splits)
  note d1 = take_line_Some [OF tl [unfolded l]]
  define d2 where "d2 = d1\<lparr>trailer_bytes := trailer_bytes d + (length line + 2)\<rparr>"
  from t have "finish_trailers hs d2 = Inr ()" "d' = d2\<lparr>dec_phase := PDone\<rparr>" "available d' = []"
    "trailer_bytes d + (length line + 2) \<le> max_trailer_bytes (dec_limits d)"
    unfolding d2_def using d1(1)
    by (auto simp: trailer_step_def tl l Let_def split: if_splits sum.splits prod.splits)
  moreover have "finish_trailers hs d2 = finish_trailers hs d"
    by (rule finish_trailers_cong) (simp_all add: d2_def d1(1))
  ultimately show thesis using ph d1(1,5)
    by (intro that [of "trailer_bytes d + (length line + 2)" "length line + 2"]) (simp_all add: d2_def)
qed

lemma header_step_authenticated:
  assumes "chunk_inv d" "dec_phase d = PHeader" "header_step cr d = (d', out, None)" "authenticated cr d t"
  shows "authenticated cr d' t \<and> out = [] \<and> decoded_bytes d' = decoded_bytes d"
proof -
  from assms(3) obtain line d1 n sig where
    tl: "take_line d (max_chunk_header_bytes (dec_limits d)) False = (d1, Inr (Some line))"
    and o: "open_chunk cr d1 n sig = (d', out, None)"
    and m: "case dec_mode d of Signed _ \<Rightarrow> sig \<noteq> None | UnsignedTrailer _ \<Rightarrow> sig = None"
    by (rule header_step_continue)
  note d1 = take_line_Some(1) [OF tl]
  show ?thesis
  proof (cases "dec_mode d")
    case (Signed ctx)
    with m obtain s where s: "sig = Some s" by auto
    from assms(2,4) Signed obtain chunks q where c: "t = concat (map fst chunks)"
      "previous_signature d = Some q" "signed_chain cr ctx (seed_signature ctx) chunks q"
      "open_chunks chunks" by (auto simp: authenticated_def)
    show ?thesis
    proof (cases "n = 0")
      case True
      with o s c(2) d1 Signed have v: "hmac_sha256 cr (ctx_signing_key ctx) (chunk_string_to_sign cr ctx q []) = s"
        and d': "d' = d1\<lparr>previous_signature := Some s, dec_phase := PTrailers\<rparr>" and out: "out = []"
        by (auto simp: open_chunk_def verify_chunk_signature_def verify_hmac_def split: sum.splits if_splits)
      have "closed_chunks (chunks @ [([], s)])" "signed_chain cr ctx (seed_signature ctx) (chunks @ [([], s)]) s"
        using c(3,4) v by (auto simp: closed_chunks_def open_chunks_def signed_chain_snoc)
      then show ?thesis using Signed c(1) d1 d' out
        by (auto simp: authenticated_def intro!: exI [of _ "chunks @ [([], s)]"])
    qed (use o c d1 Signed in \<open>auto simp: open_chunk_def authenticated_def\<close>)
  next
    case (UnsignedTrailer x)
    with m o d1 show ?thesis by (auto simp: open_chunk_def authenticated_def split: if_splits)
  qed
qed

lemma crlf_step_authenticated:
  assumes "chunk_inv d" "dec_phase d = PDataCrlf" "crlf_step cr hs d = (d', out, None)" "authenticated cr d t"
  shows "authenticated cr d' (t @ out)"
proof -
  from assms(3) obtain c d3 d4 where c: "dec_current d = Some c"
    and s: "case cc_signature c of
           None \<Rightarrow> d3 = d\<lparr>dec_offset := dec_offset d + 2, dec_current := None\<rparr>
         | Some s \<Rightarrow> verify_chunk_signature cr d (cc_data c) s = Some (Inr ())
             \<and> d3 = d\<lparr>dec_offset := dec_offset d + 2, dec_current := None, previous_signature := Some s\<rparr>"
    and ac: "accept_decoded hs d3 (cc_data c) = (d4, out, Inr ())" and d': "d' = d4\<lparr>dec_phase := PHeader\<rparr>"
    by (rule crlf_step_continue)
  have m: "dec_mode d3 = dec_mode d" using s by (auto split: option.splits)
  have p: "out = cc_data c" "dec_mode d' = dec_mode d3" "previous_signature d' = previous_signature d3"
    "dec_phase d' = PHeader" unfolding d' by (use ac in \<open>auto elim!: accept_decoded_Ok\<close>)
  show ?thesis
  proof (cases "dec_mode d")
    case (Signed ctx)
    with assms(1) c obtain sg where sg: "cc_signature c = Some sg" by (auto simp: chunk_inv_def)
    from assms(1,2) c have "0 < length (cc_data c)" by (auto simp: chunk_inv_def)
    then have ne: "cc_data c \<noteq> []" by simp
    from assms(2,4) Signed obtain chunks q where ch: "t = concat (map fst chunks)"
      "previous_signature d = Some q" "signed_chain cr ctx (seed_signature ctx) chunks q"
      "open_chunks chunks" by (auto simp: authenticated_def)
    from s sg ch(2) Signed have v: "hmac_sha256 cr (ctx_signing_key ctx) (chunk_string_to_sign cr ctx q (cc_data c)) = sg"
      and d3: "previous_signature d3 = Some sg"
      by (auto simp: verify_chunk_signature_def verify_hmac_def split: if_splits)
    have "open_chunks (chunks @ [(cc_data c, sg)])"
      "signed_chain cr ctx (seed_signature ctx) (chunks @ [(cc_data c, sg)]) sg"
      using ch(3,4) v ne by (auto simp: open_chunks_def signed_chain_snoc)
    then show ?thesis using Signed ch(1) p m d3
      by (auto simp: authenticated_def intro!: exI [of _ "chunks @ [(cc_data c, sg)]"])
  next
    case (UnsignedTrailer x)
    with p m show ?thesis by (simp add: authenticated_def)
  qed
qed

lemma step_hashed:
  assumes "hashes_incremental hs" "hashed hs d t" "decoder_step cr hs d = (d', out, None)"
  shows "hashed hs d' (t @ out)"
proof -
  from assms(3) consider "header_step cr d = (d', out, None)" | "data_step d = (d', out, None)"
    | "crlf_step cr hs d = (d', out, None)" | "trailer_step hs d = (d', out, None)"
    by (auto simp: decoder_step_def split: if_splits Phase.splits)
  then show ?thesis
  proof cases
    case 1
    then show ?thesis using assms(2) by (rule_tac header_step_continue)
      (auto simp: hashed_def open_chunk_def dest!: take_line_Some(1) split: if_splits option.splits sum.splits)
  next
    case 2
    then show ?thesis using assms(2) by (rule_tac data_step_continue) (auto simp: hashed_def)
  next
    case 3
    then show ?thesis using assms(1,2) by (rule_tac crlf_step_continue)
      (auto simp: hashed_def hashes_incremental_def elim!: accept_decoded_Ok split: option.splits)
  next
    case 4
    then show ?thesis using assms(2) by (rule_tac trailer_step_continue)
      (auto simp: hashed_def elim!: accept_trailer_Ok dest!: take_line_Some(1))
  qed
qed

lemma hashed_cong:
  assumes "dec_crc32 e = dec_crc32 d" "dec_crc32c e = dec_crc32c d" "dec_crc64nvme e = dec_crc64nvme d"
    "dec_sha1 e = dec_sha1 d" "dec_sha256 e = dec_sha256 d"
  shows "hashed hs e t = hashed hs d t"
  using assms by (simp add: hashed_def)

lemma step_delivered:
  assumes "delivered cr hs d t" "decoder_step cr hs d = (d', out, None)"
  shows "delivered cr hs d' (t @ out)"
proof -
  from assms(1) have i: "chunk_inv d" "unat (decoded_bytes d) = length t" "authenticated cr d t"
    by (simp_all add: delivered_def)
  have h: "hashes_incremental hs \<longrightarrow> hashed hs d' (t @ out)"
    using assms step_hashed [of hs d t cr d' out] by (simp add: delivered_def)
  have off: "\<not> length (dec_input d) < dec_offset d" using i(1) by (simp add: chunk_inv_def)
  note inv = step_inv [OF i(1) assms(2)]
  show ?thesis
  proof (cases "dec_phase d")
    case PHeader
    with assms(2) off have "header_step cr d = (d', out, None)" by (simp add: decoder_step_def)
    from header_step_authenticated [OF i(1) PHeader this i(3)] i(2) inv h show ?thesis
      by (simp add: delivered_def)
  next
    case PData
    with assms(2) off have "data_step d = (d', out, None)" by (simp add: decoder_step_def)
    then have "authenticated cr d' t \<and> out = [] \<and> decoded_bytes d' = decoded_bytes d"
      using i(3) PData by (auto simp: authenticated_def elim!: data_step_continue split: AwsChunkedMode.splits)
    with i(2) inv h show ?thesis by (simp add: delivered_def)
  next
    case PDataCrlf
    with assms(2) off have s: "crlf_step cr hs d = (d', out, None)" by (simp add: decoder_step_def)
    then have "unat (decoded_bytes d') = unat (decoded_bytes d) + length out"
      by (rule crlf_step_continue)
        (auto elim!: accept_decoded_Ok simp: unat_word_ariths unat_of_nat split: option.splits)
    with crlf_step_authenticated [OF i(1) PDataCrlf s i(3)] i(2) inv h show ?thesis by (simp add: delivered_def)
  next
    case PTrailers
    with assms(2) off have s: "trailer_step hs d = (d', out, None)" by (simp add: decoder_step_def)
    then obtain line d1 where o: "out = []"
      and tl: "take_line d (max_trailer_bytes (dec_limits d)) True = (d1, Inr (Some line))"
      and a: "accept_trailer (d1\<lparr>trailer_bytes := trailer_bytes d + (length line + 2)\<rparr>) line = (d', Inr ())"
      by (rule trailer_step_continue)
    from a have "dec_mode d' = dec_mode d" "decoded_bytes d' = decoded_bytes d" "dec_phase d' = dec_phase d"
      "previous_signature d' = previous_signature d"
      unfolding take_line_Some(1) [OF tl] by (auto elim!: accept_trailer_Ok)
    with o i inv h authenticated_cong [of d' d cr t] show ?thesis by (simp add: delivered_def)
  next
    case PDone
    with assms(2) show ?thesis by (simp add: decoder_step_def)
  qed
qed

lemma open_chunk_frame:
  "open_chunk cr d n sig = (d', out, r) \<Longrightarrow> dec_mode d' = dec_mode d \<and> dec_limits d' = dec_limits d"
  by (auto simp: open_chunk_def split: if_splits option.splits sum.splits)

lemma step_frame:
  assumes "decoder_step cr hs d = (d', out, None)"
  shows "dec_mode d' = dec_mode d \<and> dec_limits d' = dec_limits d"
proof -
  from assms consider "header_step cr d = (d', out, None)" | "data_step d = (d', out, None)"
    | "crlf_step cr hs d = (d', out, None)" | "trailer_step hs d = (d', out, None)"
    by (auto simp: decoder_step_def split: if_splits Phase.splits)
  then show ?thesis
  proof cases
    case 1
    then show ?thesis by (rule header_step_continue) (auto dest!: open_chunk_frame take_line_Some(1))
  next
    case 2
    then show ?thesis by (rule data_step_continue) simp
  next
    case 3
    then show ?thesis by (rule crlf_step_continue) (auto elim!: accept_decoded_Ok split: option.splits)
  next
    case 4
    then show ?thesis by (rule trailer_step_continue) (auto elim!: accept_trailer_Ok dest!: take_line_Some(1))
  qed
qed

lemma step_phase:
  assumes "decoder_step cr hs d = (d', out, None)"
  shows "dec_phase d' \<noteq> PDone"
proof -
  from assms consider "header_step cr d = (d', out, None)" | "dec_phase d = PData" "data_step d = (d', out, None)"
    | "crlf_step cr hs d = (d', out, None)" | "dec_phase d = PTrailers" "trailer_step hs d = (d', out, None)"
    by (auto simp: decoder_step_def split: if_splits Phase.splits)
  then show ?thesis
  proof cases
    case 1
    then show ?thesis by (rule header_step_continue)
      (auto simp: open_chunk_def split: if_splits option.splits sum.splits)
  next
    case 2
    from 2(2) show ?thesis by (rule data_step_continue) (use 2(1) in simp)
  next
    case 3
    then show ?thesis by (rule crlf_step_continue) simp
  next
    case 4
    from 4(2) show ?thesis by (rule trailer_step_continue)
      (use 4(1) in \<open>auto elim!: accept_trailer_Ok dest!: take_line_Some(1)\<close>)
  qed
qed

text \<open>Whatever the result of a loop, its last round starts from a sound state that has delivered
  all of the output.\<close>

lemma loop_last:
  assumes "decoder_loop cr hs d = (d', out, r)" "delivered cr hs d t" "dec_phase d \<noteq> PDone"
  shows "\<exists>d1. delivered cr hs d1 (t @ out) \<and> dec_mode d1 = dec_mode d \<and> dec_limits d1 = dec_limits d
     \<and> dec_phase d1 \<noteq> PDone \<and> decoder_step cr hs d1 = (d', [], Some r)"
  using assms
proof (induction arbitrary: t rule: loop_induct)
  case (stop d out)
  with step_out [OF stop(1)] show ?case by auto
next
  case (continue d d1 o1 o2)
  from continue(3) [OF step_delivered [OF continue(4,1)] step_phase [OF continue(1)]] step_frame [OF continue(1)] show ?case by auto
qed

lemma done_delivered:
  assumes "delivered cr hs d t" "decoder_step cr hs d = (d', [], Some (Pushed s))"
  shows "delivered cr hs d' t"
proof (cases s)
  case NeedMore
  with assms step_more [of cr hs d d' "[]"] show ?thesis by simp
next
  case DecodeDone
  show ?thesis
  proof (cases "dec_phase d = PDone")
    case True
    with assms show ?thesis by (simp add: decoder_step_def)
  next
    case False
    from assms(2) [unfolded DecodeDone] False obtain k n where ph: "dec_phase d = PTrailers"
      and d': "d' = d\<lparr>dec_offset := dec_offset d + k, trailer_bytes := n, dec_phase := PDone\<rparr>"
      and k: "k \<le> length (available d)" and n: "n \<le> max_trailer_bytes (dec_limits d)" by (rule step_done)
    have "dec_offset d + k \<le> length (dec_input d)"
      using assms(1) k by (intro offset_advance) (simp_all add: delivered_def chunk_inv_def)
    then have "chunk_inv d'" using assms(1) ph n unfolding d'
      by (auto simp: delivered_def chunk_inv_def split: option.splits AwsChunkedMode.splits)
    with assms(1) ph d' authenticated_cong [of d' d cr t] hashed_cong [of d' d hs t] show ?thesis by (simp add: delivered_def)
  qed
qed

lemma push_last:
  assumes "delivered cr hs d t" "AwsChunkedDecoder_push cr hs d a = (d', out, r)" "dec_phase d \<noteq> PDone"
  shows "\<exists>d1. delivered cr hs d1 (t @ out) \<and> dec_mode d1 = dec_mode d \<and> dec_limits d1 = dec_limits d
     \<and> dec_phase d1 \<noteq> PDone \<and> decoder_step cr hs d1 = (d', [], Some r)"
proof -
  have "delivered cr hs (rebuf [] a (compact d)) t"
    using assms(1) compact_inv [of d a] authenticated_cong [of "rebuf [] a (compact d)" d cr t]
      hashed_cong [of "rebuf [] a (compact d)" d hs t]
    by (auto simp: delivered_def compact_def)
  from loop_last [OF assms(2) [unfolded push_loop [OF assms(3)]] this] assms(3) show ?thesis by auto
qed

lemma new_delivered:
  assumes "AwsChunkedDecoder_new hs mode limits = Inr d"
  shows "delivered cr hs d [] \<and> dec_mode d = mode \<and> dec_limits d = limits \<and> dec_phase d = PHeader"
proof -
  from assms have "authenticated cr d []"
    by (auto simp: AwsChunkedDecoder_new_def authenticated_def open_chunks_def split: AwsChunkedMode.splits
        intro!: exI [of _ "[] :: (bytes \<times> bytes) list"])
  with assms new_inv [OF assms] show ?thesis
    by (auto simp: delivered_def AwsChunkedDecoder_new_def hashed_def hashes_incremental_def)
qed

text \<open>The whole body in any fragmentation, down to the round that ended it.\<close>

lemma body_last:
  assumes "AwsChunkedDecoder_new hs mode limits = Inr d0"
    and "feed (AwsChunkedDecoder_push cr hs) chunk_more d0 a bs = (d', out, r)"
  shows "\<exists>d1. delivered cr hs d1 out \<and> dec_mode d1 = mode \<and> dec_limits d1 = limits
     \<and> dec_phase d1 \<noteq> PDone \<and> decoder_step cr hs d1 = (d', [], Some r)"
proof -
  let ?P = "\<lambda>d t. delivered cr hs d t \<and> dec_mode d = mode \<and> dec_limits d = limits \<and> dec_phase d \<noteq> PDone"
  let ?Q = "\<lambda>d' t r. \<exists>d1. delivered cr hs d1 t \<and> dec_mode d1 = mode \<and> dec_limits d1 = limits
     \<and> dec_phase d1 \<noteq> PDone \<and> decoder_step cr hs d1 = (d', [], Some r)"
  have "?Q d' ([] @ out) r"
  proof (rule feed_invariant [where P = ?P and Q = ?Q, OF _ assms(2)])
    show "?P d0 []" using new_delivered [OF assms(1)] by simp
  next
    fix d t a d' out r
    assume P: "?P d t" and p: "AwsChunkedDecoder_push cr hs d a = (d', out, r)" and m: "chunk_more r"
    from push_last [of cr hs d t a d' out r] P p obtain d1 where d1: "delivered cr hs d1 (t @ out)" "dec_mode d1 = mode"
      "dec_limits d1 = limits" and st: "decoder_step cr hs d1 = (d', [], Some r)" by auto
    from st m have "d1 = d'" using step_more [of cr hs d1 d' "[]"] by (simp add: chunk_more_def)
    moreover from st m have "dec_phase d1 \<noteq> PDone" by (auto simp: decoder_step_def chunk_more_def)
    ultimately show "?P d' (t @ out)" using d1 by simp
  next
    fix d t a d' out r
    assume "?P d t" and "AwsChunkedDecoder_push cr hs d a = (d', out, r)"
    then show "?Q d' (t @ out) r" using push_last [of cr hs d t a d' out r] by auto
  qed
  then show ?thesis by simp
qed

end
