(* ===== verification/ChunkedAccept.thy ===== *)
theory ChunkedAccept
  imports ChunkedBody
begin

text \<open>
  Well-formed \<^verbatim>\<open>aws-chunked\<close> bodies as a client writes them, that the decoder of \<^verbatim>\<open>protocol/chunked.rs\<close>
  accepts them, and the properties of the decoder with their concrete instances.
\<close>

section \<open>Well-formed bodies\<close>

text \<open>The client's side: chunk lines with a hexadecimal size and an optional signature.\<close>

function hex_nat :: "nat \<Rightarrow> bytes" where
  "hex_nat n = (if n < 16 then [hex_lower_digit (of_nat n)]
     else hex_nat (n div 16) @ [hex_lower_digit (of_nat (n mod 16))])"
  by pat_completeness auto
termination by (relation "measure id") auto

declare hex_nat.simps [simp del]

definition chunk_line :: "nat \<Rightarrow> bytes option \<Rightarrow> bytes" where
  "chunk_line n signature = hex_nat n @
     (case signature of None \<Rightarrow> [] | Some s \<Rightarrow> 0x3b # ascii ''chunk-signature'' @ 0x3d # hex_lower s)"

definition chunk_signature :: "Crypto \<Rightarrow> StreamingSigningContext \<Rightarrow> bytes \<Rightarrow> bytes \<Rightarrow> bytes" where
  "chunk_signature cr ctx previous data =
     hmac_sha256 cr (ctx_signing_key ctx) (chunk_string_to_sign cr ctx previous data)"

fun signed_body :: "Crypto \<Rightarrow> StreamingSigningContext \<Rightarrow> bytes \<Rightarrow> bytes list \<Rightarrow> bytes" where
  "signed_body cr ctx previous [] = chunk_line 0 (Some (chunk_signature cr ctx previous [])) @ CRLF @ CRLF"
| "signed_body cr ctx previous (data # rest) =
     (let s = chunk_signature cr ctx previous data in
      chunk_line (length data) (Some s) @ CRLF @ data @ CRLF @ signed_body cr ctx s rest)"

lemma hex_lower_digit_nat:
  assumes "n < 16"
  shows "hex_value (hex_lower_digit (of_nat n)) = Some (of_nat n)" "is_ascii_hexdigit (hex_lower_digit (of_nat n))"
    "unat (of_nat n :: u8) = n"
proof -
  show u: "unat (of_nat n :: u8) = n" using assms by (simp add: unat_of_nat)
  with assms show "hex_value (hex_lower_digit (of_nat n)) = Some (of_nat n)"
    using hex_digit_values(2) [of "of_nat n"] by (simp add: hex_nibble_value)
  show "is_ascii_hexdigit (hex_lower_digit (of_nat n))"
    using assms u by (auto simp: hex_digits ascii_class_defs byte_arith)
qed

lemma hex_digits_value_snoc:
  "hex_value d = Some v \<Longrightarrow> hex_digits_value xs = Some n \<Longrightarrow> hex_digits_value (xs @ [d]) = Some (n * 16 + unat v)"
proof (induction xs arbitrary: n)
  case (Cons x xs)
  then obtain w m where w: "hex_value x = Some w" "hex_digits_value xs = Some m" "n = unat w * 16 ^ length xs + m"
    by (auto split: option.splits)
  with Cons.IH [OF Cons.prems(1) w(2)] show ?case by (simp add: algebra_simps)
qed simp

lemma hex_nat_value: "hex_digits_value (hex_nat n) = Some n"
proof (induction n rule: hex_nat.induct)
  case (1 n)
  show ?case
  proof (cases "n < 16")
    case True
    with hex_lower_digit_nat [OF True] show ?thesis by (simp add: hex_nat.simps [of n])
  next
    case False
    with hex_digits_value_snoc [OF hex_lower_digit_nat(1) [of "n mod 16"] 1] hex_lower_digit_nat(3) [of "n mod 16"]
    show ?thesis by (simp add: hex_nat.simps [of n])
  qed
qed

lemma hex_nat_hex: "list_all is_ascii_hexdigit (hex_nat n)"
  by (induction n rule: hex_nat.induct) (subst hex_nat.simps, auto simp: hex_lower_digit_nat(2))

lemma hex_nat_ne: "hex_nat n \<noteq> []"
  by (subst hex_nat.simps) simp

lemma hex_nat_length: "n < 16 ^ Suc k \<Longrightarrow> length (hex_nat n) \<le> Suc k"
proof (induction k arbitrary: n)
  case 0
  then show ?case by (simp add: hex_nat.simps [of n])
next
  case (Suc k)
  then have "n div 16 < 16 ^ Suc k" by (simp add: less_mult_imp_div_less mult.commute)
  from Suc.IH [OF this] show ?case by (subst hex_nat.simps) simp
qed

lemma hexdigit_plain: "is_ascii_hexdigit b \<Longrightarrow> b \<noteq> 0x3b \<and> b \<noteq> 0x0d"
  by (auto simp: ascii_class_defs)

lemma find_CRLF: "0x0d \<notin> set line \<Longrightarrow> find_sub CRLF (line @ CRLF @ rest) = Some (length line)"
  by (induction line) (auto simp: CRLF_def starts_with_def)

lemma hex_lower_hex: "b \<in> set (hex_lower v) \<Longrightarrow> is_ascii_hexdigit b"
proof (induction v)
  case (Cons x v)
  have "is_ascii_hexdigit (hex_lower_digit n)" if "unat n < 16" for n
    using that by (auto simp: hex_digits ascii_class_defs byte_arith)
  with Cons nibble_bounds [of x] show ?case by auto
qed simp

lemma chunk_signature_plain: "b \<in> set (ascii ''chunk-signature'') \<Longrightarrow> b \<noteq> 0x3b \<and> b \<noteq> 0x0d \<and> b \<noteq> 0x3d"
  by auto

lemma extension_parse:
  assumes "length s = 32"
  shows "header_extensions [ascii ''chunk-signature'' @ 0x3d # hex_lower s] None = Inr (Some s)"
proof -
  have "split_once 0x3d (ascii ''chunk-signature'' @ 0x3d # hex_lower s) = Some (ascii ''chunk-signature'', hex_lower s)"
    unfolding split_once_Some using chunk_signature_plain by blast
  then show ?thesis using assms by (simp add: decode_hex_32_def del: ascii_Cons)
qed

lemma chunk_line_parse:
  assumes "n < 16 ^ 16" and "\<And>s. sig = Some s \<Longrightarrow> length s = 32"
  shows "parse_chunk_header (chunk_line n sig) = Inr (n, sig)" and "0x0d \<notin> set (chunk_line n sig)"
    and "length (chunk_line n sig) \<le> 97"
proof -
  have h: "\<forall>b \<in> set (hex_nat n). b \<noteq> 0x3b" "0x0d \<notin> set (hex_nat n)"
    using hex_nat_hex [of n] hexdigit_plain by (auto simp: list_all_iff)
  have l: "length (hex_nat n) \<le> 16" using hex_nat_length [of n 15] assms(1) by simp
  have x: "\<forall>b \<in> set (hex_lower s). b \<noteq> 0x3b \<and> b \<noteq> 0x0d" for s
    using hex_lower_hex hexdigit_plain by blast
  have y: "\<forall>b \<in> set (ascii ''chunk-signature'' @ 0x3d # hex_lower s). b \<noteq> 0x3b" for s
    using x [of s] chunk_signature_plain by auto
  have "split_on (\<lambda>b. b = 0x3b) (chunk_line n sig)
     = hex_nat n # (case sig of None \<Rightarrow> [] | Some s \<Rightarrow> [ascii ''chunk-signature'' @ 0x3d # hex_lower s])"
  proof (cases sig)
    case (Some s)
    show ?thesis unfolding chunk_line_def Some option.case
      by (subst split_on_append_sep [OF h(1)]) (simp_all only: split_on_none [OF y])
  qed (simp add: chunk_line_def split_on_none [OF h(1)])
  then show "parse_chunk_header (chunk_line n sig) = Inr (n, sig)"
    using hex_nat_hex [of n] hex_nat_ne [of n] hex_nat_value [of n] l assms(2)
    by (cases sig) (simp_all add: parse_chunk_header_def extension_parse del: ascii_Cons header_extensions.simps(2))
  show "0x0d \<notin> set (chunk_line n sig)"
    using h(2) x chunk_signature_plain by (auto simp: chunk_line_def simp del: ascii_Cons split: option.splits)
  show "length (chunk_line n sig) \<le> 97"
    using l assms(2) by (auto simp: chunk_line_def split: option.splits)
qed

text \<open>A decoder that has delivered \<open>t\<close> and is about to read a chunk header.\<close>

definition ready ::
  "Crypto \<Rightarrow> 'h Hashes \<Rightarrow> AwsChunkedMode \<Rightarrow> ChunkedLimits \<Rightarrow> 'h AwsChunkedDecoder \<Rightarrow> bytes \<Rightarrow> bytes \<Rightarrow> bool" where
  "ready cr hs mode limits d t rest \<longleftrightarrow>
     delivered cr hs d t \<and> dec_phase d = PHeader \<and> available d = rest \<and> dec_mode d = mode
     \<and> dec_limits d = limits \<and> dec_trailers d = [] \<and> trailer_bytes d = 0"

definition within :: "ChunkedLimits \<Rightarrow> nat \<Rightarrow> bool" where
  "within limits n \<longleftrightarrow> n \<le> unat (max_decoded_bytes limits)
     \<and> (case expected_decoded_length limits of None \<Rightarrow> True | Some e \<Rightarrow> n \<le> unat e)"

lemma within_limit:
  assumes "unat u = k" "within limits (k + n)"
  shows "unat u + n < 2 ^ 64" "\<not> over_limit limits (u + of_nat n)" "unat (u + of_nat n) = k + n"
proof -
  show s: "unat u + n < 2 ^ 64"
    using assms unat_u64_less [of "max_decoded_bytes limits"] by (simp add: within_def)
  then show u: "unat (u + of_nat n) = k + n" using assms(1) by (simp add: unat_word_ariths unat_of_nat)
  then show "\<not> over_limit limits (u + of_nat n)"
    using assms(2) by (auto simp: over_limit_def within_def word_less_nat_alt split: option.splits)
qed

lemma take_line_found:
  assumes "available d = line @ CRLF @ rest" "0x0d \<notin> set line" "length line \<le> limit"
  shows "take_line d limit t = (d\<lparr>dec_offset := dec_offset d + (length line + 2)\<rparr>, Inr (Some line))"
  using assms by (simp add: take_line_def find_CRLF)

definition sig_ok :: "Crypto \<Rightarrow> 'h AwsChunkedDecoder \<Rightarrow> bytes \<Rightarrow> bytes option \<Rightarrow> bool" where
  "sig_ok cr d data sig \<longleftrightarrow>
     (case (dec_mode d, sig) of
        (Signed ctx, Some s) \<Rightarrow> previous_signature d \<noteq> None
          \<and> s = chunk_signature cr ctx (the (previous_signature d)) data \<and> length s = 32
      | (UnsignedTrailer _, None) \<Rightarrow> True
      | _ \<Rightarrow> False)"

lemma sig_ok_verify:
  assumes "sig_ok cr d data (Some s)" "dec_mode e = dec_mode d" "previous_signature e = previous_signature d"
  shows "verify_chunk_signature cr e data s = Some (Inr ())"
  using assms by (auto simp: sig_ok_def verify_chunk_signature_def verify_hmac_def chunk_signature_def
      split: AwsChunkedMode.splits)

lemma header_forward:
  assumes r: "ready cr hs mode limits d t (chunk_line n sig @ CRLF @ rest)" and s: "sig_ok cr d data sig"
    and n: "n \<le> max_chunk_bytes limits" "n \<le> MAX_BUFFERED_CHUNK_BYTES" "within limits (length t + n)"
    and l: "97 \<le> max_chunk_header_bytes limits"
  shows "decoder_step cr hs d = open_chunk cr (d\<lparr>dec_offset := dec_offset d + (length (chunk_line n sig) + 2)\<rparr>) n sig"
proof -
  have n16: "n < 16 ^ 16" using n(2) by (simp add: MAX_BUFFERED_CHUNK_BYTES_def)
  have s32: "length x = 32" if "sig = Some x" for x
    using s that by (auto simp: sig_ok_def split: AwsChunkedMode.splits)
  note p = chunk_line_parse [of n sig, OF n16 s32]
  have len: "length (chunk_line n sig) \<le> max_chunk_header_bytes (dec_limits d)" using p(3) l r by (simp add: ready_def)
  have t: "take_line d (max_chunk_header_bytes (dec_limits d)) False
      = (d\<lparr>dec_offset := dec_offset d + (length (chunk_line n sig) + 2)\<rparr>, Inr (Some (chunk_line n sig)))"
    by (rule take_line_found [OF _ p(2) len]) (use r in \<open>simp_all add: ready_def\<close>)
  from r have d: "unat (decoded_bytes d) = length t" "dec_limits d = limits" "dec_phase d = PHeader"
    "dec_offset d \<le> length (dec_input d)" by (simp_all add: ready_def delivered_def chunk_inv_def)
  note w = within_limit [OF d(1) n(3)]
  have u: "unat (of_nat n :: u64) = n" "n < 2 ^ 64" using n(2) by (simp_all add: MAX_BUFFERED_CHUNK_BYTES_def unat_of_nat)
  show ?thesis
    using s w n u d(4)
    by (simp add: decoder_step_def d(1-3) header_step_def t [unfolded d(2)] p(1) u64_try_from_def
        checked_add_def sig_ok_def not_less min_less_iff_disj split: AwsChunkedMode.splits option.splits)
qed

lemma accept_forward:
  assumes "unat (decoded_bytes d) = k" "within (dec_limits d) (k + length data)"
  obtains d' where "accept_decoded hs d data = (d', data, Inr ())"
    and "dec_offset d' = dec_offset d" "dec_input d' = dec_input d" "dec_mode d' = dec_mode d"
    and "dec_limits d' = dec_limits d" "dec_trailers d' = dec_trailers d"
    and "trailer_bytes d' = trailer_bytes d" "previous_signature d' = previous_signature d"
proof -
  note w = within_limit [OF assms]
  have u: "unat (of_nat (length data) :: u64) = length data" using w(1) by (simp add: unat_of_nat)
  show thesis using w u
    by (intro that [of "fst (accept_decoded hs d data)"])
      (simp_all add: accept_decoded_def u64_try_from_def checked_add_def Let_def)
qed

text \<open>One chunk: its line, its data and its terminator take the decoder to the next header.\<close>

lemma chunk_forward:
  assumes r: "ready cr hs mode limits d t (chunk_line (length data) sig @ CRLF @ data @ CRLF @ rest)"
    and s: "sig_ok cr d data sig" and ne: "data \<noteq> []"
    and n: "length data \<le> max_chunk_bytes limits" "length data \<le> MAX_BUFFERED_CHUNK_BYTES"
      "within limits (length t + length data)"
    and l: "97 \<le> max_chunk_header_bytes limits"
  obtains d' where "decoder_loop cr hs d = prepend data (decoder_loop cr hs d')"
    and "ready cr hs mode limits d' (t @ data) rest"
    and "previous_signature d' = (case sig of None \<Rightarrow> previous_signature d | Some _ \<Rightarrow> sig)"
proof -
  let ?k = "length (chunk_line (length data) sig) + 2"
  let ?c = "\<lparr>cc_size = length data, cc_data = [], cc_signature = sig\<rparr>"
  define d1 where "d1 = d\<lparr>dec_offset := dec_offset d + ?k, dec_current := Some ?c, dec_phase := PData\<rparr>"
  define d2 where "d2 = d1\<lparr>dec_current := Some (?c\<lparr>cc_data := data\<rparr>), dec_offset := dec_offset d1 + length data,
      dec_phase := PDataCrlf\<rparr>"
  have s1: "decoder_step cr hs d = (d1, [], None)"
    using header_forward [OF r s n l] ne by (simp add: open_chunk_def d1_def)
  from r have del: "delivered cr hs d t" by (simp add: ready_def)
  have del1: "delivered cr hs d1 t" using step_delivered [OF del s1] by simp
  have a1: "available d1 = data @ CRLF @ rest"
    using r available_advance [of d1 d ?k] by (simp add: ready_def d1_def CRLF_def)
  have s2: "decoder_step cr hs d1 = (d2, [], None)"
  proof -
    have "dec_phase d1 = PData" "dec_offset d1 \<le> length (dec_input d1)" "dec_current d1 = Some ?c"
      using del1 by (simp_all add: d1_def delivered_def chunk_inv_def)
    then show ?thesis using ne by (simp add: decoder_step_def data_step_def a1 Let_def d2_def)
  qed
  have del2: "delivered cr hs d2 t" using step_delivered [OF del1 s2] by simp
  have a2: "available d2 = CRLF @ rest" using a1 available_advance [of d2 d1 "length data"] by (simp add: d2_def)
  let ?e = "d2\<lparr>dec_offset := dec_offset d2 + 2, dec_current := None\<rparr>"
  define d3 where "d3 = (case sig of None \<Rightarrow> ?e | Some s \<Rightarrow> ?e\<lparr>previous_signature := Some s\<rparr>)"
  have e3: "dec_offset d3 = dec_offset d2 + 2" "dec_input d3 = dec_input d2" "dec_mode d3 = dec_mode d"
    "dec_limits d3 = dec_limits d" "dec_trailers d3 = dec_trailers d" "trailer_bytes d3 = trailer_bytes d"
    "decoded_bytes d3 = decoded_bytes d2"
    "previous_signature d3 = (case sig of None \<Rightarrow> previous_signature d | Some _ \<Rightarrow> sig)"
    by (simp_all add: d3_def d2_def d1_def split: option.splits)
  have w3: "unat (decoded_bytes d3) = length t" "within (dec_limits d3) (length t + length data)"
    using del2 n(3) r by (simp_all add: e3 delivered_def ready_def)
  obtain d4 where ac: "accept_decoded hs d3 data = (d4, data, Inr ())"
    and e4: "dec_offset d4 = dec_offset d3" "dec_input d4 = dec_input d3" "dec_mode d4 = dec_mode d3"
      "dec_limits d4 = dec_limits d3" "dec_trailers d4 = dec_trailers d3"
      "trailer_bytes d4 = trailer_bytes d3" "previous_signature d4 = previous_signature d3"
    by (rule accept_forward [OF w3])
  have s3: "decoder_step cr hs d2 = (d4\<lparr>dec_phase := PHeader\<rparr>, data, None)"
  proof -
    have v: "verify_chunk_signature cr ?e data x = Some (Inr ())" if "sig = Some x" for x
      by (rule sig_ok_verify [OF s [unfolded that]]) (simp_all add: d2_def d1_def)
    have "dec_phase d2 = PDataCrlf" "dec_offset d2 \<le> length (dec_input d2)"
      "dec_current d2 = Some (?c\<lparr>cc_data := data\<rparr>)"
      using del2 by (simp_all add: d2_def delivered_def chunk_inv_def)
    then show ?thesis using ac v unfolding d3_def
      by (cases sig) (simp_all add: decoder_step_def crlf_step_def a2 CRLF_def Let_def)
  qed
  have "available (d4\<lparr>dec_phase := PHeader\<rparr>) = rest"
    using a2 available_advance [of d4 d2 2] e4(1,2) e3(1,2) by (simp add: CRLF_def)
  then have "ready cr hs mode limits (d4\<lparr>dec_phase := PHeader\<rparr>) (t @ data) rest"
    using step_delivered [OF del2 s3] e3 e4 r by (simp add: ready_def)
  moreover have "decoder_loop cr hs d = prepend data (decoder_loop cr hs (d4\<lparr>dec_phase := PHeader\<rparr>))"
    by (simp add: loop_continue [OF s1] loop_continue [OF s2] loop_continue [OF s3])
  ultimately show thesis using e3(8) e4(7)
    by (intro that [of "d4\<lparr>dec_phase := PHeader\<rparr>"]) simp_all
qed

text \<open>The signed body of a list of chunks.\<close>

definition total_ok :: "ChunkedLimits \<Rightarrow> nat \<Rightarrow> bool" where
  "total_ok limits n \<longleftrightarrow> n \<le> unat (max_decoded_bytes limits)
     \<and> (case expected_decoded_length limits of None \<Rightarrow> True | Some e \<Rightarrow> n = unat e)"

lemma total_within: "total_ok limits n \<Longrightarrow> m \<le> n \<Longrightarrow> within limits m"
  by (auto simp: total_ok_def within_def split: option.splits)

definition chunks_ok :: "ChunkedLimits \<Rightarrow> bytes list \<Rightarrow> bool" where
  "chunks_ok limits ds \<longleftrightarrow>
     list_all (\<lambda>data. data \<noteq> [] \<and> length data \<le> min (max_chunk_bytes limits) MAX_BUFFERED_CHUNK_BYTES) ds
     \<and> 97 \<le> max_chunk_header_bytes limits \<and> 2 \<le> max_trailer_bytes limits"

lemma signed_end:
  assumes r: "ready cr hs (Signed ctx) limits d t (signed_body cr ctx p [])" and p: "previous_signature d = Some p"
    and h: "\<And>k m. length (hmac_sha256 cr k m) = 32" and l: "chunks_ok limits ds" "total_ok limits (length t)"
  shows "\<exists>d'. decoder_loop cr hs d = (d', [], Pushed DecodeDone)"
proof -
  let ?s = "chunk_signature cr ctx p []"
  have m: "dec_mode d = Signed ctx" using r by (simp add: ready_def)
  have sok: "sig_ok cr d [] (Some ?s)" using m p h by (simp add: sig_ok_def chunk_signature_def)
  let ?k = "length (chunk_line 0 (Some ?s)) + 2"
  define d1 where "d1 = d\<lparr>dec_offset := dec_offset d + ?k, previous_signature := Some ?s, dec_phase := PTrailers\<rparr>"
  have w: "within limits (length t + 0)" using total_within [OF l(2), of "length t"] by simp
  have v: "verify_chunk_signature cr (d\<lparr>dec_offset := dec_offset d + ?k\<rparr>) [] ?s = Some (Inr ())"
    by (rule sig_ok_verify [OF sok]) simp_all
  have s1: "decoder_step cr hs d = (d1, [], None)"
    using header_forward [OF r [simplified] sok _ _ w] l(1) v by (simp add: open_chunk_def d1_def chunks_ok_def)
  have del: "delivered cr hs d1 t" using step_delivered [OF _ s1, of t] r by (simp add: ready_def)
  have a: "available d1 = CRLF" using r available_advance [of d1 d ?k] by (simp add: ready_def d1_def CRLF_def)
  have d1: "dec_phase d1 = PTrailers" "dec_offset d1 \<le> length (dec_input d1)" "dec_limits d1 = limits"
    "dec_mode d1 = Signed ctx" "trailer_bytes d1 = 0" "dec_trailers d1 = []" "unat (decoded_bytes d1) = length t"
    using del r by (simp_all add: d1_def ready_def delivered_def chunk_inv_def)
  have tl: "take_line d1 (max_trailer_bytes limits) True = (d1\<lparr>dec_offset := dec_offset d1 + 2\<rparr>, Inr (Some []))"
    using take_line_found [of d1 "[]" "[]" "max_trailer_bytes limits" True] a by simp
  have f: "finish_trailers hs (d1\<lparr>dec_offset := x, trailer_bytes := y\<rparr>) = Inr ()" for x y
    using l(2) d1 by (auto simp: finish_trailers_def total_ok_def word_unat_eq_iff split: option.splits)
  have e: "available (d1\<lparr>dec_offset := dec_offset d1 + 2, trailer_bytes := y, dec_phase := z\<rparr>) = []" for y z
    using available_advance [of "d1\<lparr>dec_offset := dec_offset d1 + 2\<rparr>" d1 2] a by (simp add: CRLF_def)
  have "\<exists>d'. decoder_step cr hs d1 = (d', [], Some (Pushed DecodeDone))"
    using l(1) f e d1(2) by (simp add: decoder_step_def trailer_step_def d1 tl Let_def chunks_ok_def not_less)
  then show ?thesis by (auto simp: loop_continue [OF s1] dest: loop_stop)
qed

lemma signed_body_runs:
  assumes "ready cr hs (Signed ctx) limits d t (signed_body cr ctx p ds)" and "previous_signature d = Some p"
    and "\<And>k m. length (hmac_sha256 cr k m) = 32" and "chunks_ok limits ds"
    and "total_ok limits (length t + length (concat ds))"
  shows "\<exists>d'. decoder_loop cr hs d = (d', concat ds, Pushed DecodeDone)"
  using assms
proof (induction ds arbitrary: d t p)
  case Nil
  from signed_end [OF Nil(1-4)] Nil(5) show ?case by simp
next
  case (Cons data ds)
  let ?s = "chunk_signature cr ctx p data"
  have sok: "sig_ok cr d data (Some ?s)"
    using Cons.prems(1-3) by (simp add: sig_ok_def chunk_signature_def ready_def)
  have c: "data \<noteq> []" "length data \<le> max_chunk_bytes limits" "length data \<le> MAX_BUFFERED_CHUNK_BYTES"
    "97 \<le> max_chunk_header_bytes limits" "chunks_ok limits ds"
    using Cons.prems(4) by (simp_all add: chunks_ok_def)
  have w: "within limits (length t + length data)" by (rule total_within [OF Cons.prems(5)]) simp
  from Cons.prems(1) have r: "ready cr hs (Signed ctx) limits d t
      (chunk_line (length data) (Some ?s) @ CRLF @ data @ CRLF @ signed_body cr ctx ?s ds)" by (simp add: Let_def)
  obtain d' where d': "decoder_loop cr hs d = prepend data (decoder_loop cr hs d')"
    "ready cr hs (Signed ctx) limits d' (t @ data) (signed_body cr ctx ?s ds)" "previous_signature d' = Some ?s"
    using chunk_forward [OF r sok c(1-3) w c(4)] by auto
  from Cons.IH [OF d'(2,3) Cons.prems(3) c(5)] Cons.prems(5) obtain d'' where
    "decoder_loop cr hs d' = (d'', concat ds, Pushed DecodeDone)" by (auto simp: add.assoc)
  with d'(1) show ?case by simp
qed

lemma new_ready:
  assumes "AwsChunkedDecoder_new hs mode limits = Inr d"
  shows "ready cr hs mode limits (rebuf [] body (compact d)) [] body"
    and "AwsChunkedDecoder_push cr hs d body = decoder_loop cr hs (rebuf [] body (compact d))"
    and "previous_signature (rebuf [] body (compact d)) = (case mode of Signed ctx \<Rightarrow> Some (seed_signature ctx) | UnsignedTrailer _ \<Rightarrow> None)"
proof -
  note n = new_delivered [OF assms, of cr]
  from assms have e: "compact d = d" "dec_input d = []" "dec_offset d = 0" "dec_trailers d = []" "trailer_bytes d = 0"
    "previous_signature d = (case mode of Signed ctx \<Rightarrow> Some (seed_signature ctx) | UnsignedTrailer _ \<Rightarrow> None)"
    by (auto simp: AwsChunkedDecoder_new_def compact_def split: AwsChunkedMode.splits)
  have "delivered cr hs (rebuf [] body d) []"
    using n compact_inv [of d body] authenticated_cong [of "rebuf [] body d" d cr "[]"]
      hashed_cong [of "rebuf [] body d" d hs "[]"] by (simp add: delivered_def e(1))
  with n e show "ready cr hs mode limits (rebuf [] body (compact d)) [] body"
    by (simp add: ready_def available_def)
  show "AwsChunkedDecoder_push cr hs d body = decoder_loop cr hs (rebuf [] body (compact d))"
    using n by (intro push_loop) simp
  show "previous_signature (rebuf [] body (compact d)) = (case mode of Signed ctx \<Rightarrow> Some (seed_signature ctx) | UnsignedTrailer _ \<Rightarrow> None)"
    using e by simp
qed

text \<open>The unsigned body: plain chunks, the last chunk, and one trailer for each declared checksum.\<close>

definition body_checksum :: "'h Hashes \<Rightarrow> bytes \<Rightarrow> bytes \<Rightarrow> (bytes \<times> nat) option" where
  "body_checksum hs t n =
     (if n = ascii ''x-amz-checksum-crc32'' then Some (to_be_bytes 4 (crc32_finalize hs (crc32_update hs (crc32_new hs) t)), 8)
      else if n = ascii ''x-amz-checksum-crc32c'' then Some (to_be_bytes 4 (crc32c_finalize hs (crc32c_update hs (crc32c_new hs) t)), 8)
      else if n = ascii ''x-amz-checksum-sha1'' then Some (sha1_finalize hs (sha1_update hs (sha1_new hs) t), 28)
      else if n = ascii ''x-amz-checksum-sha256'' then Some (sha256_finalize hs (sha256_hasher_update hs (sha256_new hs) t), 44)
      else if n = ascii ''x-amz-checksum-crc64nvme'' then Some (to_be_bytes 8 (crc64nvme_finalize hs (crc64nvme_update hs (crc64nvme_new hs) t)), 12)
      else None)"

lemma calculated_body_checksum: "hashed hs d t \<Longrightarrow> calculated_checksum hs d n = body_checksum hs t n"
  by (simp add: hashed_def calculated_checksum_def body_checksum_def del: ascii_Cons ascii_Nil)

text \<open>A trailer value that states the checksum of the body.\<close>

definition states_checksum :: "'h Hashes \<Rightarrow> bytes \<Rightarrow> bytes \<Rightarrow> bytes \<Rightarrow> bool" where
  "states_checksum hs t n v \<longleftrightarrow>
     (case body_checksum hs t n of
        None \<Rightarrow> False
      | Some (expected, encoded_length) \<Rightarrow> length v = encoded_length \<and> base64_decode hs v = Some expected)"

lemma check_trailer_states:
  assumes "hashed hs d t"
  shows "check_trailer hs d n = Inr () \<longleftrightarrow>
     (\<exists>tr. find (\<lambda>t. tr_name t = n) (dec_trailers d) = Some tr \<and> states_checksum hs t n (tr_value tr))"
  by (cases "find (\<lambda>t. tr_name t = n) (dec_trailers d)"; cases "body_checksum hs t n")
    (auto simp: check_trailer_def calculated_body_checksum [OF assms] states_checksum_def constant_time_eq_iff
      ok_or_def split: option.splits if_splits)

lemma check_trailers_states:
  assumes "hashed hs d t"
  shows "check_trailers hs d ns = Inr () \<longleftrightarrow>
     (\<forall>n \<in> set ns. \<exists>tr. find (\<lambda>t. tr_name t = n) (dec_trailers d) = Some tr \<and> states_checksum hs t n (tr_value tr))"
proof (induction ns)
  case (Cons n ns)
  have "check_trailers hs d (n # ns) = Inr () \<longleftrightarrow> check_trailer hs d n = Inr () \<and> check_trailers hs d ns = Inr ()" by auto
  with Cons.IH check_trailer_states [OF assms] show ?case by simp
qed simp

definition trailer_line :: "bytes \<times> bytes \<Rightarrow> bytes" where
  "trailer_line t = fst t @ 0x3a # snd t"

definition unsigned_body :: "bytes list \<Rightarrow> (bytes \<times> bytes) list \<Rightarrow> bytes" where
  "unsigned_body ds trs =
     concat (map (\<lambda>data. chunk_line (length data) None @ CRLF @ data @ CRLF) ds)
     @ chunk_line 0 None @ CRLF @ concat (map (\<lambda>t. trailer_line t @ CRLF) trs) @ CRLF"

definition trailer_ok :: "bytes \<times> bytes \<Rightarrow> bool" where
  "trailer_ok t \<longleftrightarrow> fst t \<noteq> [] \<and> list_all trailer_name_byte (fst t) \<and> snd t \<noteq> [] \<and> list_all is_ascii_graphic (snd t)"

definition trailers_size :: "(bytes \<times> bytes) list \<Rightarrow> nat" where
  "trailers_size trs = sum_list (map (\<lambda>t. length (trailer_line t) + 2) trs) + 2"

text \<open>A decoder in the trailers that has accepted some of them.\<close>

definition in_trailers ::
  "Crypto \<Rightarrow> 'h Hashes \<Rightarrow> bytes list \<Rightarrow> ChunkedLimits \<Rightarrow> 'h AwsChunkedDecoder \<Rightarrow> bytes \<Rightarrow> (bytes \<times> bytes) list \<Rightarrow> bytes \<Rightarrow> bool" where
  "in_trailers cr hs declared limits d t done rest \<longleftrightarrow>
     delivered cr hs d t \<and> dec_phase d = PTrailers \<and> available d = rest \<and> dec_mode d = UnsignedTrailer declared
     \<and> dec_limits d = limits \<and> dec_trailers d = map (\<lambda>(n, v). \<lparr>tr_name = n, tr_value = v\<rparr>) done
     \<and> trailer_bytes d + 2 = trailers_size done"

lemma delivered_offset: "delivered cr hs d t \<Longrightarrow> dec_offset d \<le> length (dec_input d)"
  by (simp add: delivered_def chunk_inv_def)

lemma name_byte_plain: "trailer_name_byte b \<Longrightarrow> b \<noteq> 0x3a \<and> b \<noteq> 0x0d \<and> \<not> is_ows b"
  by (auto simp: trailer_name_byte_def ascii_class_defs is_ows_def)

lemma graphic_plain: "is_ascii_graphic b \<Longrightarrow> b \<noteq> 0x0a \<and> b \<noteq> 0x0d \<and> \<not> is_ows b"
  by (auto simp: is_ascii_graphic_def is_ows_def)

lemma accept_trailer_forward:
  assumes ok: "trailer_ok (n, v)" and m: "dec_mode d = UnsignedTrailer declared" "n \<in> set declared"
    and f: "n \<notin> tr_name ` set (dec_trailers d)" "length (dec_trailers d) < max_trailers (dec_limits d)"
  shows "accept_trailer d (trailer_line (n, v))
     = (d\<lparr>dec_trailers := dec_trailers d @ [\<lparr>tr_name = n, tr_value = v\<rparr>]\<rparr>, Inr ())"
proof -
  from ok have n: "n \<noteq> []" "\<forall>b \<in> set n. trailer_name_byte b" and v: "v \<noteq> []" "\<forall>b \<in> set v. is_ascii_graphic b"
    by (simp_all add: trailer_ok_def list_all_iff)
  have p: "position (\<lambda>b. b = 0x3a) (trailer_line (n, v)) = Some (length n)"
    unfolding trailer_line_def fst_conv snd_conv by (rule position_append_here) (use n name_byte_plain in auto)
  have h: "\<not> is_ows (hd (trailer_line (n, v)))"
    using n name_byte_plain [of "hd n"] hd_in_set [of n] by (simp add: trailer_line_def)
  have t: "trim_ows v = v" unfolding trim_ows_def
    using v graphic_plain by (intro trim_by_id) (simp add: hd_in_set last_in_set)
  have l: "last v \<noteq> 0x0a" using v graphic_plain by simp
  have e: "take (length n) (trailer_line (n, v)) = n" "drop (length n + 1) (trailer_line (n, v)) = v"
    by (simp_all add: trailer_line_def)
  show ?thesis unfolding accept_trailer_def m(1) AwsChunkedMode.case p option.case e Let_def t
    using n v h l m(2) f by (auto simp: list_all_iff list_ex_iff not_le)
qed

lemma trailers_size_snoc: "trailers_size (done @ [t]) = trailers_size done + length (trailer_line t) + 2"
  by (simp add: trailers_size_def)

lemma trailer_forward:
  assumes i: "in_trailers cr hs declared limits d t done (trailer_line (n, v) @ CRLF @ rest)"
    and ok: "trailer_ok (n, v)" "n \<in> set declared" "n \<notin> fst ` set done" "length done < max_trailers limits"
    and sz: "trailers_size (done @ [(n, v)]) \<le> max_trailer_bytes limits" "trailers_size (done @ [(n, v)]) < 2 ^ 64"
  obtains d' where "decoder_loop cr hs d = decoder_loop cr hs d'"
    and "in_trailers cr hs declared limits d' t (done @ [(n, v)]) rest"
proof -
  let ?line = "trailer_line (n, v)"
  from i have d: "delivered cr hs d t" "dec_phase d = PTrailers" "available d = ?line @ CRLF @ rest"
    "dec_mode d = UnsignedTrailer declared" "dec_limits d = limits"
    "dec_trailers d = map (\<lambda>(n, v). \<lparr>tr_name = n, tr_value = v\<rparr>) done" "trailer_bytes d + 2 = trailers_size done"
    by (simp_all add: in_trailers_def)
  note off = delivered_offset [OF d(1)]
  have cr: "0x0d \<notin> set ?line" using ok(1) name_byte_plain graphic_plain
    by (auto simp: trailer_line_def trailer_ok_def list_all_iff)
  have len: "length ?line \<le> max_trailer_bytes (dec_limits d)" using sz(1) d(5) by (simp add: trailers_size_snoc)
  define d1 where "d1 = d\<lparr>dec_offset := dec_offset d + (length ?line + 2), trailer_bytes := trailer_bytes d + (length ?line + 2)\<rparr>"
  define d2 where "d2 = d1\<lparr>dec_trailers := dec_trailers d1 @ [\<lparr>tr_name = n, tr_value = v\<rparr>]\<rparr>"
  have nm: "n \<notin> tr_name ` set (dec_trailers d1)" using ok(3) by (force simp: d1_def d(6))
  have ac: "accept_trailer d1 ?line = (d2, Inr ())"
    unfolding d2_def using ok nm d by (intro accept_trailer_forward) (simp_all add: d1_def)
  have ne: "?line \<noteq> []" by (simp add: trailer_line_def)
  have tb: "trailer_bytes d + (length ?line + 2) < 2 ^ 64" "trailer_bytes d + (length ?line + 2) \<le> max_trailer_bytes limits"
    using sz d(7) by (simp_all add: trailers_size_snoc)
  have s: "decoder_step cr hs d = (d2, [], None)"
    using ac ne tb off unfolding d1_def
    by (simp add: decoder_step_def d(2,5) trailer_step_def take_line_found [OF d(3) cr len, unfolded d(5)] Let_def not_less)
  have "available d2 = rest" using available_advance [of d2 d "length ?line + 2"] d(3) by (simp add: d2_def d1_def CRLF_def)
  with step_delivered [OF d(1) s] d have "in_trailers cr hs declared limits d2 t (done @ [(n, v)]) rest"
    by (simp add: in_trailers_def trailers_size_snoc) (simp add: d2_def d1_def)
  with loop_continue [OF s] show thesis by (intro that) simp_all
qed

text \<open>The trailers that remain, and the empty line that ends them.\<close>

lemma trailers_end:
  assumes i: "in_trailers cr hs declared limits d t done CRLF"
    and hs: "hashes_incremental hs" and tot: "total_ok limits (length t)"
    and st: "map fst done = declared" "distinct declared" "\<forall>(n, v) \<in> set done. states_checksum hs t n v"
    and sz: "trailers_size done \<le> max_trailer_bytes limits" "trailers_size done < 2 ^ 64"
  shows "\<exists>d'. decoder_loop cr hs d = (d', [], Pushed DecodeDone)"
proof -
  from i have d: "delivered cr hs d t" "dec_phase d = PTrailers" "available d = CRLF"
    "dec_mode d = UnsignedTrailer declared" "dec_limits d = limits"
    "dec_trailers d = map (\<lambda>(n, v). \<lparr>tr_name = n, tr_value = v\<rparr>) done" "trailer_bytes d + 2 = trailers_size done"
    by (simp_all add: in_trailers_def)
  note off = delivered_offset [OF d(1)]
  have h: "hashed hs d t" "unat (decoded_bytes d) = length t" using d(1) hs by (simp_all add: delivered_def)
  have find: "find (\<lambda>t. tr_name t = n) (map (\<lambda>(n, v). \<lparr>tr_name = n, tr_value = v\<rparr>) ps) = Some \<lparr>tr_name = n, tr_value = v\<rparr>"
    if "(n, v) \<in> set ps" "distinct (map fst ps)" for ps n v
    using that by (induction ps) (auto simp: image_iff)
  have "check_trailers hs d declared = Inr ()"
    unfolding check_trailers_states [OF h(1)] d(6)
  proof
    fix n assume "n \<in> set declared"
    with st(1) obtain v where v: "(n, v) \<in> set done" by auto
    with find [OF v] st show "\<exists>tr. find (\<lambda>t. tr_name t = n) (map (\<lambda>(n, v). \<lparr>tr_name = n, tr_value = v\<rparr>) done) = Some tr
        \<and> states_checksum hs t n (tr_value tr)" by auto
  qed
  then have "finish_trailers hs d = Inr ()" using tot h(2) d(4,5)
    by (auto simp: finish_trailers_def total_ok_def word_unat_eq_iff split: option.splits)
  then have f: "finish_trailers hs (d\<lparr>dec_offset := x, trailer_bytes := y\<rparr>) = Inr ()" for x y
    by (subst finish_trailers_cong [of _ d]) simp_all
  have tl: "take_line d (max_trailer_bytes limits) True = (d\<lparr>dec_offset := dec_offset d + 2\<rparr>, Inr (Some []))"
    using take_line_found [of d "[]" "[]" "max_trailer_bytes limits" True] d(3) by simp
  have e: "available (d\<lparr>dec_offset := dec_offset d + 2, trailer_bytes := y, dec_phase := z\<rparr>) = []" for y z
    using available_advance [of "d\<lparr>dec_offset := dec_offset d + 2\<rparr>" d 2] d(3) by (simp add: CRLF_def)
  have tb: "trailer_bytes d + 2 < 2 ^ 64" "trailer_bytes d + 2 \<le> max_trailer_bytes limits" using sz d(7) by simp_all
  have "\<exists>d'. decoder_step cr hs d = (d', [], Some (Pushed DecodeDone))"
    using f e tb off by (simp add: decoder_step_def trailer_step_def d(2,5) tl Let_def not_less)
  then show ?thesis by (auto dest: loop_stop)
qed

lemma trailers_size_append: "trailers_size (done @ trs) \<ge> trailers_size done"
  by (simp add: trailers_size_def)

lemma trailers_run:
  assumes "in_trailers cr hs declared limits d t done (concat (map (\<lambda>t. trailer_line t @ CRLF) trs) @ CRLF)"
    and "hashes_incremental hs" "total_ok limits (length t)"
    and "map fst (done @ trs) = declared" "distinct declared" "\<forall>(n, v) \<in> set (done @ trs). states_checksum hs t n v"
    and "list_all trailer_ok trs" "length declared \<le> max_trailers limits"
    and "trailers_size (done @ trs) \<le> max_trailer_bytes limits" "trailers_size (done @ trs) < 2 ^ 64"
  shows "\<exists>d'. decoder_loop cr hs d = (d', [], Pushed DecodeDone)"
  using assms
proof (induction trs arbitrary: d "done")
  case Nil
  from Nil(1) trailers_end [OF _ Nil(2,3), of cr declared d "done"] Nil show ?case by simp
next
  case (Cons tr trs)
  obtain n v where tr: "tr = (n, v)" by (cases tr)
  have dn: "n \<in> set declared" "n \<notin> fst ` set done" "length done < max_trailers limits" "trailer_ok (n, v)"
    using Cons.prems(4,5,7,8) by (auto simp: tr simp flip: Cons.prems(4))
  have i: "in_trailers cr hs declared limits d t done
      (trailer_line (n, v) @ CRLF @ concat (map (\<lambda>t. trailer_line t @ CRLF) trs) @ CRLF)"
    using Cons.prems(1) by (simp add: tr)
  have sz: "trailers_size (done @ [(n, v)]) \<le> max_trailer_bytes limits" "trailers_size (done @ [(n, v)]) < 2 ^ 64"
    using Cons.prems(9,10) trailers_size_append [of "done @ [(n, v)]" trs] by (simp_all add: tr)
  obtain d' where d': "decoder_loop cr hs d = decoder_loop cr hs d'"
    "in_trailers cr hs declared limits d' t (done @ [(n, v)]) (concat (map (\<lambda>t. trailer_line t @ CRLF) trs) @ CRLF)"
    by (rule trailer_forward [OF i dn(4,1,2,3) sz])
  from Cons.IH [OF d'(2) Cons.prems(2,3)] Cons.prems(4-10) d'(1) show ?case by (simp add: tr)
qed

lemma unsigned_chunks_run:
  assumes "ready cr hs (UnsignedTrailer declared) limits d t
      (concat (map (\<lambda>data. chunk_line (length data) None @ CRLF @ data @ CRLF) ds) @ rest)"
    and "chunks_ok limits ds" "within limits (length t + length (concat ds))"
  shows "\<exists>d'. decoder_loop cr hs d = prepend (concat ds) (decoder_loop cr hs d')
     \<and> ready cr hs (UnsignedTrailer declared) limits d' (t @ concat ds) rest"
  using assms
proof (induction ds arbitrary: d t)
  case (Cons data ds)
  have sok: "sig_ok cr d data None" using Cons.prems(1) by (simp add: sig_ok_def ready_def)
  have c: "data \<noteq> []" "length data \<le> max_chunk_bytes limits" "length data \<le> MAX_BUFFERED_CHUNK_BYTES"
    "97 \<le> max_chunk_header_bytes limits" "chunks_ok limits ds"
    using Cons.prems(2) by (simp_all add: chunks_ok_def)
  have w: "within limits (length t + length data)"
    using Cons.prems(3) by (auto simp: within_def split: option.splits)
  from Cons.prems(1) have r: "ready cr hs (UnsignedTrailer declared) limits d t
      (chunk_line (length data) None @ CRLF @ data @ CRLF
       @ concat (map (\<lambda>data. chunk_line (length data) None @ CRLF @ data @ CRLF) ds) @ rest)" by simp
  obtain d' where d': "decoder_loop cr hs d = prepend data (decoder_loop cr hs d')"
    "ready cr hs (UnsignedTrailer declared) limits d' (t @ data)
       (concat (map (\<lambda>data. chunk_line (length data) None @ CRLF @ data @ CRLF) ds) @ rest)"
    using chunk_forward [OF r sok c(1-3) w c(4)] by auto
  from Cons.IH [OF d'(2) c(5)] Cons.prems(3) d'(1) show ?case by (auto simp: add.assoc)
qed (auto intro!: exI)

lemma unsigned_body_runs:
  assumes "ready cr hs (UnsignedTrailer declared) limits d [] (unsigned_body ds trs)"
    and "hashes_incremental hs" "chunks_ok limits ds" "total_ok limits (length (concat ds))"
    and "map fst trs = declared" "distinct declared" "\<forall>(n, v) \<in> set trs. states_checksum hs (concat ds) n v"
    and "list_all trailer_ok trs" "length declared \<le> max_trailers limits"
    and "trailers_size trs \<le> max_trailer_bytes limits" "trailers_size trs < 2 ^ 64"
  shows "\<exists>d'. decoder_loop cr hs d = (d', concat ds, Pushed DecodeDone)"
proof -
  let ?rest = "concat (map (\<lambda>t. trailer_line t @ CRLF) trs) @ CRLF"
  have w: "within limits (length (concat ds))" by (rule total_within [OF assms(4)]) simp
  from unsigned_chunks_run [OF assms(1) [unfolded unsigned_body_def] assms(3)] w
  obtain d1 where d1: "decoder_loop cr hs d = prepend (concat ds) (decoder_loop cr hs d1)"
    and r: "ready cr hs (UnsignedTrailer declared) limits d1 (concat ds) (chunk_line 0 None @ CRLF @ ?rest)" by auto
  have sok: "sig_ok cr d1 [] None" using r by (simp add: sig_ok_def ready_def)
  let ?k = "length (chunk_line 0 None) + 2"
  define d2 where "d2 = d1\<lparr>dec_offset := dec_offset d1 + ?k, dec_phase := PTrailers\<rparr>"
  have s: "decoder_step cr hs d1 = (d2, [], None)"
    using header_forward [OF r sok] w assms(3) by (simp add: open_chunk_def d2_def chunks_ok_def)
  have a: "available d2 = ?rest" using r available_advance [of d2 d1 ?k] by (simp add: ready_def d2_def CRLF_def)
  have "in_trailers cr hs declared limits d2 (concat ds) [] ?rest"
    using step_delivered [OF _ s, of "concat ds"] r a by (simp add: in_trailers_def ready_def trailers_size_def) (simp add: d2_def)
  from trailers_run [OF this assms(2)] assms(4-11) obtain d' where "decoder_loop cr hs d2 = (d', [], Pushed DecodeDone)" by auto
  with d1 loop_continue [OF s] show ?thesis by auto
qed

lemma loop_done_phase:
  "decoder_loop cr hs d = (d', out, r) \<Longrightarrow> r = Pushed DecodeDone \<Longrightarrow> dec_phase d' = PDone"
  by (induction rule: loop_induct) (auto dest: step_done_phase)

lemma validate_declarations_sound:
  "validate_declarations_loop seen ns = Inr () \<Longrightarrow> distinct ns \<and> set ns \<inter> set seen = {} \<and> set ns \<subseteq> set checksum_names"
  by (induction seen ns rule: validate_declarations_loop.induct) (auto split: if_splits)

lemma new_declared:
  assumes "AwsChunkedDecoder_new hs (UnsignedTrailer ns) limits = Inr d"
  shows "distinct ns" "set ns \<subseteq> set checksum_names"
  using assms validate_declarations_sound [of "[]" ns]
  by (auto simp: AwsChunkedDecoder_new_def validate_declarations_def split: if_splits)

lemma checksum_name_bytes: "n \<in> set checksum_names \<Longrightarrow> n \<noteq> [] \<and> list_all trailer_name_byte n"
  unfolding checksum_names_def
  by (auto simp: trailer_name_byte_def ascii_class_defs)

lemma states_ne: "states_checksum hs t n v \<Longrightarrow> v \<noteq> []"
  by (auto simp: states_checksum_def body_checksum_def simp del: ascii_Cons ascii_Nil split: option.splits if_splits)

section \<open>Properties\<close>

lemma new_signed:
  "AwsChunkedDecoder_new hs (Signed ctx) limits = Inr d \<Longrightarrow> previous_signature d = Some (seed_signature ctx)"
  by (auto simp: AwsChunkedDecoder_new_def)


text \<open>C6. An unsigned body with trailers is complete and checked when the decoder says done: each declared
  checksum came with a trailer whose value decodes to the digest of exactly the delivered bytes.\<close>

theorem unsigned_output_checked:
  assumes "hashes_incremental hs"
    and "AwsChunkedDecoder_new hs (UnsignedTrailer declared) limits = Ok d0"
    and "feed (AwsChunkedDecoder_push cr hs) chunk_more d0 a bs = (d, out, Pushed DecodeDone)"
  shows "\<forall>n \<in> set declared. \<exists>v. \<lparr>tr_name = n, tr_value = v\<rparr> \<in> set (dec_trailers d) \<and> states_checksum hs out n v"
proof -
  from body_last [OF assms(2,3)] obtain d1 where d1: "delivered cr hs d1 out" "dec_mode d1 = UnsignedTrailer declared"
    "decoder_step cr hs d1 = (d, [], Some (Pushed DecodeDone))" "dec_phase d1 \<noteq> PDone" by auto
  have h: "hashed hs d1 out" using d1(1) assms(1) by (simp add: delivered_def)
  from d1(3,4) have "finish_trailers hs d1 = Inr () \<and> dec_trailers d = dec_trailers d1"
    by (rule step_done) simp
  then have c: "check_trailers hs d1 declared = Inr ()" and t: "dec_trailers d = dec_trailers d1"
    using d1(2) by (simp_all add: finish_trailers_def)
  show ?thesis
  proof
    fix n assume "n \<in> set declared"
    with c obtain tr where "find (\<lambda>t. tr_name t = n) (dec_trailers d1) = Some tr" "states_checksum hs out n (tr_value tr)"
      unfolding check_trailers_states [OF h] by blast
    then have "tr \<in> set (dec_trailers d)" "tr = \<lparr>tr_name = n, tr_value = tr_value tr\<rparr>"
      using t by (auto simp: find_Some_iff)
    with \<open>states_checksum hs out n (tr_value tr)\<close>
    show "\<exists>v. \<lparr>tr_name = n, tr_value = v\<rparr> \<in> set (dec_trailers d) \<and> states_checksum hs out n v" by metis
  qed
qed

text \<open>C11. The decoder counts what it delivers and keeps its limits: a body in progress or done has delivered
  exactly \<^verbatim>\<open>decoded_bytes\<close> bytes, never more than the limit or than the declared decoded length, and
  exactly the declared length when done; and at no time does it hold back more than one chunk of at
  most \<^verbatim>\<open>MAX_BUFFERED_CHUNK_BYTES\<close>.\<close>

theorem decoded_length_bounds:
  assumes "AwsChunkedDecoder_new hs mode limits = Ok d0"
    and "feed (AwsChunkedDecoder_push cr hs) chunk_more d0 a bs = (d, out, r)"
  shows "length out \<le> unat (max_decoded_bytes limits)
     \<and> (case expected_decoded_length limits of
          None \<Rightarrow> True
        | Some e \<Rightarrow> length out \<le> unat e \<and> (r = Pushed DecodeDone \<longrightarrow> length out = unat e))
     \<and> (case r of
          Pushed _ \<Rightarrow> unat (decoded_bytes d) = length out
            \<and> (case dec_current d of None \<Rightarrow> True | Some c \<Rightarrow> length (cc_data c) \<le> MAX_BUFFERED_CHUNK_BYTES)
        | _ \<Rightarrow> True)"
proof -
  from body_last [OF assms] obtain d1 where d1: "delivered cr hs d1 out" "dec_limits d1 = limits"
    "decoder_step cr hs d1 = (d, [], Some r)" "dec_phase d1 \<noteq> PDone" by auto
  have w: "\<not> over_limit limits (decoded_bytes d1)" "unat (decoded_bytes d1) = length out"
    using d1(1,2) by (simp_all add: delivered_def chunk_inv_def)
  have e: "length out = unat e" if "r = Pushed DecodeDone" "expected_decoded_length limits = Some e" for e
  proof -
    have "finish_trailers hs d1 = Inr ()" using step_done [OF d1(3) [unfolded that(1)] d1(4)] by blast
    then have "decoded_bytes d1 = e" using that(2) d1(2) by (auto simp: finish_trailers_def split: if_splits)
    with w(2) show ?thesis by simp
  qed
  have p: "unat (decoded_bytes d) = length out
      \<and> (case dec_current d of None \<Rightarrow> True | Some c \<Rightarrow> length (cc_data c) \<le> MAX_BUFFERED_CHUNK_BYTES)" if "r = Pushed st" for st
    using done_delivered [OF d1(1) d1(3) [unfolded that]]
    by (auto simp: delivered_def chunk_inv_def split: option.splits)
  from w e p show ?thesis
    by (auto simp: over_limit_def word_less_nat_alt split: option.splits push_result.splits)
qed

text \<open>C12. No fragmentation of any body makes the decoder panic: the \<^verbatim>\<open>expect\<close>s of the data phases and of the
  signature chain hold, and no slice or subtraction is out of range.\<close>

theorem decoder_never_panics:
  assumes "AwsChunkedDecoder_new hs mode limits = Ok d0"
    and "feed (AwsChunkedDecoder_push cr hs) chunk_more d0 a bs = (d, out, r)"
  shows "r \<noteq> Panicked"
proof -
  from body_last [OF assms] obtain d1 where "chunk_inv d1" "decoder_step cr hs d1 = (d, [], Some r)"
    by (auto simp: delivered_def)
  with step_no_panic [of d1 cr hs d "[]"] show ?thesis by auto
qed

text \<open>C9. The result does not depend on how the body is cut into fragments: two fragmentations of the same
  bytes, both read to their ends, give the same output, the same result and the same decoder up to
  the consumed part of its buffer.\<close>

theorem body_fragmentation_irrelevant:
  assumes "AwsChunkedDecoder_new hs mode limits = Ok d0"
    and "a @ concat bs = c @ concat ds"
    and "fed (AwsChunkedDecoder_push cr hs) chunk_more d0 a bs = length bs"
    and "fed (AwsChunkedDecoder_push cr hs) chunk_more d0 c ds = length ds"
  shows "outcome dec_view (feed (AwsChunkedDecoder_push cr hs) chunk_more d0 a bs)
     = outcome dec_view (feed (AwsChunkedDecoder_push cr hs) chunk_more d0 c ds)"
  by (rule body.feed_fragmentation [OF new_inv [OF assms(1)] assms(2-4)])

text \<open>C13. The loop of \<^verbatim>\<open>push\<close> ends on every state: no infinite sequence of rounds that go on.\<close>

theorem decoder_loop_terminates:
  "wf {(d', d). \<exists>out. decoder_step cr hs d = (d', out, None)}"
proof (rule wf_subset)
  show "wf (measures [\<lambda>d. length (available d), \<lambda>d. phase_rank (dec_phase d)])" by (rule wf_measures)
  show "{(d', d). \<exists>out. decoder_step cr hs d = (d', out, None)}
      \<subseteq> measures [\<lambda>d. length (available d), \<lambda>d. phase_rank (dec_phase d)]"
    using step_measure by blast
qed

text \<open>C10. The inductive invariant of the decoder: a \<^verbatim>\<open>push\<close> that does not fail takes a state that is
  well-formed, has authenticated, counted and hashed what it delivered, to such a state for the longer
  output.\<close>

theorem push_keeps_delivered:
  assumes "delivered cr hs d t" and "AwsChunkedDecoder_push cr hs d a = (d', out, Pushed s)"
  shows "delivered cr hs d' (t @ out)"
proof (cases "dec_phase d = PDone")
  case True
  with assms show ?thesis by (auto simp: AwsChunkedDecoder_push_def split: if_splits)
next
  case False
  from push_last [OF assms False] obtain d1 where
    "delivered cr hs d1 (t @ out)" "decoder_step cr hs d1 = (d', [], Some (Pushed s))" by blast
  then show ?thesis by (rule done_delivered)
qed

text \<open>C7. Every well-formed signed body is accepted: the decoder delivers the concatenation of the chunks a
  client signed, and says done.\<close>

theorem signed_body_accepted:
  assumes "AwsChunkedDecoder_new hs (Signed ctx) limits = Ok d0"
    and "\<forall>k m. length (hmac_sha256 cr k m) = 32"
    and "chunks_ok limits ds" and "total_ok limits (length (concat ds))"
  shows "\<exists>d. AwsChunkedDecoder_push cr hs d0 (signed_body cr ctx (seed_signature ctx) ds)
     = (d, concat ds, Pushed DecodeDone) \<and> AwsChunkedDecoder_finish d = Ok ()"
proof -
  note r = new_ready(1,2) [OF assms(1), where cr = cr and body = "signed_body cr ctx (seed_signature ctx) ds"]
    new_ready(3) [OF assms(1), where body = "signed_body cr ctx (seed_signature ctx) ds"]
  from signed_body_runs [OF r(1) _ _ assms(3)] assms(2,4) r(3) obtain d where
    d: "decoder_loop cr hs (rebuf [] (signed_body cr ctx (seed_signature ctx) ds) (compact d0))
      = (d, concat ds, Pushed DecodeDone)" by auto
  with loop_done_phase [OF d] show ?thesis by (auto simp: r(2) AwsChunkedDecoder_finish_def)
qed

text \<open>C8. Every well-formed unsigned body is accepted: plain chunks followed by a trailer for each declared
  checksum that states the checksum of the data.\<close>

theorem unsigned_body_accepted:
  assumes "AwsChunkedDecoder_new hs (UnsignedTrailer (map fst trs)) limits = Ok d0"
    and "hashes_incremental hs"
    and "chunks_ok limits ds" and "total_ok limits (length (concat ds))"
    and "\<forall>(n, v) \<in> set trs. states_checksum hs (concat ds) n v \<and> list_all is_ascii_graphic v"
    and "length trs \<le> max_trailers limits"
    and "trailers_size trs \<le> max_trailer_bytes limits" and "trailers_size trs < 2 ^ 64"
  shows "\<exists>d. AwsChunkedDecoder_push cr hs d0 (unsigned_body ds trs) = (d, concat ds, Pushed DecodeDone)
     \<and> AwsChunkedDecoder_finish d = Ok ()"
proof -
  note r = new_ready(1,2) [OF assms(1), where cr = cr and body = "unsigned_body ds trs"]
    new_ready(3) [OF assms(1), where body = "unsigned_body ds trs"]
  note v = new_declared [OF assms(1)]
  have t: "list_all trailer_ok trs" using assms(5) v(2) states_ne
    by (fastforce simp: list_all_iff trailer_ok_def dest: checksum_name_bytes)
  have "\<forall>(n, v) \<in> set trs. states_checksum hs (concat ds) n v" using assms(5) by auto
  from unsigned_body_runs [OF r(1) assms(2,3,4) refl v(1) this t] assms(6-8) obtain d where
    d: "decoder_loop cr hs (rebuf [] (unsigned_body ds trs) (compact d0)) = (d, concat ds, Pushed DecodeDone)" by auto
  with loop_done_phase [OF d] show ?thesis by (auto simp: r(2) AwsChunkedDecoder_finish_def)
qed

text \<open>C16. A header line of exactly the permitted length is read or refused depending on where the input was
  cut: with its CR LF it is accepted, but when the buffer ends between the CR and the LF the same line
  is too large.\<close>

theorem line_limit_depends_on_cut:
  assumes "0x0d \<notin> set line" and "length line = limit"
    and "dec_offset d \<le> length (dec_input d)" and "available d = line @ [0x0d]"
  shows "take_line d limit False = (d, Err HeaderTooLarge)
     \<and> snd (take_line (d\<lparr>dec_input := dec_input d @ 0x0a # rest\<rparr>) limit False) = Ok (Some line)"
proof -
  have "find_sub CRLF (line @ [0x0d]) = None" using assms(1)
    by (induction line) (auto simp: CRLF_def starts_with_def)
  moreover have "available (d\<lparr>dec_input := dec_input d @ 0x0a # rest\<rparr>) = line @ CRLF @ rest"
    using assms(3,4) by (simp add: available_def CRLF_def)
  ultimately show ?thesis using assms by (simp add: take_line_def find_CRLF)
qed

section \<open>Concrete bodies\<close>

definition demo_crypto :: Crypto where
  "demo_crypto = \<lparr>sha256 = (\<lambda>_. replicate 32 0), hmac_sha256 = (\<lambda>_ _. replicate 32 7)\<rparr>"

definition demo_hashes :: "bytes Hashes" where
  "demo_hashes = \<lparr>crc32_new = [], crc32_update = (@), crc32_finalize = (\<lambda>s. of_nat (length s)),
     crc32c_new = [], crc32c_update = (@), crc32c_finalize = (\<lambda>s. of_nat (length s)),
     crc64nvme_new = [], crc64nvme_update = (@), crc64nvme_finalize = (\<lambda>s. of_nat (length s)),
     sha1_new = [], sha1_update = (@), sha1_finalize = (\<lambda>s. take 20 (s @ replicate 20 0)),
     sha256_new = [], sha256_hasher_update = (@), sha256_finalize = (\<lambda>s. take 32 (s @ replicate 32 0)),
     base64_decode = (\<lambda>v. if v = ascii ''AAAAAw=='' then Some [0, 0, 0, 3] else None)\<rparr>"

definition demo_context :: StreamingSigningContext where
  "demo_context = \<lparr>ctx_signing_key = [1], ctx_amz_date = ascii ''20260101T000000Z'',
     ctx_credential_scope = ascii ''scope'', seed_signature = replicate 32 5\<rparr>"

definition demo_trailers :: "(bytes \<times> bytes) list" where
  "demo_trailers = [(ascii ''x-amz-checksum-crc32'', ascii ''AAAAAw=='')]"

definition demo_limits :: ChunkedLimits where
  "demo_limits = \<lparr>max_chunk_header_bytes = 100, max_chunk_bytes = 100, max_decoded_bytes = 100,
     max_trailer_bytes = 200, max_trailers = 2, expected_decoded_length = Some 3\<rparr>"

definition demo_signed :: "bytes AwsChunkedDecoder" where
  "demo_signed = \<lparr>dec_mode = Signed demo_context, dec_limits = demo_limits, dec_phase = PHeader, dec_input = [],
     dec_offset = 0, dec_current = None, decoded_bytes = 0, dec_crc32 = [], dec_crc32c = [], dec_crc64nvme = [],
     dec_sha1 = [], dec_sha256 = [], dec_trailers = [], trailer_bytes = 0,
     previous_signature = Some (replicate 32 5)\<rparr>"

definition demo_unsigned :: "bytes AwsChunkedDecoder" where
  "demo_unsigned = demo_signed\<lparr>dec_mode := UnsignedTrailer (map fst demo_trailers), previous_signature := None\<rparr>"

abbreviation demo_push :: "bytes AwsChunkedDecoder \<Rightarrow> bytes \<Rightarrow> bytes AwsChunkedDecoder \<times> bytes \<times> push_result" where
  "demo_push \<equiv> AwsChunkedDecoder_push demo_crypto demo_hashes"

lemma demo_facts:
  "AwsChunkedDecoder_new demo_hashes (Signed demo_context) demo_limits = Ok demo_signed"
  "AwsChunkedDecoder_new demo_hashes (UnsignedTrailer (map fst demo_trailers)) demo_limits = Ok demo_unsigned"
  "\<forall>k m. length (hmac_sha256 demo_crypto k m) = 32"
  "chunks_ok demo_limits [[1], [2, 3]]" "total_ok demo_limits (length (concat [[1], [2, 3 :: u8]]))"
  "hashes_incremental demo_hashes"
  by (simp_all add: AwsChunkedDecoder_new_def demo_signed_def demo_unsigned_def demo_hashes_def demo_context_def
      validate_declarations_def demo_trailers_def checksum_names_def demo_crypto_def chunks_ok_def demo_limits_def
      MAX_BUFFERED_CHUNK_BYTES_def total_ok_def hashes_incremental_def)

lemma demo_checksum:
  "\<forall>(n, v) \<in> set demo_trailers. states_checksum demo_hashes (concat [[1], [2, 3]]) n v \<and> list_all is_ascii_graphic v"
  "length demo_trailers \<le> max_trailers demo_limits"
  "trailers_size demo_trailers \<le> max_trailer_bytes demo_limits" "trailers_size demo_trailers < 2 ^ 64"
  by (simp_all add: demo_trailers_def states_checksum_def body_checksum_def demo_hashes_def to_be_bytes_def
      is_ascii_graphic_def demo_limits_def trailers_size_def trailer_line_def upt_rec drop_bit_eq_div)

definition demo_signed_body :: bytes where
  "demo_signed_body = signed_body demo_crypto demo_context (seed_signature demo_context) [[1], [2, 3]]"

definition demo_unsigned_body :: bytes where
  "demo_unsigned_body = unsigned_body [[1], [2, 3]] demo_trailers"

text \<open>The two bodies run to their ends.\<close>

lemma demo_signed_run:
  obtains d where "demo_push demo_signed demo_signed_body = (d, [1, 2, 3], Pushed DecodeDone)"
proof -
  note r = new_ready(1,2) [OF demo_facts(1), where cr = demo_crypto and body = demo_signed_body]
    new_ready(3) [OF demo_facts(1), where body = demo_signed_body]
  have "\<exists>d. decoder_loop demo_crypto demo_hashes (rebuf [] demo_signed_body (compact demo_signed))
      = (d, concat [[1], [2, 3]], Pushed DecodeDone)"
    by (rule signed_body_runs [OF r(1) [unfolded demo_signed_body_def] _ _ demo_facts(4),
          folded demo_signed_body_def]) (use r(3) demo_facts(3,5) in simp_all)
  then show thesis using that by (auto simp: r(2))
qed

lemma demo_unsigned_run:
  obtains d where "demo_push demo_unsigned demo_unsigned_body = (d, [1, 2, 3], Pushed DecodeDone)"
proof -
  note r = new_ready(1,2) [OF demo_facts(2), where cr = demo_crypto and body = demo_unsigned_body]
  have t: "list_all trailer_ok demo_trailers" "distinct (map fst demo_trailers)"
    "length (map fst demo_trailers) \<le> max_trailers demo_limits"
    "\<forall>(n, v) \<in> set demo_trailers. states_checksum demo_hashes (concat [[1], [2, 3]]) n v"
    using demo_checksum by (auto simp: demo_trailers_def trailer_ok_def trailer_name_byte_def ascii_class_defs)
  have "\<exists>d. decoder_loop demo_crypto demo_hashes (rebuf [] demo_unsigned_body (compact demo_unsigned))
      = (d, concat [[1], [2, 3]], Pushed DecodeDone)"
    by (rule unsigned_body_runs [OF r(1) [unfolded demo_unsigned_body_def] demo_facts(6,4,5) refl t(2,4,1,3)
          demo_checksum(3,4), folded demo_unsigned_body_def])
  then show thesis using that by (auto simp: r(2))
qed


theorem unsigned_output_checked_witness:
  "\<exists>d. feed demo_push chunk_more demo_unsigned demo_unsigned_body [] = (d, [1, 2, 3], Pushed DecodeDone)
     \<and> (\<exists>v. \<lparr>tr_name = ascii ''x-amz-checksum-crc32'', tr_value = v\<rparr> \<in> set (dec_trailers d)
          \<and> states_checksum demo_hashes [1, 2, 3] (ascii ''x-amz-checksum-crc32'') v)"
proof -
  obtain d where d: "feed demo_push chunk_more demo_unsigned demo_unsigned_body [] = (d, [1, 2, 3], Pushed DecodeDone)"
    using demo_unsigned_run by auto
  have "ascii ''x-amz-checksum-crc32'' \<in> set (map fst demo_trailers)" by (simp add: demo_trailers_def del: ascii_Cons)
  with unsigned_output_checked [OF demo_facts(6,2) d] d show ?thesis by blast
qed

theorem decoded_length_bounds_witness:
  "\<exists>d. feed demo_push chunk_more demo_signed demo_signed_body [] = (d, [1, 2, 3], Pushed DecodeDone)
     \<and> unat (decoded_bytes d) = length [1, 2, 3 :: u8]
     \<and> length [1, 2, 3 :: u8] \<le> unat (max_decoded_bytes demo_limits)"
proof -
  obtain d where d: "feed demo_push chunk_more demo_signed demo_signed_body [] = (d, [1, 2, 3], Pushed DecodeDone)"
    using demo_signed_run by auto
  from decoded_length_bounds [OF demo_facts(1) d] d show ?thesis by auto
qed

theorem decoder_never_panics_witness:
  "snd (snd (feed demo_push chunk_more demo_signed [0x30] [[0x0d], [0x0a]])) \<noteq> Panicked"
proof -
  obtain d out r where f: "feed demo_push chunk_more demo_signed [0x30] [[0x0d], [0x0a]] = (d, out, r)"
    by (rule prod_cases3)
  from decoder_never_panics [OF demo_facts(1) f] f show ?thesis by simp
qed

theorem push_keeps_delivered_witness:
  "\<exists>d. demo_push demo_signed demo_signed_body = (d, [1, 2, 3], Pushed DecodeDone)
     \<and> delivered demo_crypto demo_hashes d [1, 2, 3]"
proof -
  obtain d where d: "demo_push demo_signed demo_signed_body = (d, [1, 2, 3], Pushed DecodeDone)"
    by (rule demo_signed_run)
  have "delivered demo_crypto demo_hashes demo_signed []" using new_delivered [OF demo_facts(1)] by simp
  from push_keeps_delivered [OF this d] d show ?thesis by auto
qed

theorem signed_body_accepted_witness:
  "\<exists>d. demo_push demo_signed (signed_body demo_crypto demo_context (seed_signature demo_context) [[1], [2, 3]])
     = (d, concat [[1], [2, 3]], Pushed DecodeDone) \<and> AwsChunkedDecoder_finish d = Ok ()"
  by (rule signed_body_accepted [OF demo_facts(1,3-5)])

theorem unsigned_body_accepted_witness:
  "\<exists>d. demo_push demo_unsigned (unsigned_body [[1], [2, 3]] demo_trailers)
     = (d, concat [[1], [2, 3]], Pushed DecodeDone) \<and> AwsChunkedDecoder_finish d = Ok ()"
  by (rule unsigned_body_accepted [OF demo_facts(2,6,4,5) demo_checksum])

theorem line_limit_depends_on_cut_witness:
  "take_line (demo_unsigned\<lparr>dec_input := [0x31, 0x0d]\<rparr>) 1 False
     = (demo_unsigned\<lparr>dec_input := [0x31, 0x0d]\<rparr>, Err HeaderTooLarge)
   \<and> snd (take_line (demo_unsigned\<lparr>dec_input := [0x31, 0x0d] @ [0x0a]\<rparr>) 1 False) = Ok (Some [0x31])"
  using line_limit_depends_on_cut [of "[0x31]" 1 "demo_unsigned\<lparr>dec_input := [0x31, 0x0d]\<rparr>" "[]"]
  by (simp add: available_def demo_unsigned_def demo_signed_def)

lemma demo_more:
  "demo_push demo_unsigned [0x31] = (demo_unsigned\<lparr>dec_input := [0x31]\<rparr>, [], Pushed NeedMore)"
  "demo_push demo_unsigned [0x31, 0x0d] = (demo_unsigned\<lparr>dec_input := [0x31, 0x0d]\<rparr>, [], Pushed NeedMore)"
proof -
  have "demo_push demo_unsigned bs = (demo_unsigned\<lparr>dec_input := bs\<rparr>, [], Pushed NeedMore)"
    if "find_sub CRLF bs = None" "length bs \<le> 100" for bs
  proof -
    have "decoder_step demo_crypto demo_hashes (demo_unsigned\<lparr>dec_input := bs\<rparr>)
        = (demo_unsigned\<lparr>dec_input := bs\<rparr>, [], Some (Pushed NeedMore))"
      using that by (simp add: decoder_step_def header_step_def take_line_def available_def demo_limits_def
          demo_unsigned_def demo_signed_def)
    from loop_stop [OF this] show ?thesis
      by (simp add: AwsChunkedDecoder_push_def compact_def demo_unsigned_def demo_signed_def)
  qed
  from this [of "[0x31]"] this [of "[0x31, 0x0d]"] show
    "demo_push demo_unsigned [0x31] = (demo_unsigned\<lparr>dec_input := [0x31]\<rparr>, [], Pushed NeedMore)"
    "demo_push demo_unsigned [0x31, 0x0d] = (demo_unsigned\<lparr>dec_input := [0x31, 0x0d]\<rparr>, [], Pushed NeedMore)"
    by (simp_all add: CRLF_def starts_with_def)
qed

theorem body_fragmentation_irrelevant_witness:
  "outcome dec_view (feed demo_push chunk_more demo_unsigned [0x31] [[0x0d, 0x0a]])
     = outcome dec_view (feed demo_push chunk_more demo_unsigned [0x31, 0x0d] [[0x0a]])"
  by (rule body_fragmentation_irrelevant [OF demo_facts(2)]) (simp_all add: demo_more chunk_more_def)

end
