(* ===== verification/Xml.thy ===== *)
theory Xml
  imports Text
begin

text \<open>
  \<^verbatim>\<open>protocol/xml.rs\<close>: the bounded request parser and the writer of XML responses.

  The pull parser of the \<^verbatim>\<open>quick_xml\<close> crate is the parameter record \<open>XmlReader\<close>: it turns the document into
  the sequence of events that \<^verbatim>\<open>read_event\<close> returns under the configuration the source sets (end names
  checked, empty elements expanded), and the end of the list is \<^verbatim>\<open>Event::Eof\<close>.  An event carries the
  results of the crate's own decoding functions, errors included.  \<open>utf8_error_text\<close> is the message
  of the standard library's UTF-8 error.  The element stack is a list with the innermost element
  first.
\<close>

section \<open>Data\<close>

record XmlLimits =
  max_document_bytes :: nat
  max_depth :: nat
  max_nodes :: nat
  max_text_bytes :: nat
  max_complete_parts :: nat
  max_delete_objects :: nat

definition XmlLimits_default :: XmlLimits where
  "XmlLimits_default = \<lparr>max_document_bytes = 1024 * 1024, max_depth = 16, max_nodes = 32000,
     max_text_bytes = 1024 * 1024, max_complete_parts = 10000, max_delete_objects = 1000\<rparr>"

datatype XmlError =
    DocumentTooLarge | TooDeep | TooManyNodes | TextTooLarge | Malformed bytes | ForbiddenConstruct
  | MissingRoot | MultipleRoots | UnexpectedRoot bytes bytes | UnexpectedElement bytes
  | MissingField bytes | DuplicateField bytes | InvalidField bytes | TooManyItems
  | PartNumbersNotIncreasing

definition XmlError_display :: "XmlError \<Rightarrow> bytes" where
  "XmlError_display e =
     (case e of
        DocumentTooLarge \<Rightarrow> ascii ''XML document exceeds its size limit''
      | TooDeep \<Rightarrow> ascii ''XML nesting exceeds its depth limit''
      | TooManyNodes \<Rightarrow> ascii ''XML document has too many elements''
      | TextTooLarge \<Rightarrow> ascii ''XML text exceeds its size limit''
      | Malformed error \<Rightarrow> ascii ''malformed XML: '' @ error
      | ForbiddenConstruct \<Rightarrow> ascii ''DTD and processing instructions are forbidden''
      | MissingRoot \<Rightarrow> ascii ''XML document has no root element''
      | MultipleRoots \<Rightarrow> ascii ''XML document has multiple root elements''
      | UnexpectedRoot expected actual \<Rightarrow>
          ascii ''expected XML root '' @ expected @ ascii '', got '' @ actual
      | UnexpectedElement element \<Rightarrow> ascii ''unexpected XML element '' @ element
      | MissingField field \<Rightarrow> ascii ''missing XML field '' @ field
      | DuplicateField field \<Rightarrow> ascii ''duplicate XML field '' @ field
      | InvalidField field \<Rightarrow> ascii ''invalid XML field '' @ field
      | TooManyItems \<Rightarrow> ascii ''XML request contains too many items''
      | PartNumbersNotIncreasing \<Rightarrow> ascii ''multipart part numbers must be strictly increasing'')"

record PartChecksums =
  pc_crc32 :: "bytes option"
  pc_crc32c :: "bytes option"
  pc_sha1 :: "bytes option"
  pc_sha256 :: "bytes option"

record CompletedPart =
  cp_part_number :: nat
  cp_etag :: bytes
  cp_checksums :: PartChecksums

record CompleteMultipartUpload =
  cmu_parts :: "CompletedPart list"

record DeleteObjectIdentifier =
  doi_key :: bytes
  doi_version_id :: "bytes option"

record DeleteObjectsRequest =
  dor_objects :: "DeleteObjectIdentifier list"
  dor_quiet :: bool

datatype Node = Node (node_name: bytes) (node_text: bytes) (node_children: "Node list")

datatype XmlEvent =
    EvStart "bytes option" bytes
  | EvEnd
  | EvText "bytes + bytes"
  | EvCData "bytes + bytes"
  | EvComment
  | EvDecl
  | EvGeneralRef "bytes + bytes" "bytes + bytes option" "bytes option"
  | EvPI
  | EvDocType
  | EvReadError bytes

record XmlReader =
  read_events :: "bytes \<Rightarrow> XmlEvent list"
  utf8_error_text :: "bytes \<Rightarrow> bytes"

section \<open>The document tree\<close>

record TreeState =
  ts_stack :: "Node list"
  ts_root :: "Node option"
  ts_nodes :: nat
  ts_text_bytes :: nat
  ts_saw_declaration :: bool

definition append_text :: "XmlLimits \<Rightarrow> bytes \<Rightarrow> TreeState \<Rightarrow> XmlError + TreeState" where
  "append_text limits txt s =
     (let n = ts_text_bytes s + length txt in
      if \<not> n < 2 ^ 64 \<or> n > max_text_bytes limits then Err TextTooLarge
      else case ts_stack s of
        Node name text children # rest \<Rightarrow>
          Ok (s\<lparr>ts_text_bytes := n, ts_stack := Node name (text @ txt) children # rest\<rparr>)
      | [] \<Rightarrow>
          if str_trim txt \<noteq> [] then
            Err (if ts_root s \<noteq> None then MultipleRoots else Malformed (ascii ''text outside root element''))
          else Ok (s\<lparr>ts_text_bytes := n\<rparr>))"

definition start_element :: "XmlReader \<Rightarrow> XmlLimits \<Rightarrow> bytes option \<Rightarrow> bytes \<Rightarrow> TreeState \<Rightarrow> XmlError + TreeState" where
  "start_element rd limits attribute_error local_name s =
     (if length (ts_stack s) \<ge> max_depth limits then Err TooDeep
      else if \<not> ts_nodes s + 1 < 2 ^ 64 \<or> ts_nodes s + 1 > max_nodes limits then Err TooManyNodes
      else case attribute_error of
        Some e \<Rightarrow> Err (Malformed e)
      | None \<Rightarrow>
          rbind (ok_or (from_utf8 local_name) (Malformed (utf8_error_text rd local_name))) (\<lambda>name.
          Ok (s\<lparr>ts_nodes := ts_nodes s + 1, ts_stack := Node name [] [] # ts_stack s\<rparr>)))"

definition end_element :: "TreeState \<Rightarrow> XmlError + TreeState" where
  "end_element s =
     (case ts_stack s of
        [] \<Rightarrow> Err (Malformed (ascii ''unmatched end tag''))
      | [node] \<Rightarrow>
          if ts_root s \<noteq> None then Err MultipleRoots
          else Ok (s\<lparr>ts_stack := [], ts_root := Some node\<rparr>)
      | node # Node name text children # rest \<Rightarrow>
          Ok (s\<lparr>ts_stack := Node name text (children @ [node]) # rest\<rparr>))"

definition tree_event :: "XmlReader \<Rightarrow> XmlLimits \<Rightarrow> XmlEvent \<Rightarrow> TreeState \<Rightarrow> XmlError + TreeState" where
  "tree_event rd limits event s =
     (case event of
        EvReadError e \<Rightarrow> Err (Malformed e)
      | EvStart attribute_error local_name \<Rightarrow> start_element rd limits attribute_error local_name s
      | EvEnd \<Rightarrow> end_element s
      | EvText decoded \<Rightarrow> rbind (map_err Malformed decoded) (\<lambda>txt. append_text limits txt s)
      | EvCData decoded \<Rightarrow> rbind (map_err Malformed decoded) (\<lambda>txt. append_text limits txt s)
      | EvComment \<Rightarrow> Ok s
      | EvDecl \<Rightarrow>
          if \<not> ts_saw_declaration s \<and> ts_root s = None \<and> ts_stack s = []
          then Ok (s\<lparr>ts_saw_declaration := True\<rparr>) else Err ForbiddenConstruct
      | EvGeneralRef content char_ref entity \<Rightarrow>
          rbind (map_err Malformed content) (\<lambda>_.
          rbind (map_err Malformed char_ref) (\<lambda>character.
          rbind (case character of Some c \<Rightarrow> Ok c | None \<Rightarrow> ok_or entity ForbiddenConstruct) (\<lambda>resolved.
          append_text limits resolved s)))
      | EvPI \<Rightarrow> Err ForbiddenConstruct
      | EvDocType \<Rightarrow> Err ForbiddenConstruct)"

fun tree_events :: "XmlReader \<Rightarrow> XmlLimits \<Rightarrow> XmlEvent list \<Rightarrow> TreeState \<Rightarrow> XmlError + TreeState" where
  "tree_events rd limits [] s = Ok s"
| "tree_events rd limits (e # es) s = rbind (tree_event rd limits e s) (tree_events rd limits es)"

definition tree_start :: TreeState where
  "tree_start = \<lparr>ts_stack = [], ts_root = None, ts_nodes = 0, ts_text_bytes = 0, ts_saw_declaration = False\<rparr>"

definition parse_tree :: "XmlReader \<Rightarrow> bytes \<Rightarrow> XmlLimits \<Rightarrow> XmlError + Node" where
  "parse_tree rd input limits =
     (if length input > max_document_bytes limits then Err DocumentTooLarge
      else rbind (tree_events rd limits (read_events rd input) tree_start) (\<lambda>s.
        if ts_stack s \<noteq> [] then Err (Malformed (ascii ''unclosed element''))
        else ok_or (ts_root s) MissingRoot))"

section \<open>Requests\<close>

definition expect_root :: "Node \<Rightarrow> bytes \<Rightarrow> XmlError + unit" where
  "expect_root root expected =
     (if node_name root = expected then Ok () else Err (UnexpectedRoot expected (node_name root)))"

definition children_named :: "Node \<Rightarrow> bytes \<Rightarrow> Node list" where
  "children_named node name = filter (\<lambda>child. node_name child = name) (node_children node)"

definition required_once :: "Node \<Rightarrow> bytes \<Rightarrow> XmlError + Node" where
  "required_once node name =
     (case children_named node name of
        [] \<Rightarrow> Err (MissingField name)
      | value # others \<Rightarrow>
          if others \<noteq> [] then Err (DuplicateField name)
          else if node_children value \<noteq> [] then Err (InvalidField name)
          else Ok value)"

definition optional_text_untrimmed :: "Node \<Rightarrow> bytes \<Rightarrow> XmlError + bytes option" where
  "optional_text_untrimmed node name =
     (case children_named node name of
        [] \<Rightarrow> Ok None
      | value # others \<Rightarrow>
          if others \<noteq> [] then Err (DuplicateField name)
          else if node_children value \<noteq> [] then Err (InvalidField name)
          else Ok (Some (node_text value)))"

definition optional_text :: "Node \<Rightarrow> bytes \<Rightarrow> XmlError + bytes option" where
  "optional_text node name = rbind (optional_text_untrimmed node name) (\<lambda>value. Ok (map_option str_trim value))"

definition reject_unknown_children :: "Node \<Rightarrow> bytes list \<Rightarrow> XmlError + unit" where
  "reject_unknown_children node allowed =
     (case find (\<lambda>child. node_name child \<notin> set allowed) (node_children node) of
        Some child \<Rightarrow> Err (UnexpectedElement (node_name child))
      | None \<Rightarrow> Ok ())"

definition part_children :: "bytes list" where
  "part_children = [ascii ''PartNumber'', ascii ''ETag'', ascii ''ChecksumCRC32'', ascii ''ChecksumCRC32C'',
     ascii ''ChecksumSHA1'', ascii ''ChecksumSHA256'']"

definition parse_part :: "Node \<Rightarrow> nat \<Rightarrow> XmlError + CompletedPart" where
  "parse_part child previous =
     rbind (required_once child (ascii ''PartNumber'')) (\<lambda>number.
     rbind (ok_or (case parse_unsigned 16 (str_trim (node_text number)) of
                     Some n \<Rightarrow> if 1 \<le> n \<and> n \<le> 10000 then Some n else None
                   | None \<Rightarrow> None) (InvalidField (ascii ''PartNumber''))) (\<lambda>part_number.
     if part_number \<le> previous then Err PartNumbersNotIncreasing
     else
     rbind (required_once child (ascii ''ETag'')) (\<lambda>etag_node.
     let etag = str_trim (node_text etag_node) in
     if etag = [] then Err (InvalidField (ascii ''ETag''))
     else
     rbind (optional_text child (ascii ''ChecksumCRC32'')) (\<lambda>crc32.
     rbind (optional_text child (ascii ''ChecksumCRC32C'')) (\<lambda>crc32c.
     rbind (optional_text child (ascii ''ChecksumSHA1'')) (\<lambda>sha1.
     rbind (optional_text child (ascii ''ChecksumSHA256'')) (\<lambda>sha256.
     rbind (reject_unknown_children child part_children) (\<lambda>_.
     Ok \<lparr>cp_part_number = part_number, cp_etag = etag,
         cp_checksums = \<lparr>pc_crc32 = crc32, pc_crc32c = crc32c, pc_sha1 = sha1, pc_sha256 = sha256\<rparr>\<rparr>))))))))"

fun parse_parts :: "XmlLimits \<Rightarrow> Node list \<Rightarrow> CompletedPart list \<Rightarrow> nat \<Rightarrow> XmlError + CompletedPart list" where
  "parse_parts limits [] parts previous = Ok parts"
| "parse_parts limits (child # children) parts previous =
     (if node_name child \<noteq> ascii ''Part'' then Err (UnexpectedElement (node_name child))
      else if length parts \<ge> max_complete_parts limits then Err TooManyItems
      else rbind (parse_part child previous) (\<lambda>part.
        parse_parts limits children (parts @ [part]) (cp_part_number part)))"

definition parse_complete_multipart :: "XmlReader \<Rightarrow> bytes \<Rightarrow> XmlLimits \<Rightarrow> XmlError + CompleteMultipartUpload" where
  "parse_complete_multipart rd input limits =
     rbind (parse_tree rd input limits) (\<lambda>root.
     rbind (expect_root root (ascii ''CompleteMultipartUpload'')) (\<lambda>_.
     rbind (parse_parts limits (node_children root) [] 0) (\<lambda>parts.
     if parts = [] then Err (MissingField (ascii ''Part''))
     else Ok \<lparr>cmu_parts = parts\<rparr>)))"

definition parse_object :: "Node \<Rightarrow> XmlError + DeleteObjectIdentifier" where
  "parse_object child =
     rbind (reject_unknown_children child [ascii ''Key'', ascii ''VersionId'']) (\<lambda>_.
     rbind (required_once child (ascii ''Key'')) (\<lambda>key_node.
     if node_text key_node = [] then Err (InvalidField (ascii ''Key''))
     else rbind (optional_text_untrimmed child (ascii ''VersionId'')) (\<lambda>version_id.
       Ok \<lparr>doi_key = node_text key_node, doi_version_id = version_id\<rparr>)))"

definition parse_quiet :: "Node \<Rightarrow> XmlError + bool" where
  "parse_quiet child =
     (let value = str_trim (node_text child) in
      if eq_ignore_ascii_case value (ascii ''true'') then Ok True
      else if eq_ignore_ascii_case value (ascii ''false'') then Ok False
      else Err (InvalidField (ascii ''Quiet'')))"

text \<open>The flag \<^verbatim>\<open>quiet\<close> and \<^verbatim>\<open>saw_quiet\<close> in one: \<open>None\<close> until the element is seen.\<close>

fun parse_objects :: "XmlLimits \<Rightarrow> Node list \<Rightarrow> DeleteObjectIdentifier list \<Rightarrow> bool option \<Rightarrow>
  XmlError + DeleteObjectIdentifier list \<times> bool option" where
  "parse_objects limits [] objects quiet = Ok (objects, quiet)"
| "parse_objects limits (child # children) objects quiet =
     (if node_name child = ascii ''Object'' then
        if length objects \<ge> max_delete_objects limits then Err TooManyItems
        else rbind (parse_object child) (\<lambda>object. parse_objects limits children (objects @ [object]) quiet)
      else if node_name child = ascii ''Quiet'' then
        if quiet \<noteq> None then Err (DuplicateField (ascii ''Quiet''))
        else rbind (parse_quiet child) (\<lambda>q. parse_objects limits children objects (Some q))
      else Err (UnexpectedElement (node_name child)))"

definition parse_delete_objects :: "XmlReader \<Rightarrow> bytes \<Rightarrow> XmlLimits \<Rightarrow> XmlError + DeleteObjectsRequest" where
  "parse_delete_objects rd input limits =
     rbind (parse_tree rd input limits) (\<lambda>root.
     rbind (expect_root root (ascii ''Delete'')) (\<lambda>_.
     rbind (parse_objects limits (node_children root) [] None) (\<lambda>(objects, quiet).
     if objects = [] then Err (MissingField (ascii ''Object''))
     else Ok \<lparr>dor_objects = objects, dor_quiet = (quiet = Some True)\<rparr>)))"

section \<open>Responses\<close>

text \<open>The writer appends to its buffer; the five characters it escapes are ASCII, so they are found
  byte by byte in the UTF-8 text.\<close>

definition escape_byte :: "u8 \<Rightarrow> bytes" where
  "escape_byte b =
     (if b = 0x26 then ascii ''&amp;''
      else if b = 0x3c then ascii ''&lt;''
      else if b = 0x3e then ascii ''&gt;''
      else if b = 0x22 then ascii ''&quot;''
      else if b = 0x27 then ascii ''&apos;''
      else [b])"

definition escaped :: "bytes \<Rightarrow> bytes" where
  "escaped value = concat (map escape_byte value)"

definition xml_start :: "bytes \<Rightarrow> bytes" where
  "xml_start name = 0x3c # name @ [0x3e]"

definition xml_end :: "bytes \<Rightarrow> bytes" where
  "xml_end name = ascii ''</'' @ name @ [0x3e]"

definition xml_element :: "bytes \<Rightarrow> bytes \<Rightarrow> bytes" where
  "xml_element name value = xml_start name @ escaped value @ xml_end name"

definition xml_optional :: "bytes \<Rightarrow> bytes option \<Rightarrow> bytes" where
  "xml_optional name value = (case value of None \<Rightarrow> [] | Some v \<Rightarrow> xml_element name v)"

definition S3_XMLNS :: bytes where
  "S3_XMLNS = ascii ''http://s3.amazonaws.com/doc/2006-03-01/''"

definition xml_prolog :: bytes where
  "xml_prolog = ascii ''<?xml version='' @ [0x22] @ ascii ''1.0'' @ [0x22] @ ascii '' encoding='' @ [0x22]
     @ ascii ''UTF-8'' @ [0x22] @ ascii ''?>''"

definition xml_document :: "bytes \<Rightarrow> bytes" where
  "xml_document root = xml_prolog @ xml_start root"

definition xml_document_ns :: "bytes \<Rightarrow> bytes" where
  "xml_document_ns root = xml_prolog @ [0x3c] @ root @ ascii '' xmlns='' @ [0x22] @ escaped S3_XMLNS @ [0x22, 0x3e]"

record S3ErrorResponse =
  er_code :: bytes
  er_message :: bytes
  er_resource :: "bytes option"
  er_request_id :: bytes
  er_host_id :: "bytes option"

definition serialize_error :: "S3ErrorResponse \<Rightarrow> bytes" where
  "serialize_error e =
     xml_document (ascii ''Error'')
     @ xml_element (ascii ''Code'') (er_code e)
     @ xml_element (ascii ''Message'') (er_message e)
     @ xml_optional (ascii ''Resource'') (er_resource e)
     @ xml_element (ascii ''RequestId'') (er_request_id e)
     @ xml_optional (ascii ''HostId'') (er_host_id e)
     @ xml_end (ascii ''Error'')"

record BucketDescription =
  bd_name :: bytes
  bd_creation_date :: bytes

definition serialize_list_buckets :: "bytes \<Rightarrow> bytes \<Rightarrow> BucketDescription list \<Rightarrow> bytes" where
  "serialize_list_buckets owner_id owner_display_name buckets =
     xml_document_ns (ascii ''ListAllMyBucketsResult'')
     @ xml_start (ascii ''Owner'')
     @ xml_element (ascii ''ID'') owner_id
     @ xml_element (ascii ''DisplayName'') owner_display_name
     @ xml_end (ascii ''Owner'')
     @ xml_start (ascii ''Buckets'')
     @ concat (map (\<lambda>bucket. xml_start (ascii ''Bucket'')
         @ xml_element (ascii ''Name'') (bd_name bucket)
         @ xml_element (ascii ''CreationDate'') (bd_creation_date bucket)
         @ xml_end (ascii ''Bucket'')) buckets)
     @ xml_end (ascii ''Buckets'')
     @ xml_end (ascii ''ListAllMyBucketsResult'')"

definition serialize_bucket_location :: "bytes option \<Rightarrow> bytes" where
  "serialize_bucket_location region =
     xml_document_ns (ascii ''LocationConstraint'')
     @ (case region of None \<Rightarrow> [] | Some r \<Rightarrow> escaped r)
     @ xml_end (ascii ''LocationConstraint'')"

definition serialize_versioning_enabled :: bytes where
  "serialize_versioning_enabled =
     xml_document_ns (ascii ''VersioningConfiguration'')
     @ xml_element (ascii ''Status'') (ascii ''Enabled'')
     @ xml_end (ascii ''VersioningConfiguration'')"

definition serialize_initiate_multipart ::
  "bytes \<Rightarrow> bytes \<Rightarrow> bytes \<Rightarrow> bytes option \<Rightarrow> bytes option \<Rightarrow> bytes" where
  "serialize_initiate_multipart bucket key upload_id checksum_algorithm checksum_type =
     xml_document_ns (ascii ''InitiateMultipartUploadResult'')
     @ xml_element (ascii ''Bucket'') bucket
     @ xml_element (ascii ''Key'') key
     @ xml_element (ascii ''UploadId'') upload_id
     @ xml_optional (ascii ''ChecksumAlgorithm'') checksum_algorithm
     @ xml_optional (ascii ''ChecksumType'') checksum_type
     @ xml_end (ascii ''InitiateMultipartUploadResult'')"

definition serialize_complete_multipart ::
  "bytes \<Rightarrow> bytes \<Rightarrow> bytes \<Rightarrow> bytes \<Rightarrow> bytes option \<Rightarrow> bytes option \<Rightarrow> bytes" where
  "serialize_complete_multipart location bucket key etag checksum_sha256 checksum_type =
     xml_document_ns (ascii ''CompleteMultipartUploadResult'')
     @ xml_element (ascii ''Location'') location
     @ xml_element (ascii ''Bucket'') bucket
     @ xml_element (ascii ''Key'') key
     @ xml_element (ascii ''ETag'') etag
     @ xml_optional (ascii ''ChecksumSHA256'') checksum_sha256
     @ xml_optional (ascii ''ChecksumType'') checksum_type
     @ xml_end (ascii ''CompleteMultipartUploadResult'')"

definition serialize_copy_result :: "bytes \<Rightarrow> bytes \<Rightarrow> bytes option \<Rightarrow> bytes" where
  "serialize_copy_result last_modified etag checksum_sha256 =
     xml_document (ascii ''CopyObjectResult'')
     @ xml_element (ascii ''LastModified'') last_modified
     @ xml_element (ascii ''ETag'') etag
     @ xml_optional (ascii ''ChecksumSHA256'') checksum_sha256
     @ xml_end (ascii ''CopyObjectResult'')"

record DeletedObject =
  dl_key :: bytes
  dl_version_id :: "bytes option"
  dl_delete_marker :: bool
  dl_delete_marker_version_id :: "bytes option"

record DeleteObjectError =
  de_key :: bytes
  de_version_id :: "bytes option"
  de_code :: bytes
  de_message :: bytes

definition serialize_delete_result :: "DeletedObject list \<Rightarrow> DeleteObjectError list \<Rightarrow> bytes" where
  "serialize_delete_result deleted errors =
     xml_document_ns (ascii ''DeleteResult'')
     @ concat (map (\<lambda>item. xml_start (ascii ''Deleted'')
         @ xml_element (ascii ''Key'') (dl_key item)
         @ xml_optional (ascii ''VersionId'') (dl_version_id item)
         @ (if dl_delete_marker item then xml_element (ascii ''DeleteMarker'') (ascii ''true'') else [])
         @ xml_optional (ascii ''DeleteMarkerVersionId'') (dl_delete_marker_version_id item)
         @ xml_end (ascii ''Deleted'')) deleted)
     @ concat (map (\<lambda>item. xml_start (ascii ''Error'')
         @ xml_element (ascii ''Key'') (de_key item)
         @ xml_optional (ascii ''VersionId'') (de_version_id item)
         @ xml_element (ascii ''Code'') (de_code item)
         @ xml_element (ascii ''Message'') (de_message item)
         @ xml_end (ascii ''Error'')) errors)
     @ xml_end (ascii ''DeleteResult'')"

section \<open>Trees and their events\<close>

text \<open>The events of a document that has the given tree, each text in one piece.\<close>

fun node_events :: "Node \<Rightarrow> XmlEvent list" where
  "node_events (Node name text children) =
     EvStart None name # (if text = [] then [] else [EvText (Ok text)])
     @ concat (map node_events children) @ [EvEnd]"

fun node_count :: "Node \<Rightarrow> nat" where
  "node_count (Node name text children) = 1 + sum_list (map node_count children)"

fun node_text_size :: "Node \<Rightarrow> nat" where
  "node_text_size (Node name text children) = length text + sum_list (map node_text_size children)"

fun node_depth :: "Node \<Rightarrow> nat" where
  "node_depth (Node name text children) = 1 + foldr max (map node_depth children) 0"

fun names_valid :: "Node \<Rightarrow> bool" where
  "names_valid (Node name text children) \<longleftrightarrow> utf8_valid name \<and> (\<forall>c \<in> set children. names_valid c)"

definition fits :: "XmlLimits \<Rightarrow> nat \<Rightarrow> nat \<Rightarrow> bool" where
  "fits limits nodes text \<longleftrightarrow> nodes \<le> max_nodes limits \<and> nodes < 2 ^ 64
     \<and> text \<le> max_text_bytes limits \<and> text < 2 ^ 64"

text \<open>What a whole element does to the state.\<close>

definition attach :: "Node \<Rightarrow> TreeState \<Rightarrow> TreeState" where
  "attach t s = (case ts_stack s of
       [] \<Rightarrow> s\<lparr>ts_root := Some t\<rparr>
     | Node name text children # rest \<Rightarrow> s\<lparr>ts_stack := Node name text (children @ [t]) # rest\<rparr>)
     \<lparr>ts_nodes := ts_nodes s + node_count t, ts_text_bytes := ts_text_bytes s + node_text_size t\<rparr>"

lemma le_foldr_max: "x \<in> set xs \<Longrightarrow> x \<le> foldr max xs (0::nat)"
  by (induction xs) auto

lemma tree_events_append:
  "tree_events rd limits (es @ fs) s = rbind (tree_events rd limits es s) (tree_events rd limits fs)"
  by (induction es arbitrary: s) (auto simp: rbind_def split: sum.splits)

lemma children_attach:
  assumes "\<And>c s. c \<in> set cs \<Longrightarrow> ts_stack s \<noteq> [] \<Longrightarrow> length (ts_stack s) + node_depth c \<le> max_depth limits \<Longrightarrow>
      fits limits (ts_nodes s + node_count c) (ts_text_bytes s + node_text_size c) \<Longrightarrow>
      tree_events rd limits (node_events c) s = Ok (attach c s)"
    and "ts_stack s = Node n x ys # rest"
    and "\<And>c. c \<in> set cs \<Longrightarrow> length (ts_stack s) + node_depth c \<le> max_depth limits"
    and "fits limits (ts_nodes s + sum_list (map node_count cs)) (ts_text_bytes s + sum_list (map node_text_size cs))"
  shows "tree_events rd limits (concat (map node_events cs)) s
    = Ok (s\<lparr>ts_stack := Node n x (ys @ cs) # rest, ts_nodes := ts_nodes s + sum_list (map node_count cs),
           ts_text_bytes := ts_text_bytes s + sum_list (map node_text_size cs)\<rparr>)"
  using assms
proof (induction cs arbitrary: s ys)
  case (Cons c cs)
  have f: "fits limits (ts_nodes s + node_count c) (ts_text_bytes s + node_text_size c)"
    using Cons.prems(4) by (auto simp: fits_def)
  have "tree_events rd limits (node_events c) s = Ok (attach c s)"
    using Cons.prems(1) [of c s] Cons.prems(2,3) f by simp
  moreover have "tree_events rd limits (concat (map node_events cs)) (attach c s)
    = Ok ((attach c s)\<lparr>ts_stack := Node n x ((ys @ [c]) @ cs) # rest,
        ts_nodes := ts_nodes (attach c s) + sum_list (map node_count cs),
        ts_text_bytes := ts_text_bytes (attach c s) + sum_list (map node_text_size cs)\<rparr>)"
    using Cons.prems by (intro Cons.IH) (auto simp: attach_def fits_def add.assoc)
  ultimately show ?case using Cons.prems(2) by (simp add: tree_events_append attach_def add.assoc)
qed simp

lemma node_events_attach:
  assumes "names_valid t" "ts_stack s \<noteq> [] \<or> ts_root s = None"
    and "length (ts_stack s) + node_depth t \<le> max_depth limits"
    and "fits limits (ts_nodes s + node_count t) (ts_text_bytes s + node_text_size t)"
  shows "tree_events rd limits (node_events t) s = Ok (attach t s)"
  using assms
proof (induction t arbitrary: s)
  case (Node n x cs)
  let ?s1 = "s\<lparr>ts_nodes := ts_nodes s + 1, ts_stack := Node n [] [] # ts_stack s\<rparr>"
  let ?s2 = "?s1\<lparr>ts_text_bytes := ts_text_bytes s + length x, ts_stack := Node n x [] # ts_stack s\<rparr>"
  let ?s3 = "?s2\<lparr>ts_stack := Node n x cs # ts_stack s,
      ts_nodes := ts_nodes s + node_count (Node n x cs), ts_text_bytes := ts_text_bytes s + node_text_size (Node n x cs)\<rparr>"
  have f: "fits limits (ts_nodes s + 1) (ts_text_bytes s)" "fits limits (ts_nodes s + 1) (ts_text_bytes s + length x)"
    using Node.prems(4) by (auto simp: fits_def)
  have 1: "tree_event rd limits (EvStart None n) s = Ok ?s1"
    using Node.prems(1,3) f(1) by (simp add: tree_event_def start_element_def from_utf8_def fits_def)
  have 2: "tree_events rd limits (if x = [] then [] else [EvText (Ok x)]) ?s1 = Ok ?s2"
    using f(2) by (simp add: tree_event_def append_text_def fits_def Let_def map_err_def)
  have 3: "tree_events rd limits (concat (map node_events cs)) ?s2
    = Ok (?s2\<lparr>ts_stack := Node n x ([] @ cs) # ts_stack s, ts_nodes := ts_nodes ?s2 + sum_list (map node_count cs),
           ts_text_bytes := ts_text_bytes ?s2 + sum_list (map node_text_size cs)\<rparr>)"
  proof (rule children_attach)
    fix c and s' :: TreeState assume "c \<in> set cs" "ts_stack s' \<noteq> []" "length (ts_stack s') + node_depth c \<le> max_depth limits"
      "fits limits (ts_nodes s' + node_count c) (ts_text_bytes s' + node_text_size c)"
    with Node.IH Node.prems(1) show "tree_events rd limits (node_events c) s' = Ok (attach c s')" by simp
  next
    fix c assume "c \<in> set cs"
    with le_foldr_max [of "node_depth c" "map node_depth cs"] Node.prems(3)
    show "length (ts_stack ?s2) + node_depth c \<le> max_depth limits" by simp
  qed (use Node.prems(4) in \<open>auto simp: fits_def add.assoc\<close>)
  have 4: "tree_event rd limits EvEnd ?s3 = Ok (attach (Node n x cs) s)"
    using Node.prems(2)
    by (cases "ts_stack s") (auto simp: tree_event_def end_element_def attach_def split: Node.splits)
  show ?case using 1 2 3 4 by (simp add: tree_events_append add.assoc)
qed

lemma parse_tree_events:
  assumes "read_events rd input = prefix @ node_events t" and "prefix = [] \<or> prefix = [EvDecl]"
    and "length input \<le> max_document_bytes limits" "names_valid t" "node_depth t \<le> max_depth limits"
    and "fits limits (node_count t) (node_text_size t)"
  shows "parse_tree rd input limits = Ok t"
proof -
  have "tree_events rd limits prefix tree_start = Ok (tree_start\<lparr>ts_saw_declaration := prefix \<noteq> []\<rparr>)"
    using assms(2) by (auto simp: tree_event_def tree_start_def)
  moreover have "tree_events rd limits (node_events t) (tree_start\<lparr>ts_saw_declaration := prefix \<noteq> []\<rparr>)
      = Ok (attach t (tree_start\<lparr>ts_saw_declaration := prefix \<noteq> []\<rparr>))"
    using assms by (intro node_events_attach) (simp_all add: tree_start_def)
  ultimately show ?thesis using assms(1,3)
    by (simp add: parse_tree_def tree_events_append attach_def tree_start_def)
qed

section \<open>Bounds of an accepted tree\<close>

fun stack_ok :: "XmlLimits \<Rightarrow> Node list \<Rightarrow> bool" where
  "stack_ok limits [] \<longleftrightarrow> True"
| "stack_ok limits (n # rest) \<longleftrightarrow> length rest + node_depth n \<le> max_depth limits \<and> stack_ok limits rest"

definition all_nodes :: "TreeState \<Rightarrow> Node list" where
  "all_nodes s = (case ts_root s of None \<Rightarrow> [] | Some r \<Rightarrow> [r]) @ ts_stack s"

definition tree_inv :: "XmlLimits \<Rightarrow> TreeState \<Rightarrow> bool" where
  "tree_inv limits s \<longleftrightarrow>
     stack_ok limits (ts_stack s)
     \<and> (\<forall>r. ts_root s = Some r \<longrightarrow> node_depth r \<le> max_depth limits)
     \<and> sum_list (map node_count (all_nodes s)) = ts_nodes s \<and> ts_nodes s \<le> max_nodes limits
     \<and> sum_list (map node_text_size (all_nodes s)) \<le> ts_text_bytes s \<and> ts_text_bytes s \<le> max_text_bytes limits"

lemma tree_inv_start: "tree_inv limits tree_start"
  by (simp add: tree_inv_def tree_start_def all_nodes_def)

lemma append_text_inv: "tree_inv limits s \<Longrightarrow> append_text limits txt s = Ok s' \<Longrightarrow> tree_inv limits s'"
  by (auto simp: tree_inv_def append_text_def all_nodes_def Let_def split: if_splits list.splits Node.splits)

lemma start_element_inv:
  "tree_inv limits s \<Longrightarrow> start_element rd limits a n s = Ok s' \<Longrightarrow> tree_inv limits s'"
  by (auto simp: tree_inv_def start_element_def all_nodes_def split: if_splits option.splits)

lemma foldr_max_start: "y \<noteq> 0 \<Longrightarrow> foldr max xs y = max (foldr max xs 0) (y::nat)"
  by (induction xs) auto

lemma node_depth_pos [simp]: "node_depth n \<noteq> 0"
  by (cases n) simp

lemma end_element_inv:
  assumes "tree_inv limits s" "end_element s = Ok s'"
  shows "tree_inv limits s'"
proof (cases "ts_stack s" rule: remdups_adj.cases)
  case (3 node parent rest)
  obtain n x cs where p: "parent = Node n x cs" by (cases parent)
  from assms(2) have s': "s' = s\<lparr>ts_stack := Node n x (cs @ [node]) # rest\<rparr>" by (simp add: end_element_def 3 p)
  have "foldr max (map node_depth cs) (node_depth node) = max (foldr max (map node_depth cs) 0) (node_depth node)"
    by (rule foldr_max_start) simp
  with assms(1) show ?thesis unfolding s' by (auto simp: tree_inv_def all_nodes_def 3 p)
qed (use assms in \<open>auto simp: end_element_def tree_inv_def all_nodes_def split: if_splits\<close>)

lemma tree_event_inv:
  assumes "tree_inv limits s" "tree_event rd limits e s = Ok s'"
  shows "tree_inv limits s'"
proof (cases e)
  case EvDecl
  with assms show ?thesis by (auto simp: tree_event_def tree_inv_def all_nodes_def split: if_splits)
qed (use assms in \<open>auto simp: tree_event_def map_err_def intro: append_text_inv start_element_inv end_element_inv\<close>)

lemma tree_events_inv: "tree_inv limits s \<Longrightarrow> tree_events rd limits es s = Ok s' \<Longrightarrow> tree_inv limits s'"
  by (induction es arbitrary: s) (auto dest: tree_event_inv)

section \<open>Multipart completion\<close>

lemma parse_parts_increasing:
  assumes "parse_parts limits cs parts previous = Ok result"
    and "sorted_wrt (<) (map cp_part_number parts)" "\<forall>p \<in> set parts. cp_part_number p \<le> previous"
    and "\<forall>p \<in> set parts. 1 \<le> cp_part_number p \<and> cp_part_number p \<le> 10000 \<and> cp_etag p \<noteq> []"
    and "length parts \<le> max_complete_parts limits"
  shows "sorted_wrt (<) (map cp_part_number result)
     \<and> (\<forall>p \<in> set result. 1 \<le> cp_part_number p \<and> cp_part_number p \<le> 10000 \<and> cp_etag p \<noteq> [])
     \<and> length result \<le> max_complete_parts limits \<and> length result = length parts + length cs"
  using assms
proof (induction limits cs parts previous rule: parse_parts.induct)
  case (2 limits child children parts previous)
  from "2.prems"(1) obtain part where part: "parse_part child previous = Ok part"
    and rest: "parse_parts limits children (parts @ [part]) (cp_part_number part) = Ok result"
    and len: "length parts < max_complete_parts limits" and nm: "node_name child = ascii ''Part''"
    by (auto simp del: ascii_Cons split: if_splits)
  from part have p: "previous < cp_part_number part" "1 \<le> cp_part_number part" "cp_part_number part \<le> 10000"
    "cp_etag part \<noteq> []"
    by (auto simp: parse_part_def Let_def ok_or_def simp del: ascii_Cons split: if_splits option.splits)
  have lt: "\<forall>q \<in> set parts. cp_part_number q < cp_part_number part" using "2.prems"(3) p(1) by auto
  have "sorted_wrt (<) (map cp_part_number result)
     \<and> (\<forall>p \<in> set result. 1 \<le> cp_part_number p \<and> cp_part_number p \<le> 10000 \<and> cp_etag p \<noteq> [])
     \<and> length result \<le> max_complete_parts limits \<and> length result = length (parts @ [part]) + length children"
  proof (rule "2.IH" [OF _ _ part rest])
    show "sorted_wrt (<) (map cp_part_number (parts @ [part]))"
      using "2.prems"(2) lt by (simp add: sorted_wrt_append)
    show "\<forall>q \<in> set (parts @ [part]). cp_part_number q \<le> cp_part_number part" using lt by auto
  qed (use nm len p "2.prems"(4) in auto)
  then show ?case by simp
qed simp

text \<open>The document of a list of parts, as clients send it.\<close>

definition leaf :: "bytes \<Rightarrow> bytes \<Rightarrow> Node" where
  "leaf name text = Node name text []"

definition optional_leaf :: "bytes \<Rightarrow> bytes option \<Rightarrow> Node list" where
  "optional_leaf name value = (case value of None \<Rightarrow> [] | Some v \<Rightarrow> [leaf name v])"

definition part_node :: "CompletedPart \<Rightarrow> Node" where
  "part_node p = Node (ascii ''Part'') []
     ([leaf (ascii ''PartNumber'') (dec_nat (cp_part_number p)), leaf (ascii ''ETag'') (cp_etag p)]
      @ optional_leaf (ascii ''ChecksumCRC32'') (pc_crc32 (cp_checksums p))
      @ optional_leaf (ascii ''ChecksumCRC32C'') (pc_crc32c (cp_checksums p))
      @ optional_leaf (ascii ''ChecksumSHA1'') (pc_sha1 (cp_checksums p))
      @ optional_leaf (ascii ''ChecksumSHA256'') (pc_sha256 (cp_checksums p)))"

definition complete_node :: "CompletedPart list \<Rightarrow> Node" where
  "complete_node parts = Node (ascii ''CompleteMultipartUpload'') [] (map part_node parts)"

definition trimmed :: "bytes option \<Rightarrow> bool" where
  "trimmed v \<longleftrightarrow> (case v of None \<Rightarrow> True | Some x \<Rightarrow> str_trim x = x)"

definition part_wf :: "CompletedPart \<Rightarrow> bool" where
  "part_wf p \<longleftrightarrow> 1 \<le> cp_part_number p \<and> cp_part_number p \<le> 10000
     \<and> cp_etag p \<noteq> [] \<and> str_trim (cp_etag p) = cp_etag p
     \<and> trimmed (pc_crc32 (cp_checksums p)) \<and> trimmed (pc_crc32c (cp_checksums p))
     \<and> trimmed (pc_sha1 (cp_checksums p)) \<and> trimmed (pc_sha256 (cp_checksums p))"

lemma child_names_distinct: "distinct part_children"
  by (simp add: part_children_def)

lemma named_simps [simp]:
  "filter (\<lambda>c. node_name c = n) (optional_leaf m v) = (if n = m then optional_leaf m v else [])"
  "node_name (leaf m x) = m" "node_text (leaf m x) = x" "node_children (leaf m x) = []"
  by (auto simp: optional_leaf_def leaf_def split: option.splits)

lemma part_children_named:
  "children_named (part_node p) (ascii ''PartNumber'') = [leaf (ascii ''PartNumber'') (dec_nat (cp_part_number p))]"
  "children_named (part_node p) (ascii ''ETag'') = [leaf (ascii ''ETag'') (cp_etag p)]"
  "children_named (part_node p) (ascii ''ChecksumCRC32'') = optional_leaf (ascii ''ChecksumCRC32'') (pc_crc32 (cp_checksums p))"
  "children_named (part_node p) (ascii ''ChecksumCRC32C'') = optional_leaf (ascii ''ChecksumCRC32C'') (pc_crc32c (cp_checksums p))"
  "children_named (part_node p) (ascii ''ChecksumSHA1'') = optional_leaf (ascii ''ChecksumSHA1'') (pc_sha1 (cp_checksums p))"
  "children_named (part_node p) (ascii ''ChecksumSHA256'') = optional_leaf (ascii ''ChecksumSHA256'') (pc_sha256 (cp_checksums p))"
  using child_names_distinct unfolding part_children_def
  by (auto simp: children_named_def part_node_def simp del: ascii_Cons)

lemma optional_text_leaf:
  assumes "children_named n m = optional_leaf m v" "trimmed v"
  shows "optional_text n m = Ok v"
  using assms by (auto simp: optional_text_def optional_text_untrimmed_def optional_leaf_def trimmed_def split: option.splits)

lemma parse_part_node:
  assumes "part_wf p" "previous < cp_part_number p"
  shows "parse_part (part_node p) previous = Ok p"
proof -
  have n: "parse_unsigned 16 (str_trim (dec_nat (cp_part_number p))) = Some (cp_part_number p)"
    using assms(1) str_trim_graphic(1) [OF digits_graphic] dec_nat_digits
    by (simp add: part_wf_def parse_unsigned_dec_nat)
  have "node_name c \<in> set part_children" if "c \<in> set (node_children (part_node p))" for c
    using that by (auto simp: part_node_def part_children_def optional_leaf_def leaf_def simp del: ascii_Cons split: option.splits)
  then have r: "reject_unknown_children (part_node p) part_children = Ok ()"
    by (auto simp: reject_unknown_children_def find_Some_iff split: option.splits)
  show ?thesis using assms
    by (simp add: parse_part_def required_once_def part_children_named n r optional_text_leaf part_wf_def Let_def
        del: ascii_Cons)
qed

lemma parse_parts_nodes:
  assumes "\<forall>p \<in> set ps. part_wf p" "sorted_wrt (<) (map cp_part_number ps)"
    and "\<forall>p \<in> set ps. previous < cp_part_number p" "length acc + length ps \<le> max_complete_parts limits"
  shows "parse_parts limits (map part_node ps) acc previous = Ok (acc @ ps)"
  using assms
proof (induction ps arbitrary: acc previous)
  case (Cons p ps)
  have "parse_parts limits (map part_node ps) (acc @ [p]) (cp_part_number p) = Ok ((acc @ [p]) @ ps)"
    using Cons.prems by (intro Cons.IH) auto
  moreover have "node_name (part_node p) = ascii ''Part''" by (simp add: part_node_def)
  ultimately show ?case using Cons.prems by (simp add: parse_part_node del: ascii_Cons)
qed simp

section \<open>Reading responses back\<close>

text \<open>A reference reader for the writer's language: tags up to \<^verbatim>\<open>>\<close>, text up to \<^verbatim>\<open><\<close> with its five
  entities resolved.\<close>

definition entity_table :: "(bytes \<times> u8) list" where
  "entity_table = [(ascii ''&amp;'', 0x26), (ascii ''&lt;'', 0x3c), (ascii ''&gt;'', 0x3e),
     (ascii ''&quot;'', 0x22), (ascii ''&apos;'', 0x27)]"

function unescape :: "bytes \<Rightarrow> bytes" where
  "unescape [] = []"
| "unescape (b # bs) =
     (case find (\<lambda>(name, _). starts_with name (b # bs)) entity_table of
        Some (name, c) \<Rightarrow> c # unescape (drop (length name - 1) bs)
      | None \<Rightarrow> b # unescape bs)"
  by pat_completeness auto
termination by (relation "measure length") auto

datatype token = TOpen bytes | TClose bytes | TText bytes

function lex :: "bytes \<Rightarrow> token list" where
  "lex [] = []"
| "lex (b # bs) =
     (if b = 0x3c then
        (let tag = takeWhile (\<lambda>c. c \<noteq> 0x3e) bs in
         (if tag \<noteq> [] \<and> hd tag = 0x2f then TClose (tl tag) else TOpen tag)
         # lex (drop 1 (dropWhile (\<lambda>c. c \<noteq> 0x3e) bs)))
      else TText (unescape (b # takeWhile (\<lambda>c. c \<noteq> 0x3c) bs)) # lex (dropWhile (\<lambda>c. c \<noteq> 0x3c) bs))"
  by pat_completeness auto
termination
  by (relation "measure length")
    (auto simp: le_imp_less_Suc length_dropWhile_le intro: le_less_trans [OF diff_le_self])

fun token_bytes :: "token \<Rightarrow> bytes" where
  "token_bytes (TOpen n) = xml_start n"
| "token_bytes (TClose n) = xml_end n"
| "token_bytes (TText v) = escaped v"

definition name_ok :: "bytes \<Rightarrow> bool" where
  "name_ok n \<longleftrightarrow> 0x3e \<notin> set n \<and> (n = [] \<or> hd n \<noteq> 0x2f)"

fun tokens_ok :: "token list \<Rightarrow> bool" where
  "tokens_ok [] \<longleftrightarrow> True"
| "tokens_ok (TOpen n # ts) \<longleftrightarrow> name_ok n \<and> tokens_ok ts"
| "tokens_ok (TClose n # ts) \<longleftrightarrow> 0x3e \<notin> set n \<and> tokens_ok ts"
| "tokens_ok (TText v # ts) \<longleftrightarrow> v \<noteq> [] \<and> tokens_ok ts \<and> (case ts of TText _ # _ \<Rightarrow> False | _ \<Rightarrow> True)"

lemma unescape_escape_byte: "unescape (escape_byte b @ rest) = b # unescape rest"
  by (simp add: escape_byte_def entity_table_def starts_with_def)

lemma unescape_escaped: "unescape (escaped v) = v"
  by (induction v) (simp_all add: escaped_def unescape_escape_byte)

interpretation entities: codec escaped "\<lambda>v. Some (unescape v)" "\<lambda>_. True"
  by unfold_locales (simp add: unescape_escaped)

lemma escape_byte_no_tag: "0x3c \<notin> set (escape_byte a) \<and> 0x3e \<notin> set (escape_byte a)"
  by (simp add: escape_byte_def)

lemma escaped_no_tag: "b \<in> set (escaped v) \<Longrightarrow> b \<noteq> 0x3c \<and> b \<noteq> 0x3e"
  unfolding escaped_def using escape_byte_no_tag by fastforce

lemma escaped_ne: "escaped v = [] \<longleftrightarrow> v = []"
  by (cases v) (auto simp: escaped_def escape_byte_def)

lemma lex_tag:
  assumes "0x3e \<notin> set n"
  shows "lex (0x3c # n @ 0x3e # rest) = (if n \<noteq> [] \<and> hd n = 0x2f then TClose (tl n) else TOpen n) # lex rest"
proof -
  have "takeWhile (\<lambda>c. c \<noteq> 0x3e) (n @ 0x3e # rest) = n" "dropWhile (\<lambda>c. c \<noteq> 0x3e) (n @ 0x3e # rest) = 0x3e # rest"
    using assms by (auto simp: takeWhile_append dropWhile_append)
  then show ?thesis by (simp add: Let_def)
qed

lemma lex_text:
  assumes "v \<noteq> []" "rest = [] \<or> hd rest = 0x3c"
  shows "lex (escaped v @ rest) = TText v # lex rest"
proof -
  from assms(1) obtain b bs where b: "escaped v = b # bs" using escaped_ne by (cases "escaped v") auto
  have n: "\<forall>c \<in> set (b # bs). c \<noteq> 0x3c" using escaped_no_tag [of _ v] b by auto
  have "takeWhile (\<lambda>c. c \<noteq> 0x3c) (bs @ rest) = bs" "dropWhile (\<lambda>c. c \<noteq> 0x3c) (bs @ rest) = rest"
    using n assms(2) by (cases rest; auto simp: takeWhile_append dropWhile_append)+
  with n unescape_escaped [of v] show ?thesis by (simp add: b)
qed

definition render :: "token list \<Rightarrow> bytes" where
  "render ts = concat (map token_bytes ts)"

lemma render_simps [simp]: "render [] = []" "render (t # ts) = token_bytes t @ render ts" "render (ts @ us) = render ts @ render us"
  by (simp_all add: render_def)

lemma lex_render: "tokens_ok ts \<Longrightarrow> lex (render ts) = ts"
proof (induction ts rule: tokens_ok.induct)
  case (2 n ts)
  then show ?case using lex_tag [of n "render ts"] by (auto simp: xml_start_def name_ok_def)
next
  case (3 n ts)
  then show ?case using lex_tag [of "0x2f # n" "render ts"] by (simp add: xml_end_def)
next
  case (4 v ts)
  have "render ts = [] \<or> hd (render ts) = 0x3c"
    using 4(2) by (cases ts; cases "hd ts") (auto simp: xml_start_def xml_end_def)
  then show ?case using 4 lex_text [of v "render ts"] by simp
qed simp

definition elem :: "bytes \<Rightarrow> bytes \<Rightarrow> token list" where
  "elem n v = TOpen n # (if v = [] then [] else [TText v]) @ [TClose n]"

definition opt_elem :: "bytes \<Rightarrow> bytes option \<Rightarrow> token list" where
  "opt_elem n v = (case v of None \<Rightarrow> [] | Some x \<Rightarrow> elem n x)"

lemma render_elem [simp]: "render (elem n v) = xml_element n v" "render (opt_elem n w) = xml_optional n w"
  by (simp_all add: elem_def opt_elem_def xml_element_def xml_optional_def escaped_def split: option.splits)

lemma elem_ok [simp]:
  "tokens_ok (elem n v @ ts) \<longleftrightarrow> name_ok n \<and> tokens_ok ts"
  "tokens_ok (opt_elem n w @ ts) \<longleftrightarrow> (w \<noteq> None \<longrightarrow> name_ok n) \<and> tokens_ok ts"
  by (auto simp: elem_def opt_elem_def name_ok_def split: option.splits)

text \<open>What the documents say, as token sequences.\<close>

definition prolog_token :: token where
  "prolog_token = TOpen (tl (butlast xml_prolog))"

definition ns_token :: "bytes \<Rightarrow> token" where
  "ns_token root = TOpen (root @ ascii '' xmlns='' @ [0x22] @ S3_XMLNS @ [0x22])"

definition error_tokens :: "S3ErrorResponse \<Rightarrow> token list" where
  "error_tokens e = [prolog_token, TOpen (ascii ''Error'')]
     @ elem (ascii ''Code'') (er_code e) @ elem (ascii ''Message'') (er_message e)
     @ opt_elem (ascii ''Resource'') (er_resource e) @ elem (ascii ''RequestId'') (er_request_id e)
     @ opt_elem (ascii ''HostId'') (er_host_id e) @ [TClose (ascii ''Error'')]"

definition deleted_tokens :: "DeletedObject \<Rightarrow> token list" where
  "deleted_tokens d = [TOpen (ascii ''Deleted'')] @ elem (ascii ''Key'') (dl_key d)
     @ opt_elem (ascii ''VersionId'') (dl_version_id d)
     @ (if dl_delete_marker d then elem (ascii ''DeleteMarker'') (ascii ''true'') else [])
     @ opt_elem (ascii ''DeleteMarkerVersionId'') (dl_delete_marker_version_id d) @ [TClose (ascii ''Deleted'')]"

definition delete_error_tokens :: "DeleteObjectError \<Rightarrow> token list" where
  "delete_error_tokens d = [TOpen (ascii ''Error'')] @ elem (ascii ''Key'') (de_key d)
     @ opt_elem (ascii ''VersionId'') (de_version_id d) @ elem (ascii ''Code'') (de_code d)
     @ elem (ascii ''Message'') (de_message d) @ [TClose (ascii ''Error'')]"

definition delete_result_tokens :: "DeletedObject list \<Rightarrow> DeleteObjectError list \<Rightarrow> token list" where
  "delete_result_tokens ds es = [prolog_token, ns_token (ascii ''DeleteResult'')]
     @ concat (map deleted_tokens ds) @ concat (map delete_error_tokens es) @ [TClose (ascii ''DeleteResult'')]"

lemma names_ok [simp]:
  "name_ok (ascii ''Code'')" "name_ok (ascii ''Message'')" "name_ok (ascii ''Resource'')" "name_ok (ascii ''RequestId'')"
  "name_ok (ascii ''HostId'')" "name_ok (ascii ''Error'')" "name_ok (ascii ''Deleted'')" "name_ok (ascii ''Key'')"
  "name_ok (ascii ''VersionId'')" "name_ok (ascii ''DeleteMarker'')" "name_ok (ascii ''DeleteMarkerVersionId'')"
  by (simp_all add: name_ok_def)

lemma prolog_ok: "tokens_ok (prolog_token # ts) \<longleftrightarrow> tokens_ok ts" "token_bytes prolog_token = xml_prolog"
  by (simp_all add: prolog_token_def xml_prolog_def name_ok_def xml_start_def)

lemma ns_ok: "tokens_ok (ns_token (ascii ''DeleteResult'') # ts) \<longleftrightarrow> tokens_ok ts"
  "xml_prolog @ token_bytes (ns_token root) = xml_document_ns root"
  by (simp_all add: ns_token_def name_ok_def xml_start_def xml_document_ns_def S3_XMLNS_def escaped_def escape_byte_def)

lemma names_valid_complete:
  "names_valid (complete_node parts)"
proof -
  have n: "utf8_valid (ascii ''Part'')" "utf8_valid (ascii ''CompleteMultipartUpload'')" "\<forall>n \<in> set part_children. utf8_valid n"
    by (simp_all add: part_children_def utf8_valid_def)
  have "names_valid (part_node p)" for p
    using n(1,3) by (auto simp: part_node_def part_children_def optional_leaf_def leaf_def simp del: ascii_Cons split: option.splits)
  then show ?thesis using n(2) by (auto simp: complete_node_def simp del: ascii_Cons)
qed

lemma deleted_ok: "tokens_ok (deleted_tokens d @ ts) = tokens_ok ts" "tokens_ok (delete_error_tokens e @ ts) = tokens_ok ts"
  by (simp_all add: deleted_tokens_def delete_error_tokens_def name_ok_def [of "ascii ''Deleted''"] del: ascii_Cons)
    (simp_all add: name_ok_def)

lemma deleted_list_ok:
  "tokens_ok (concat (map deleted_tokens ds) @ ts) = tokens_ok ts"
  "tokens_ok (concat (map delete_error_tokens es) @ ts) = tokens_ok ts"
proof -
  show "tokens_ok (concat (map deleted_tokens ds) @ ts) = tokens_ok ts" by (induction ds) (simp_all add: deleted_ok)
  show "tokens_ok (concat (map delete_error_tokens es) @ ts) = tokens_ok ts" by (induction es) (simp_all add: deleted_ok)
qed

lemma render_concat: "render (concat tss) = concat (map render tss)"
  by (induction tss) simp_all

lemma lex_serialize_error: "lex (serialize_error e) = error_tokens e"
proof -
  have "serialize_error e = render (error_tokens e)"
    by (simp add: error_tokens_def serialize_error_def xml_document_def prolog_ok del: ascii_Cons)
  moreover have "tokens_ok (error_tokens e)"
    by (simp add: error_tokens_def prolog_ok del: ascii_Cons) (simp add: name_ok_def)
  ultimately show ?thesis by (simp add: lex_render)
qed

section \<open>Properties\<close>

text \<open>C24. A multipart completion request is read back exactly: for every list of well-formed parts in
  increasing order, within the limits, the parser returns those parts, given a reader that delivers
  the events of the document.\<close>

theorem complete_multipart_roundtrip:
  assumes "read_events rd input = prefix @ node_events (complete_node parts)" and "prefix \<in> {[], [EvDecl]}"
    and "parts \<noteq> []" and "\<forall>p \<in> set parts. part_wf p" and "sorted_wrt (<) (map cp_part_number parts)"
    and "length parts \<le> max_complete_parts limits" and "length input \<le> max_document_bytes limits"
    and "node_depth (complete_node parts) \<le> max_depth limits"
    and "fits limits (node_count (complete_node parts)) (node_text_size (complete_node parts))"
  shows "parse_complete_multipart rd input limits = Ok \<lparr>cmu_parts = parts\<rparr>"
proof -
  have "parse_tree rd input limits = Ok (complete_node parts)"
    by (rule parse_tree_events [OF assms(1) _ assms(7) names_valid_complete assms(8,9)]) (use assms(2) in auto)
  moreover have "parse_parts limits (map part_node parts) [] 0 = Ok ([] @ parts)"
    using assms(4-6) by (intro parse_parts_nodes) (auto simp: part_wf_def)
  ultimately show ?thesis using assms(3)
    by (simp add: parse_complete_multipart_def expect_root_def complete_node_def del: ascii_Cons)
qed

text \<open>C29. Whatever the reader delivers, an accepted multipart completion lists at least one part and at most
  the permitted number, with part numbers in 1 to 10000 in strictly increasing order and non-empty
  entity tags.\<close>

theorem complete_multipart_ordered:
  assumes "parse_complete_multipart rd input limits = Ok r"
  shows "cmu_parts r \<noteq> [] \<and> length (cmu_parts r) \<le> max_complete_parts limits
     \<and> sorted_wrt (<) (map cp_part_number (cmu_parts r))
     \<and> (\<forall>p \<in> set (cmu_parts r). 1 \<le> cp_part_number p \<and> cp_part_number p \<le> 10000 \<and> cp_etag p \<noteq> [])"
proof -
  from assms obtain root where p: "parse_parts limits (node_children root) [] 0 = Ok (cmu_parts r)" "cmu_parts r \<noteq> []"
    by (auto simp: parse_complete_multipart_def simp del: ascii_Cons split: if_splits)
  with parse_parts_increasing [OF p(1)] show ?thesis by simp
qed

text \<open>C35. Whatever the reader delivers, an accepted document is inside the limits: its nesting, its number of
  elements and its total text.\<close>

theorem xml_tree_bounded:
  assumes "parse_tree rd input limits = Ok t"
  shows "node_depth t \<le> max_depth limits \<and> node_count t \<le> max_nodes limits
     \<and> node_text_size t \<le> max_text_bytes limits \<and> length input \<le> max_document_bytes limits"
proof -
  from assms obtain s where s: "tree_events rd limits (read_events rd input) tree_start = Ok s"
    "ts_stack s = []" "ts_root s = Some t" and l: "length input \<le> max_document_bytes limits"
    by (auto simp: parse_tree_def ok_or_def split: if_splits option.splits)
  from tree_events_inv [OF tree_inv_start s(1)] s(2,3) l show ?thesis
    by (auto simp: tree_inv_def all_nodes_def)
qed

text \<open>C37. Responses say what they were given: a reader that splits the document into tags and text and
  resolves the entities finds exactly the fields of the error, and of every entry of a bulk-delete
  result, in order, whatever bytes those fields hold.\<close>

theorem responses_read_back:
  "lex (serialize_error e) = error_tokens e
   \<and> lex (serialize_delete_result deleted errors) = delete_result_tokens deleted errors"
proof
  show "lex (serialize_error e) = error_tokens e" by (rule lex_serialize_error)
  have "serialize_delete_result deleted errors = render (delete_result_tokens deleted errors)"
    by (simp add: delete_result_tokens_def serialize_delete_result_def prolog_ok render_concat comp_def
        deleted_tokens_def delete_error_tokens_def if_distrib [of render] flip: ns_ok(2) del: ascii_Cons cong: if_cong)
  moreover have "tokens_ok (delete_result_tokens deleted errors)"
    by (simp add: delete_result_tokens_def prolog_ok ns_ok(1) deleted_list_ok del: ascii_Cons) simp
  ultimately show "lex (serialize_delete_result deleted errors) = delete_result_tokens deleted errors"
    by (simp add: lex_render)
qed

section \<open>Concrete requests\<close>

definition demo_parts :: "CompletedPart list" where
  "demo_parts = [\<lparr>cp_part_number = 1, cp_etag = ascii ''a1'',
       cp_checksums = \<lparr>pc_crc32 = Some (ascii ''q1''), pc_crc32c = None, pc_sha1 = None, pc_sha256 = None\<rparr>\<rparr>,
     \<lparr>cp_part_number = 7, cp_etag = ascii ''b2'',
       cp_checksums = \<lparr>pc_crc32 = None, pc_crc32c = None, pc_sha1 = None, pc_sha256 = None\<rparr>\<rparr>]"

definition demo_reader :: XmlReader where
  "demo_reader = \<lparr>read_events = (\<lambda>_. EvDecl # node_events (complete_node demo_parts)), utf8_error_text = (\<lambda>_. [])\<rparr>"

lemma demo_parts_facts:
  "read_events demo_reader [] = [EvDecl] @ node_events (complete_node demo_parts)"
  "demo_parts \<noteq> []" "\<forall>p \<in> set demo_parts. part_wf p" "sorted_wrt (<) (map cp_part_number demo_parts)"
  "length demo_parts \<le> max_complete_parts XmlLimits_default"
  "node_depth (complete_node demo_parts) \<le> max_depth XmlLimits_default"
  "fits XmlLimits_default (node_count (complete_node demo_parts)) (node_text_size (complete_node demo_parts))"
proof -
  have g: "str_trim (ascii ''a1'') = ascii ''a1''" "str_trim (ascii ''b2'') = ascii ''b2''" "str_trim (ascii ''q1'') = ascii ''q1''"
    by (rule str_trim_graphic(1), simp add: is_ascii_graphic_def)+
  show "\<forall>p \<in> set demo_parts. part_wf p"
    using g by (simp add: demo_parts_def part_wf_def trimmed_def)
qed (simp_all add: demo_reader_def demo_parts_def XmlLimits_default_def complete_node_def part_node_def
    optional_leaf_def leaf_def fits_def dec_nat.simps)

theorem complete_multipart_roundtrip_witness:
  "parse_complete_multipart demo_reader [] XmlLimits_default = Ok \<lparr>cmu_parts = demo_parts\<rparr>"
  by (rule complete_multipart_roundtrip [OF demo_parts_facts(1) _ demo_parts_facts(2-5) _ demo_parts_facts(6,7)]) simp_all

lemma demo_parse: "parse_tree demo_reader [] XmlLimits_default = Ok (complete_node demo_parts)"
  "parse_complete_multipart demo_reader [] XmlLimits_default = Ok \<lparr>cmu_parts = demo_parts\<rparr>"
proof -
  show t: "parse_tree demo_reader [] XmlLimits_default = Ok (complete_node demo_parts)"
    by (rule parse_tree_events [OF demo_parts_facts(1) _ _ names_valid_complete demo_parts_facts(6,7)]) simp_all
  have "parse_parts XmlLimits_default (map part_node demo_parts) [] 0 = Ok ([] @ demo_parts)"
    using demo_parts_facts(3-5) by (intro parse_parts_nodes) (auto simp: part_wf_def)
  with t demo_parts_facts(2) show "parse_complete_multipart demo_reader [] XmlLimits_default = Ok \<lparr>cmu_parts = demo_parts\<rparr>"
    by (simp add: parse_complete_multipart_def expect_root_def complete_node_def del: ascii_Cons)
qed

theorem complete_multipart_ordered_witness:
  "parse_complete_multipart demo_reader [] XmlLimits_default = Ok \<lparr>cmu_parts = demo_parts\<rparr>
   \<and> sorted_wrt (<) (map cp_part_number demo_parts)"
  using complete_multipart_ordered [OF demo_parse(2)] demo_parse(2) by simp

theorem xml_tree_bounded_witness:
  "parse_tree demo_reader [] XmlLimits_default = Ok (complete_node demo_parts)
   \<and> node_count (complete_node demo_parts) \<le> max_nodes XmlLimits_default"
  using xml_tree_bounded [OF demo_parse(1)] demo_parse(1) by simp

end
