(* ===== verification/S3Types.thy ===== *)
theory S3Types
  imports Xml Encoding
begin

text \<open>
  \<^verbatim>\<open>s3/types.rs\<close>: responses of the service, S3 errors and request identifiers.  The clock and the
  process-wide sequence counter of \<^verbatim>\<open>request_id\<close> are arguments; the counter is returned incremented,
  with wrap-around.
\<close>

section \<open>Definitions\<close>

record ServiceResponse =
  rs_status :: nat
  rs_headers :: "(bytes \<times> bytes) list"
  rs_body :: bytes

definition ServiceResponse_empty :: "nat \<Rightarrow> ServiceResponse" where
  "ServiceResponse_empty status = \<lparr>rs_status = status, rs_headers = [], rs_body = []\<rparr>"

definition ServiceResponse_xml :: "nat \<Rightarrow> bytes \<Rightarrow> ServiceResponse" where
  "ServiceResponse_xml status body =
     \<lparr>rs_status = status, rs_headers = [(ascii ''content-type'', ascii ''application/xml'')], rs_body = body\<rparr>"

definition ServiceResponse_header :: "bytes \<Rightarrow> bytes \<Rightarrow> ServiceResponse \<Rightarrow> ServiceResponse" where
  "ServiceResponse_header name value r = r\<lparr>rs_headers := rs_headers r @ [(name, value)]\<rparr>"

definition finalize :: "bytes \<Rightarrow> bool \<Rightarrow> ServiceResponse \<Rightarrow> ServiceResponse" where
  "finalize request_id head_only r =
     (let headers = rs_headers r @ [(ascii ''x-amz-request-id'', request_id), (ascii ''x-amz-id-2'', request_id),
            (ascii ''connection'', ascii ''keep-alive'')];
          headers' = (if list_ex (\<lambda>(name, _). eq_ignore_ascii_case name (ascii ''content-length'')) headers
            then headers else headers @ [(ascii ''content-length'', dec_nat (length (rs_body r)))])
      in r\<lparr>rs_headers := headers', rs_body := (if head_only then [] else rs_body r)\<rparr>)"

record S3Error =
  se_status :: nat
  se_code :: bytes
  se_message :: bytes

definition S3Error_new :: "nat \<Rightarrow> bytes \<Rightarrow> bytes \<Rightarrow> S3Error" where
  "S3Error_new status code message = \<lparr>se_status = status, se_code = code, se_message = message\<rparr>"

definition invalid_request :: "bytes \<Rightarrow> S3Error" where
  "invalid_request message = S3Error_new 400 (ascii ''InvalidRequest'') message"

definition access_denied :: S3Error where
  "access_denied = S3Error_new 403 (ascii ''AccessDenied'') (ascii ''Access Denied'')"

definition internal_error :: S3Error where
  "internal_error = S3Error_new 500 (ascii ''InternalError'') (ascii ''We encountered an internal error'')"

definition S3Error_response :: "S3Error \<Rightarrow> bytes \<Rightarrow> bytes \<Rightarrow> ServiceResponse" where
  "S3Error_response e resource request_id =
     ServiceResponse_xml (se_status e)
       (serialize_error \<lparr>er_code = se_code e, er_message = se_message e, er_resource = Some resource,
          er_request_id = request_id, er_host_id = Some request_id\<rparr>)"

function hex_upper_nat :: "nat \<Rightarrow> bytes" where
  "hex_upper_nat n = (if n < 16 then [hex_upper_digit (of_nat n)]
     else hex_upper_nat (n div 16) @ [hex_upper_digit (of_nat (n mod 16))])"
  by pat_completeness auto
termination by (relation "measure id") auto

declare hex_upper_nat.simps [simp del]

text \<open>\<^verbatim>\<open>duration_since(UNIX_EPOCH).unwrap_or_default().as_nanos() as u64\<close>: zero before the epoch,
  otherwise the nanoseconds modulo \<open>2 ^ 64\<close>.\<close>

definition epoch_nanos :: "int \<Rightarrow> u64" where
  "epoch_nanos now = (if now < 0 then 0 else of_int now)"

definition request_id :: "int \<Rightarrow> u64 \<Rightarrow> bytes \<times> u64" where
  "request_id now sequence =
     (pad_zero 16 (hex_upper_nat (unat (epoch_nanos now))) @ pad_zero 8 (hex_upper_nat (unat sequence)), sequence + 1)"

section \<open>Request identifiers\<close>

lemma hex_upper_nat_ne: "hex_upper_nat n \<noteq> []"
  by (subst hex_upper_nat.simps) simp

text \<open>The value a hexadecimal numeral stands for, leading zeros included.\<close>

fun hex_upper_value :: "bytes \<Rightarrow> nat" where
  "hex_upper_value [] = 0"
| "hex_upper_value (b # bs) = unat (the (hex_value b)) * 16 ^ length bs + hex_upper_value bs"

lemma hex_upper_value_append: "hex_upper_value (xs @ ys) = hex_upper_value xs * 16 ^ length ys + hex_upper_value ys"
  by (induction xs) (simp_all add: algebra_simps power_add)

lemma hex_upper_digit_value: "n < 16 \<Longrightarrow> hex_upper_value [hex_upper_digit (of_nat n)] = n"
  using hex_digit_values(1) [of "of_nat n"] by (simp add: unat_of_nat)

lemma hex_upper_nat_value: "hex_upper_value (hex_upper_nat n) = n"
proof (induction n rule: hex_upper_nat.induct)
  case (1 n)
  show ?case
  proof (cases "n < 16")
    case True
    then show ?thesis using hex_upper_digit_value [OF True] by (simp add: hex_upper_nat.simps [of n] del: hex_upper_value.simps)
  next
    case False
    with 1 hex_upper_digit_value [of "n mod 16"] show ?thesis
      by (simp add: hex_upper_nat.simps [of n] hex_upper_value_append del: hex_upper_value.simps)
  qed
qed

lemma pad_zero_value: "hex_upper_value (pad_zero w xs) = hex_upper_value xs"
proof -
  have "hex_upper_value (replicate k 0x30 @ xs) = hex_upper_value xs" for k
    by (induction k) (simp_all add: hex_value_def)
  then show ?thesis by (simp add: pad_zero_def)
qed

lemma hex_upper_nat_length: "n < 16 ^ Suc k \<Longrightarrow> length (hex_upper_nat n) \<le> Suc k"
proof (induction k arbitrary: n)
  case 0
  then show ?case by (simp add: hex_upper_nat.simps [of n])
next
  case (Suc k)
  then have "n div 16 < 16 ^ Suc k" by (simp add: less_mult_imp_div_less mult.commute)
  from Suc.IH [OF this] show ?case by (subst hex_upper_nat.simps) simp
qed

lemma pad_zero_length: "length xs \<le> w \<Longrightarrow> length (pad_zero w xs) = w"
  by (simp add: pad_zero_def)

lemma timestamp_length: "length (pad_zero 16 (hex_upper_nat (unat (t::u64)))) = 16"
  using hex_upper_nat_length [of "unat t" 15] unat_u64_less [of t] by (simp add: pad_zero_length)

section \<open>Properties\<close>

text \<open>C38. Request identifiers are unique: two requests share an identifier only when both the clock reading and
  the sequence number are the same.\<close>

theorem request_ids_unique:
  assumes "fst (request_id now sequence) = fst (request_id now' sequence')"
  shows "sequence = sequence' \<and> epoch_nanos now = epoch_nanos now'"
proof -
  let ?t = "\<lambda>n. pad_zero 16 (hex_upper_nat (unat (epoch_nanos n)))" and ?s = "\<lambda>s. pad_zero 8 (hex_upper_nat (unat s))"
  from assms have "?t now @ ?s sequence = ?t now' @ ?s sequence'" by (simp add: request_id_def)
  then have "?t now = ?t now'" "?s sequence = ?s sequence'" using timestamp_length by (simp_all add: append_eq_append_conv)
  then have "unat (epoch_nanos now) = unat (epoch_nanos now')" "unat sequence = unat sequence'"
    by (metis pad_zero_value hex_upper_nat_value)+
  then show ?thesis by (simp only: word_unat_eq_iff simp_thms)
qed

theorem request_ids_unique_witness:
  "fst (request_id (- 5) 7) = fst (request_id (- 9) 7) \<and> (7 :: u64) = 7 \<and> epoch_nanos (- 5) = epoch_nanos (- 9)"
proof -
  have "fst (request_id (- 5) 7) = fst (request_id (- 9) 7)" by (simp add: request_id_def epoch_nanos_def)
  with request_ids_unique [OF this] show ?thesis by simp
qed

lemma content_length_name: "eq_ignore_ascii_case (ascii ''content-length'') (ascii ''content-length'')"
  by (simp add: eq_ignore_ascii_case_def)

text \<open>C40. An error reaches the client whole: the finished response has the error's status, one content length
  that states the length of the error document, and, unless the request was a HEAD, a body that reads
  back as the code, the message, the resource and the request identifier.\<close>

theorem error_response_framed:
  "let doc = rs_body (S3Error_response e resource rid); r = finalize rid head_only (S3Error_response e resource rid) in
     rs_status r = se_status e
     \<and> map snd (filter (\<lambda>(name, _). eq_ignore_ascii_case name (ascii ''content-length'')) (rs_headers r)) = [dec_nat (length doc)]
     \<and> (ascii ''x-amz-request-id'', rid) \<in> set (rs_headers r)
     \<and> rs_body r = (if head_only then [] else doc)
     \<and> lex doc = error_tokens \<lparr>er_code = se_code e, er_message = se_message e, er_resource = Some resource,
          er_request_id = rid, er_host_id = Some rid\<rparr>"
proof -
  have "\<not> eq_ignore_ascii_case (ascii ''content-type'') (ascii ''content-length'')"
    "\<not> eq_ignore_ascii_case (ascii ''x-amz-request-id'') (ascii ''content-length'')"
    "\<not> eq_ignore_ascii_case (ascii ''x-amz-id-2'') (ascii ''content-length'')"
    "\<not> eq_ignore_ascii_case (ascii ''connection'') (ascii ''content-length'')"
    by (simp_all add: eq_ignore_ascii_case_def to_ascii_lowercase_def is_ascii_uppercase_def)
  then show ?thesis
    using content_length_name
    by (simp add: finalize_def S3Error_response_def ServiceResponse_xml_def Let_def lex_serialize_error del: ascii_Cons)
qed

end
