(* ===== verification/Route.thy ===== *)
theory Route
  imports S3Types
begin

text \<open>
  \<^verbatim>\<open>s3/route.rs\<close>: the classification of a parsed request head as one of the S3 operations.  Strings are
  their UTF-8 bytes; \<^verbatim>\<open>i32\<close> and \<^verbatim>\<open>i64\<close> parameters are integers that the numeric parsers keep in range.
  The guards of a \<^verbatim>\<open>match\<close> on the method are grouped by method, in the order the source tries them.
\<close>

section \<open>Operations\<close>

record ListParams =
  lp_prefix :: bytes
  lp_delimiter :: "bytes option"
  lp_marker :: "bytes option"
  lp_start_after :: "bytes option"
  lp_continuation_token :: "bytes option"
  lp_requested_start_after :: "bytes option"
  lp_requested_continuation_token :: "bytes option"
  lp_max_keys :: int
  lp_encoding_type_url :: bool

record VersionListParams =
  vp_prefix :: bytes
  vp_delimiter :: "bytes option"
  vp_key_marker :: "bytes option"
  vp_version_id_marker :: "int option"
  vp_max_keys :: int
  vp_encoding_type_url :: bool

record CopySource =
  src_bucket :: bytes
  src_key :: bytes
  src_version_id :: "int option"

record ListPartsParams =
  part_number_marker :: int
  max_parts :: int

datatype Operation =
    ListBuckets
  | CreateBucket bytes
  | DeleteBucket bytes
  | HeadBucket bytes
  | GetBucketLocation bytes
  | GetBucketVersioning bytes
  | ListObjectsV1 bytes ListParams
  | ListObjectsV2 bytes ListParams
  | ListObjectVersions bytes VersionListParams
  | PutObject bytes bytes
  | CopyObject bytes bytes CopySource
  | RestoreObject bytes bytes int
  | GetObject bytes bytes "int option"
  | HeadObject bytes bytes "int option"
  | DeleteObject bytes bytes "int option"
  | DeleteObjects bytes
  | CreateMultipartUpload bytes bytes
  | UploadPart bytes bytes bytes int
  | CompleteMultipartUploadOp bytes bytes bytes
  | AbortMultipartUpload bytes bytes bytes
  | ListParts bytes bytes bytes ListPartsParams

definition op_name :: "Operation \<Rightarrow> bytes" where
  "op_name op =
     (case op of
        ListBuckets \<Rightarrow> ascii ''ListBuckets''
      | CreateBucket _ \<Rightarrow> ascii ''CreateBucket''
      | DeleteBucket _ \<Rightarrow> ascii ''DeleteBucket''
      | HeadBucket _ \<Rightarrow> ascii ''HeadBucket''
      | GetBucketLocation _ \<Rightarrow> ascii ''GetBucketLocation''
      | GetBucketVersioning _ \<Rightarrow> ascii ''GetBucketVersioning''
      | ListObjectsV1 _ _ \<Rightarrow> ascii ''ListObjects''
      | ListObjectsV2 _ _ \<Rightarrow> ascii ''ListObjectsV2''
      | ListObjectVersions _ _ \<Rightarrow> ascii ''ListObjectVersions''
      | PutObject _ _ \<Rightarrow> ascii ''PutObject''
      | CopyObject _ _ _ \<Rightarrow> ascii ''CopyObject''
      | RestoreObject _ _ _ \<Rightarrow> ascii ''RestoreObject''
      | GetObject _ _ _ \<Rightarrow> ascii ''GetObject''
      | HeadObject _ _ _ \<Rightarrow> ascii ''HeadObject''
      | DeleteObject _ _ _ \<Rightarrow> ascii ''DeleteObject''
      | DeleteObjects _ \<Rightarrow> ascii ''DeleteObjects''
      | CreateMultipartUpload _ _ \<Rightarrow> ascii ''CreateMultipartUpload''
      | UploadPart _ _ _ _ \<Rightarrow> ascii ''UploadPart''
      | CompleteMultipartUploadOp _ _ _ \<Rightarrow> ascii ''CompleteMultipartUpload''
      | AbortMultipartUpload _ _ _ \<Rightarrow> ascii ''AbortMultipartUpload''
      | ListParts _ _ _ _ \<Rightarrow> ascii ''ListParts'')"

definition is_head :: "Operation \<Rightarrow> bool" where
  "is_head op = (case op of HeadBucket _ \<Rightarrow> True | HeadObject _ _ _ \<Rightarrow> True | _ \<Rightarrow> False)"

definition streams_object_body :: "Operation \<Rightarrow> bool" where
  "streams_object_body op = (case op of PutObject _ _ \<Rightarrow> True | UploadPart _ _ _ _ \<Rightarrow> True | _ \<Rightarrow> False)"

definition requires_xml_body :: "Operation \<Rightarrow> bool" where
  "requires_xml_body op = (case op of DeleteObjects _ \<Rightarrow> True | CompleteMultipartUploadOp _ _ _ \<Rightarrow> True | _ \<Rightarrow> False)"

section \<open>Query parameters\<close>

definition unsupported :: S3Error where
  "unsupported = S3Error_new 501 (ascii ''NotImplemented'') (ascii ''The requested S3 operation is not implemented'')"

definition invalid_argument :: "bytes \<Rightarrow> S3Error" where
  "invalid_argument message = S3Error_new 400 (ascii ''InvalidArgument'') message"

definition has_flag :: "QueryParams \<Rightarrow> bytes \<Rightarrow> S3Error + bool" where
  "has_flag query name =
     (let values = QueryParams_get_all query name in
      if length values > 1 then Err (invalid_request (ascii ''duplicate query parameter '' @ name))
      else Ok (length values = 1))"

definition optional_one :: "QueryParams \<Rightarrow> bytes \<Rightarrow> S3Error + bytes option" where
  "optional_one query name =
     (let values = QueryParams_get_all query name in
      if length values > 1 then Err (invalid_request (ascii ''duplicate query parameter '' @ name))
      else opt_try (\<lambda>value. ok_or (from_utf8 value) (invalid_request (name @ ascii '' is not UTF-8''))) (list_first values))"

definition optional_i64 :: "QueryParams \<Rightarrow> bytes \<Rightarrow> S3Error + int option" where
  "optional_i64 query name =
     rbind (optional_one query name) (opt_try (\<lambda>value.
       ok_or (case parse_signed 64 value of Some v \<Rightarrow> if v > 0 then Some v else None | None \<Rightarrow> None)
         (invalid_argument (name @ ascii '' is invalid''))))"

definition optional_i32 :: "QueryParams \<Rightarrow> bytes \<Rightarrow> S3Error + int option" where
  "optional_i32 query name =
     rbind (optional_one query name) (opt_try (\<lambda>value.
       ok_or (parse_signed 32 value) (invalid_argument (name @ ascii '' is invalid''))))"

fun validate_names :: "QueryParam list \<Rightarrow> bytes list \<Rightarrow> S3Error + unit" where
  "validate_names [] allowed = Ok ()"
| "validate_names (pair # pairs) allowed =
     rbind (ok_or (from_utf8 (qp_name pair)) (invalid_request (ascii ''query name is not UTF-8''))) (\<lambda>name.
     if name \<notin> set allowed then Err unsupported else validate_names pairs allowed)"

definition validate_query_names :: "QueryParams \<Rightarrow> bytes list \<Rightarrow> S3Error + unit" where
  "validate_query_names query allowed = validate_names (qp_pairs query) allowed"

definition amz_names :: "bytes list" where
  "amz_names = [ascii ''X-Amz-Algorithm'', ascii ''X-Amz-Credential'', ascii ''X-Amz-Date'', ascii ''X-Amz-Expires'',
     ascii ''X-Amz-SignedHeaders'', ascii ''X-Amz-Signature'', ascii ''X-Amz-Security-Token'']"

definition max_keys :: "QueryParams \<Rightarrow> S3Error + int" where
  "max_keys query =
     rbind (optional_i32 query (ascii ''max-keys'')) (\<lambda>v.
     let value = (case v of Some v \<Rightarrow> v | None \<Rightarrow> 1000) in
     if \<not> (0 \<le> value \<and> value \<le> 1000) then Err (invalid_argument (ascii ''max-keys must be 0..1000''))
     else Ok value)"

definition encoding_type :: "QueryParams \<Rightarrow> S3Error + bool" where
  "encoding_type query =
     rbind (optional_one query (ascii ''encoding-type'')) (\<lambda>v.
     case v of
       None \<Rightarrow> Ok False
     | Some v \<Rightarrow> if v = ascii ''url'' then Ok True
         else Err (invalid_argument (ascii ''encoding-type must be url'')))"

definition validate_multipart_upload_id :: "bytes \<Rightarrow> S3Error + unit" where
  "validate_multipart_upload_id upload_id =
     (if length upload_id = 36
         \<and> list_all (\<lambda>(index, b). if index \<in> {8, 13, 18, 23} then b = 0x2d else is_ascii_hexdigit b)
             (zip [0..<36] upload_id)
      then Ok ()
      else Err (S3Error_new 404 (ascii ''NoSuchUpload'') (ascii ''The specified upload does not exist'')))"

definition x_id_matches :: "QueryParams \<Rightarrow> bytes \<Rightarrow> S3Error + bool" where
  "x_id_matches query operation_id =
     rbind (optional_one query (ascii ''x-id'')) (\<lambda>v.
     case v of Some value \<Rightarrow> if value \<noteq> operation_id then Err unsupported else Ok True | None \<Rightarrow> Ok True)"

definition only_version_query :: "QueryParams \<Rightarrow> bytes \<Rightarrow> S3Error + bool" where
  "only_version_query query operation_id =
     rbind (validate_query_names query ([ascii ''versionId''] @ amz_names @ [ascii ''x-id''])) (\<lambda>_.
     x_id_matches query operation_id)"

definition valid_put_query :: "QueryParams \<Rightarrow> S3Error + bool" where
  "valid_put_query query =
     rbind (validate_query_names query (amz_names @ [ascii ''x-id''])) (\<lambda>_. x_id_matches query (ascii ''PutObject''))"

definition nonempty :: "bytes option \<Rightarrow> bytes option" where
  "nonempty v = (case v of Some s \<Rightarrow> if s = [] then None else Some s | None \<Rightarrow> None)"

section \<open>Parameters\<close>

definition parse_list :: "QueryParams \<Rightarrow> S3Error + ListParams" where
  "parse_list query =
     rbind (validate_query_names query ([ascii ''list-type'', ascii ''prefix'', ascii ''delimiter'', ascii ''marker'',
        ascii ''start-after'', ascii ''continuation-token'', ascii ''max-keys'', ascii ''encoding-type'',
        ascii ''fetch-owner''] @ amz_names)) (\<lambda>_.
     rbind (optional_one query (ascii ''start-after'')) (\<lambda>requested_start_after.
     rbind (optional_one query (ascii ''continuation-token'')) (\<lambda>requested_continuation_token.
     let continuation_token = nonempty requested_continuation_token;
         start_after = (if continuation_token = None then requested_start_after else None) in
     rbind (optional_one query (ascii ''prefix'')) (\<lambda>prefix.
     rbind (optional_one query (ascii ''delimiter'')) (\<lambda>delimiter.
     rbind (optional_one query (ascii ''marker'')) (\<lambda>marker.
     rbind (max_keys query) (\<lambda>max_keys.
     rbind (encoding_type query) (\<lambda>encoding_type_url.
     Ok \<lparr>lp_prefix = (case prefix of Some p \<Rightarrow> p | None \<Rightarrow> []), lp_delimiter = nonempty delimiter, lp_marker = marker,
         lp_start_after = start_after, lp_continuation_token = continuation_token,
         lp_requested_start_after = requested_start_after,
         lp_requested_continuation_token = requested_continuation_token,
         lp_max_keys = max_keys, lp_encoding_type_url = encoding_type_url\<rparr>))))))))"

definition parse_version_list :: "QueryParams \<Rightarrow> S3Error + VersionListParams" where
  "parse_version_list query =
     rbind (validate_query_names query ([ascii ''versions'', ascii ''prefix'', ascii ''delimiter'', ascii ''key-marker'',
        ascii ''version-id-marker'', ascii ''max-keys'', ascii ''encoding-type''] @ amz_names)) (\<lambda>_.
     rbind (optional_one query (ascii ''key-marker'')) (\<lambda>key_marker.
     rbind (optional_i64 query (ascii ''version-id-marker'')) (\<lambda>version_id_marker.
     if version_id_marker \<noteq> None \<and> key_marker = None
     then Err (invalid_argument (ascii ''version-id-marker requires key-marker''))
     else
     rbind (optional_one query (ascii ''prefix'')) (\<lambda>prefix.
     rbind (optional_one query (ascii ''delimiter'')) (\<lambda>delimiter.
     rbind (max_keys query) (\<lambda>max_keys.
     rbind (encoding_type query) (\<lambda>encoding_type_url.
     Ok \<lparr>vp_prefix = (case prefix of Some p \<Rightarrow> p | None \<Rightarrow> []), vp_delimiter = nonempty delimiter,
         vp_key_marker = key_marker, vp_version_id_marker = version_id_marker,
         vp_max_keys = max_keys, vp_encoding_type_url = encoding_type_url\<rparr>)))))))"

definition parse_copy_source :: "HeaderMap \<Rightarrow> S3Error + CopySource" where
  "parse_copy_source headers =
     (case HeaderMap_get_all headers (ascii ''x-amz-copy-source'') of
        [value] \<Rightarrow>
          rbind (ok_or (from_utf8 value) (invalid_request (ascii ''x-amz-copy-source is not UTF-8''))) (\<lambda>raw.
          let (raw_path, raw_query) = (case split_once 0x3f raw of Some p \<Rightarrow> p | None \<Rightarrow> (raw, []));
              path = (if starts_with [0x2f] raw_path then raw_path else 0x2f # raw_path) in
          rbind (map_err (\<lambda>e. invalid_request (HttpParseError_display e)) (parse_path_style path)) (\<lambda>parsed.
          rbind (map_err (\<lambda>e. invalid_request (HttpParseError_display e)) (QueryParams_parse raw_query)) (\<lambda>source_query.
          if list_ex (\<lambda>pair. qp_name pair \<noteq> ascii ''versionId'') (qp_pairs source_query)
          then Err (invalid_request (ascii ''invalid copy source query''))
          else
          rbind (ok_or (ps_bucket parsed) (invalid_request (ascii ''copy source has no bucket''))) (\<lambda>bucket.
          rbind (ok_or (nonempty (ps_key parsed)) (invalid_request (ascii ''copy source has no object key''))) (\<lambda>key.
          rbind (optional_i64 source_query (ascii ''versionId'')) (\<lambda>version_id.
          Ok \<lparr>src_bucket = bucket, src_key = key, src_version_id = version_id\<rparr>))))))
      | _ \<Rightarrow> Err (invalid_request (ascii ''x-amz-copy-source must appear once'')))"

section \<open>Classification\<close>

definition classify_bucket :: "bytes \<Rightarrow> bytes \<Rightarrow> QueryParams \<Rightarrow> S3Error + Operation" where
  "classify_bucket method bucket query =
     (if method = ascii ''PUT'' \<and> qp_pairs query = [] then Ok (CreateBucket bucket)
      else if method = ascii ''DELETE'' \<and> qp_pairs query = [] then Ok (DeleteBucket bucket)
      else if method = ascii ''HEAD'' \<and> qp_pairs query = [] then Ok (HeadBucket bucket)
      else if method = ascii ''GET'' then
        rbind (has_flag query (ascii ''location'')) (\<lambda>location.
        if location then Ok (GetBucketLocation bucket) else
        rbind (has_flag query (ascii ''versioning'')) (\<lambda>versioning.
        if versioning then Ok (GetBucketVersioning bucket) else
        rbind (has_flag query (ascii ''versions'')) (\<lambda>versions.
        if versions then rbind (parse_version_list query) (\<lambda>params. Ok (ListObjectVersions bucket params)) else
        rbind (optional_one query (ascii ''list-type'')) (\<lambda>list_type.
        rbind (parse_list query) (\<lambda>params.
        if list_type = None \<or> list_type = Some (ascii ''1'') then Ok (ListObjectsV1 bucket params)
        else if list_type = Some (ascii ''2'') then Ok (ListObjectsV2 bucket params)
        else Err (invalid_request (ascii ''list-type must be 1 or 2'')))))))
      else if method = ascii ''POST'' then
        rbind (has_flag query (ascii ''delete'')) (\<lambda>delete.
        if delete then Ok (DeleteObjects bucket) else Err unsupported)
      else Err unsupported)"

definition parse_list_parts :: "bytes \<Rightarrow> bytes \<Rightarrow> bytes \<Rightarrow> QueryParams \<Rightarrow> S3Error + Operation" where
  "parse_list_parts bucket key upload_id query =
     rbind (validate_query_names query ([ascii ''uploadId'', ascii ''part-number-marker'', ascii ''max-parts'',
        ascii ''encoding-type''] @ amz_names)) (\<lambda>_.
     rbind (optional_one query (ascii ''encoding-type'')) (\<lambda>encoding.
     if encoding \<noteq> None \<and> encoding \<noteq> Some (ascii ''url'')
     then Err (invalid_argument (ascii ''encoding-type must be url''))
     else
     rbind (optional_i32 query (ascii ''part-number-marker'')) (\<lambda>marker.
     rbind (optional_i32 query (ascii ''max-parts'')) (\<lambda>limit.
     let part_number_marker = (case marker of Some v \<Rightarrow> v | None \<Rightarrow> 0);
         max_parts = (case limit of Some v \<Rightarrow> v | None \<Rightarrow> 1000) in
     if \<not> (0 \<le> part_number_marker \<and> part_number_marker \<le> 10000) \<or> \<not> (0 \<le> max_parts \<and> max_parts \<le> 1000)
     then Err (invalid_argument (ascii ''part-number-marker must be 0..10000 and max-parts must be 0..1000''))
     else Ok (ListParts bucket key upload_id
       \<lparr>part_number_marker = part_number_marker, max_parts = max_parts\<rparr>)))))"

definition classify_object :: "bytes \<Rightarrow> bytes \<Rightarrow> bytes \<Rightarrow> QueryParams \<Rightarrow> HeaderMap \<Rightarrow> S3Error + Operation" where
  "classify_object method bucket key query headers =
     rbind (optional_one query (ascii ''uploadId'')) (\<lambda>upload_id.
     rbind (optional_i64 query (ascii ''versionId'')) (\<lambda>version_id.
     rbind (optional_i32 query (ascii ''partNumber'')) (\<lambda>part_number.
     if method = ascii ''POST'' then
       rbind (has_flag query (ascii ''uploads'')) (\<lambda>uploads.
       if uploads then Ok (CreateMultipartUpload bucket key) else
       case upload_id of
         Some upload_id \<Rightarrow>
           rbind (validate_multipart_upload_id upload_id) (\<lambda>_. Ok (CompleteMultipartUploadOp bucket key upload_id))
       | None \<Rightarrow>
           rbind (has_flag query (ascii ''restore'')) (\<lambda>restore.
           if restore then
             rbind (ok_or version_id (invalid_argument (ascii ''restore requires versionId''))) (\<lambda>version_id.
             Ok (RestoreObject bucket key version_id))
           else Err unsupported))
     else if method = ascii ''PUT'' then
       (case (upload_id, part_number) of
          (Some upload_id, Some part_number) \<Rightarrow>
            if \<not> (1 \<le> part_number \<and> part_number \<le> 10000)
            then Err (invalid_argument (ascii ''partNumber must be 1..10000''))
            else Ok (UploadPart bucket key upload_id part_number)
        | _ \<Rightarrow>
            if HeaderMap_get headers (ascii ''x-amz-copy-source'') \<noteq> None then
              rbind (parse_copy_source headers) (\<lambda>source. Ok (CopyObject bucket key source))
            else rbind (valid_put_query query) (\<lambda>valid.
              if valid then Ok (PutObject bucket key) else Err unsupported))
     else if method = ascii ''DELETE'' then
       (case upload_id of
          Some upload_id \<Rightarrow>
            rbind (validate_multipart_upload_id upload_id) (\<lambda>_. Ok (AbortMultipartUpload bucket key upload_id))
        | None \<Rightarrow> rbind (only_version_query query (ascii ''DeleteObject'')) (\<lambda>valid.
            if valid then Ok (DeleteObject bucket key version_id) else Err unsupported))
     else if method = ascii ''GET'' then
       (case upload_id of
          Some upload_id \<Rightarrow> parse_list_parts bucket key upload_id query
        | None \<Rightarrow> rbind (only_version_query query (ascii ''GetObject'')) (\<lambda>valid.
            if valid then Ok (GetObject bucket key version_id) else Err unsupported))
     else if method = ascii ''HEAD'' then
       rbind (only_version_query query (ascii ''HeadObject'')) (\<lambda>valid.
       if valid then Ok (HeadObject bucket key version_id) else Err unsupported)
     else Err unsupported)))"

definition classify :: "RequestHead \<Rightarrow> S3Error + Operation" where
  "classify request =
     rbind (map_err (\<lambda>e. invalid_request (HttpParseError_display e)) (parse_path_style (raw_path (rh_target request)))) (\<lambda>path.
     let key = nonempty (ps_key path); query = rt_query (rh_target request); method = rh_method request in
     case ps_bucket path of
       None \<Rightarrow> if method = ascii ''GET'' \<and> qp_pairs query = [] then Ok ListBuckets else Err unsupported
     | Some bucket \<Rightarrow>
         (case key of
            Some key \<Rightarrow> classify_object method bucket key query (rh_headers request)
          | None \<Rightarrow> classify_bucket method bucket query))"

section \<open>Well-formed operations\<close>

definition bucket_wf :: "bytes \<Rightarrow> bool" where
  "bucket_wf b \<longleftrightarrow> b \<noteq> [] \<and> utf8_valid b \<and> 0x2f \<notin> set b \<and> \<not> list_ex is_ascii_control b"

definition key_wf :: "bytes \<Rightarrow> bool" where
  "key_wf k \<longleftrightarrow> k \<noteq> [] \<and> utf8_valid k \<and> 0 \<notin> set k"

definition text_wf :: "bytes option \<Rightarrow> bool" where
  "text_wf v \<longleftrightarrow> (case v of None \<Rightarrow> True | Some s \<Rightarrow> utf8_valid s)"

definition version_wf :: "int option \<Rightarrow> bool" where
  "version_wf v \<longleftrightarrow> (case v of None \<Rightarrow> True | Some n \<Rightarrow> 0 < n \<and> n < 2 ^ 63)"

definition list_wf :: "ListParams \<Rightarrow> bool" where
  "list_wf p \<longleftrightarrow>
     utf8_valid (lp_prefix p) \<and> text_wf (lp_delimiter p) \<and> lp_delimiter p \<noteq> Some [] \<and> text_wf (lp_marker p)
     \<and> text_wf (lp_requested_start_after p) \<and> text_wf (lp_requested_continuation_token p)
     \<and> lp_continuation_token p = nonempty (lp_requested_continuation_token p)
     \<and> lp_start_after p = (if lp_continuation_token p = None then lp_requested_start_after p else None)
     \<and> 0 \<le> lp_max_keys p \<and> lp_max_keys p \<le> 1000"

definition version_list_wf :: "VersionListParams \<Rightarrow> bool" where
  "version_list_wf p \<longleftrightarrow>
     utf8_valid (vp_prefix p) \<and> text_wf (vp_delimiter p) \<and> vp_delimiter p \<noteq> Some [] \<and> text_wf (vp_key_marker p)
     \<and> version_wf (vp_version_id_marker p) \<and> (vp_version_id_marker p \<noteq> None \<longrightarrow> vp_key_marker p \<noteq> None)
     \<and> 0 \<le> vp_max_keys p \<and> vp_max_keys p \<le> 1000"

definition source_wf :: "CopySource \<Rightarrow> bool" where
  "source_wf s \<longleftrightarrow> bucket_wf (src_bucket s) \<and> key_wf (src_key s) \<and> version_wf (src_version_id s)"

definition op_wf :: "Operation \<Rightarrow> bool" where
  "op_wf op \<longleftrightarrow>
     (case op of
        ListBuckets \<Rightarrow> True
      | CreateBucket b \<Rightarrow> bucket_wf b
      | DeleteBucket b \<Rightarrow> bucket_wf b
      | HeadBucket b \<Rightarrow> bucket_wf b
      | GetBucketLocation b \<Rightarrow> bucket_wf b
      | GetBucketVersioning b \<Rightarrow> bucket_wf b
      | ListObjectsV1 b p \<Rightarrow> bucket_wf b \<and> list_wf p
      | ListObjectsV2 b p \<Rightarrow> bucket_wf b \<and> list_wf p
      | ListObjectVersions b p \<Rightarrow> bucket_wf b \<and> version_list_wf p
      | PutObject b k \<Rightarrow> bucket_wf b \<and> key_wf k
      | CopyObject b k s \<Rightarrow> bucket_wf b \<and> key_wf k \<and> source_wf s
      | RestoreObject b k v \<Rightarrow> bucket_wf b \<and> key_wf k \<and> version_wf (Some v)
      | GetObject b k v \<Rightarrow> bucket_wf b \<and> key_wf k \<and> version_wf v
      | HeadObject b k v \<Rightarrow> bucket_wf b \<and> key_wf k \<and> version_wf v
      | DeleteObject b k v \<Rightarrow> bucket_wf b \<and> key_wf k \<and> version_wf v
      | DeleteObjects b \<Rightarrow> bucket_wf b
      | CreateMultipartUpload b k \<Rightarrow> bucket_wf b \<and> key_wf k
      | UploadPart b k u n \<Rightarrow> bucket_wf b \<and> key_wf k \<and> utf8_valid u \<and> 1 \<le> n \<and> n \<le> 10000
      | CompleteMultipartUploadOp b k u \<Rightarrow> bucket_wf b \<and> key_wf k \<and> validate_multipart_upload_id u = Ok () \<and> utf8_valid u
      | AbortMultipartUpload b k u \<Rightarrow> bucket_wf b \<and> key_wf k \<and> validate_multipart_upload_id u = Ok () \<and> utf8_valid u
      | ListParts b k u p \<Rightarrow> bucket_wf b \<and> key_wf k \<and> utf8_valid u
          \<and> 0 \<le> part_number_marker p \<and> part_number_marker p \<le> 10000 \<and> 0 \<le> max_parts p \<and> max_parts p \<le> 1000)"

lemma optional_one_wf: "optional_one q n = Ok v \<Longrightarrow> text_wf v"
  by (auto simp: optional_one_def Let_def opt_try_eq_Inr text_wf_def from_utf8_Some split: if_splits option.splits)

lemma positive_signed:
  "(case parse_signed 64 s of Some v \<Rightarrow> if v > 0 then Some v else None | None \<Rightarrow> None) = Some n
   \<longleftrightarrow> parse_signed 64 s = Some n \<and> 0 < n"
  by (auto split: option.splits if_splits)

lemma optional_i64_Inr:
  "optional_i64 q n = Ok v \<longleftrightarrow>
     (case v of None \<Rightarrow> optional_one q n = Ok None
      | Some i \<Rightarrow> \<exists>s. optional_one q n = Ok (Some s) \<and> parse_signed 64 s = Some i \<and> 0 < i)"
  by (auto simp: optional_i64_def opt_try_eq_Inr positive_signed split: option.splits)

lemma optional_i64_wf: "optional_i64 q n = Ok v \<Longrightarrow> version_wf v"
  using parse_signed_bound [of 64] by (auto simp: optional_i64_Inr version_wf_def split: option.splits)

lemma max_keys_wf: "max_keys q = Ok n \<Longrightarrow> 0 \<le> n \<and> n \<le> 1000"
  by (auto simp: max_keys_def Let_def simp del: ascii_Cons split: if_splits)

lemma text_wf_simps [simp]: "text_wf None" "text_wf (Some s) = utf8_valid s"
  by (simp_all add: text_wf_def)

lemma nonempty_simps: "nonempty v \<noteq> Some []" "text_wf v \<Longrightarrow> text_wf (nonempty v)"
  by (auto simp: nonempty_def split: option.splits)

lemma default_wf: "text_wf v \<Longrightarrow> utf8_valid (case v of Some p \<Rightarrow> p | None \<Rightarrow> [])"
  by (cases v) (simp_all add: utf8_valid_def)

lemma parse_list_wf:
  assumes "parse_list q = Ok p"
  shows "list_wf p"
  using assms max_keys_wf [of q]
  by (auto simp: parse_list_def list_wf_def Let_def nonempty_simps default_wf simp del: ascii_Cons
      dest!: optional_one_wf)

lemma parse_version_list_wf:
  assumes "parse_version_list q = Ok p"
  shows "version_list_wf p"
  using assms max_keys_wf [of q]
  by (auto simp: parse_version_list_def version_list_wf_def nonempty_simps default_wf simp del: ascii_Cons
      dest!: optional_one_wf optional_i64_wf split: if_splits)

lemma parse_path_style_wf:
  assumes "parse_path_style p = Ok t"
  shows "(\<forall>b. ps_bucket t = Some b \<longrightarrow> bucket_wf b) \<and> (\<forall>k. nonempty (ps_key t) = Some k \<longrightarrow> key_wf k)"
  using assms
  by (auto simp: parse_path_style_def parse_path_key_def bucket_wf_def key_wf_def nonempty_def Let_def from_utf8_Some
      opt_try_eq_Inr split: if_splits option.splits prod.splits)

lemma parse_copy_source_wf:
  assumes "parse_copy_source h = Ok s"
  shows "source_wf s"
  using assms
  by (auto simp: parse_copy_source_def source_wf_def Let_def simp del: ascii_Cons
      dest!: parse_path_style_wf optional_i64_wf split: list.splits prod.splits if_splits)

lemma parse_list_parts_wf:
  assumes "parse_list_parts b k u q = Ok op" "bucket_wf b" "key_wf k" "utf8_valid u"
  shows "op_wf op"
  using assms by (auto simp: parse_list_parts_def op_wf_def Let_def simp del: ascii_Cons split: if_splits)

lemma classify_bucket_wf:
  assumes "classify_bucket m b q = Ok op" "bucket_wf b"
  shows "op_wf op"
  using assms by (auto simp: classify_bucket_def op_wf_def parse_list_wf parse_version_list_wf simp del: ascii_Cons
      split: if_splits)

lemma classify_object_wf:
  assumes op: "classify_object m b k q h = Ok op" and wf: "bucket_wf b" "key_wf k"
  shows "op_wf op"
proof -
  obtain u v n where u: "optional_one q (ascii ''uploadId'') = Ok u" and v: "optional_i64 q (ascii ''versionId'') = Ok v"
    and n: "optional_i32 q (ascii ''partNumber'') = Ok n"
    using op by (auto simp: classify_object_def simp del: ascii_Cons)
  note facts = optional_one_wf [OF u] optional_i64_wf [OF v] wf
  consider "m = ascii ''POST''" | "m = ascii ''PUT''" | "m = ascii ''DELETE''" | "m = ascii ''GET''" | "m = ascii ''HEAD''"
    using op u v n by (fastforce simp: classify_object_def simp del: ascii_Cons split: if_splits)
  then show ?thesis
  proof cases
    case 1
    show ?thesis
      using op facts u v n unfolding classify_object_def 1
      by (auto simp: op_wf_def ascii_eq simp del: ascii_Cons split: if_splits option.splits)
  next
    case 2
    show ?thesis
      using op facts u v n unfolding classify_object_def 2
      by (auto simp: op_wf_def ascii_eq parse_copy_source_wf simp del: ascii_Cons split: if_splits option.splits)
  next
    case 3
    show ?thesis
      using op facts u v n unfolding classify_object_def 3
      by (auto simp: op_wf_def ascii_eq simp del: ascii_Cons split: if_splits option.splits)
  next
    case 4
    show ?thesis
      using op facts u v n unfolding classify_object_def 4
      by (auto simp: op_wf_def ascii_eq simp del: ascii_Cons split: if_splits option.splits
          dest!: parse_list_parts_wf)
  next
    case 5
    show ?thesis
      using op facts u v n unfolding classify_object_def 5
      by (auto simp: op_wf_def ascii_eq simp del: ascii_Cons split: if_splits option.splits)
  qed
qed

end
