(* ===== verification/RouteRequests.thy ===== *)
theory RouteRequests
  imports Route
begin

text \<open>
  The requests that ask for an operation and their classification (\<^verbatim>\<open>s3/route.rs\<close>): how a client spells
  the method, path, query and copy source of every operation, and that \<open>classify\<close> reads each back.
\<close>

section \<open>The request for an operation\<close>

text \<open>Query pairs with their percent-encoded spelling, and the pairs, the path, the method and the
  copy-source field with which a client asks for an operation.\<close>

definition query_of :: "(bytes \<times> bytes) list \<Rightarrow> QueryParams" where
  "query_of ps = \<lparr>qp_pairs = map (\<lambda>(n, v). \<lparr>raw_name = aws_encode n True, raw_value = aws_encode v True,
     qp_name = n, qp_value = v\<rparr>) ps\<rparr>"

definition query_bytes :: "(bytes \<times> bytes) list \<Rightarrow> bytes" where
  "query_bytes ps = join [0x26] (map (\<lambda>(n, v). aws_encode n True @ 0x3d # aws_encode v True) ps)"

definition opt_pair :: "string \<Rightarrow> bytes option \<Rightarrow> (bytes \<times> bytes) list" where
  "opt_pair n v = (case v of None \<Rightarrow> [] | Some x \<Rightarrow> [(ascii n, x)])"

definition list_query :: "ListParams \<Rightarrow> (bytes \<times> bytes) list" where
  "list_query p = (ascii ''prefix'', lp_prefix p) # opt_pair ''delimiter'' (lp_delimiter p) @ opt_pair ''marker'' (lp_marker p)
     @ opt_pair ''start-after'' (lp_requested_start_after p)
     @ opt_pair ''continuation-token'' (lp_requested_continuation_token p)
     @ (ascii ''max-keys'', dec_int (lp_max_keys p))
     # opt_pair ''encoding-type'' (if lp_encoding_type_url p then Some (ascii ''url'') else None)"

definition version_list_query :: "VersionListParams \<Rightarrow> (bytes \<times> bytes) list" where
  "version_list_query p = (ascii ''prefix'', vp_prefix p) # opt_pair ''delimiter'' (vp_delimiter p)
     @ opt_pair ''key-marker'' (vp_key_marker p) @ opt_pair ''version-id-marker'' (map_option dec_int (vp_version_id_marker p))
     @ (ascii ''max-keys'', dec_int (vp_max_keys p))
     # opt_pair ''encoding-type'' (if vp_encoding_type_url p then Some (ascii ''url'') else None)"

definition op_method :: "Operation \<Rightarrow> bytes" where
  "op_method op =
     (case op of
        CreateBucket _ \<Rightarrow> ascii ''PUT'' | DeleteBucket _ \<Rightarrow> ascii ''DELETE'' | HeadBucket _ \<Rightarrow> ascii ''HEAD''
      | PutObject _ _ \<Rightarrow> ascii ''PUT'' | CopyObject _ _ _ \<Rightarrow> ascii ''PUT'' | UploadPart _ _ _ _ \<Rightarrow> ascii ''PUT''
      | HeadObject _ _ _ \<Rightarrow> ascii ''HEAD'' | DeleteObject _ _ _ \<Rightarrow> ascii ''DELETE''
      | AbortMultipartUpload _ _ _ \<Rightarrow> ascii ''DELETE'' | RestoreObject _ _ _ \<Rightarrow> ascii ''POST''
      | DeleteObjects _ \<Rightarrow> ascii ''POST'' | CreateMultipartUpload _ _ \<Rightarrow> ascii ''POST''
      | CompleteMultipartUploadOp _ _ _ \<Rightarrow> ascii ''POST''
      | _ \<Rightarrow> ascii ''GET'')"

definition op_query :: "Operation \<Rightarrow> (bytes \<times> bytes) list" where
  "op_query op =
     (case op of
        GetBucketLocation _ \<Rightarrow> [(ascii ''location'', [])]
      | GetBucketVersioning _ \<Rightarrow> [(ascii ''versioning'', [])]
      | ListObjectsV1 _ p \<Rightarrow> list_query p
      | ListObjectsV2 _ p \<Rightarrow> (ascii ''list-type'', ascii ''2'') # list_query p
      | ListObjectVersions _ p \<Rightarrow> (ascii ''versions'', []) # version_list_query p
      | RestoreObject _ _ v \<Rightarrow> [(ascii ''restore'', []), (ascii ''versionId'', dec_int v)]
      | GetObject _ _ v \<Rightarrow> opt_pair ''versionId'' (map_option dec_int v)
      | HeadObject _ _ v \<Rightarrow> opt_pair ''versionId'' (map_option dec_int v)
      | DeleteObject _ _ v \<Rightarrow> opt_pair ''versionId'' (map_option dec_int v)
      | DeleteObjects _ \<Rightarrow> [(ascii ''delete'', [])]
      | CreateMultipartUpload _ _ \<Rightarrow> [(ascii ''uploads'', [])]
      | UploadPart _ _ u n \<Rightarrow> [(ascii ''partNumber'', dec_int n), (ascii ''uploadId'', u)]
      | CompleteMultipartUploadOp _ _ u \<Rightarrow> [(ascii ''uploadId'', u)]
      | AbortMultipartUpload _ _ u \<Rightarrow> [(ascii ''uploadId'', u)]
      | ListParts _ _ u p \<Rightarrow> [(ascii ''uploadId'', u), (ascii ''part-number-marker'', dec_int (part_number_marker p)),
          (ascii ''max-parts'', dec_int (max_parts p))]
      | _ \<Rightarrow> [])"

definition bucket_path :: "bytes \<Rightarrow> bytes" where
  "bucket_path b = 0x2f # aws_encode b True"

definition object_path :: "bytes \<Rightarrow> bytes \<Rightarrow> bytes" where
  "object_path b k = 0x2f # aws_encode b True @ 0x2f # aws_encode k False"

definition op_path :: "Operation \<Rightarrow> bytes" where
  "op_path op =
     (case op of
        ListBuckets \<Rightarrow> [0x2f]
      | CreateBucket b \<Rightarrow> bucket_path b | DeleteBucket b \<Rightarrow> bucket_path b | HeadBucket b \<Rightarrow> bucket_path b
      | GetBucketLocation b \<Rightarrow> bucket_path b | GetBucketVersioning b \<Rightarrow> bucket_path b
      | ListObjectsV1 b _ \<Rightarrow> bucket_path b | ListObjectsV2 b _ \<Rightarrow> bucket_path b
      | ListObjectVersions b _ \<Rightarrow> bucket_path b | DeleteObjects b \<Rightarrow> bucket_path b
      | PutObject b k \<Rightarrow> object_path b k | CopyObject b k _ \<Rightarrow> object_path b k | RestoreObject b k _ \<Rightarrow> object_path b k
      | GetObject b k _ \<Rightarrow> object_path b k | HeadObject b k _ \<Rightarrow> object_path b k | DeleteObject b k _ \<Rightarrow> object_path b k
      | CreateMultipartUpload b k \<Rightarrow> object_path b k | UploadPart b k _ _ \<Rightarrow> object_path b k
      | CompleteMultipartUploadOp b k _ \<Rightarrow> object_path b k | AbortMultipartUpload b k _ \<Rightarrow> object_path b k
      | ListParts b k _ _ \<Rightarrow> object_path b k)"

definition source_bytes :: "CopySource \<Rightarrow> bytes" where
  "source_bytes s = object_path (src_bucket s) (src_key s)
     @ (case src_version_id s of None \<Rightarrow> [] | Some v \<Rightarrow> 0x3f # query_bytes [(ascii ''versionId'', dec_int v)])"

definition op_source :: "Operation \<Rightarrow> bytes list" where
  "op_source op = (case op of CopyObject _ _ s \<Rightarrow> [source_bytes s] | _ \<Rightarrow> [])"

text \<open>Signing parameters may follow the operation's own.  For four operations the code asks for an empty query.\<close>

definition bare_query :: "Operation \<Rightarrow> bool" where
  "bare_query op = (case op of ListBuckets \<Rightarrow> True | CreateBucket _ \<Rightarrow> True | DeleteBucket _ \<Rightarrow> True | HeadBucket _ \<Rightarrow> True
     | _ \<Rightarrow> False)"

definition signing_ok :: "(bytes \<times> bytes) list \<Rightarrow> bool" where
  "signing_ok signing \<longleftrightarrow> list_all (\<lambda>p. fst p \<in> set amz_names) signing"

definition asks_for :: "RequestHead \<Rightarrow> (bytes \<times> bytes) list \<Rightarrow> Operation \<Rightarrow> bool" where
  "asks_for r signing op \<longleftrightarrow>
     rh_method r = op_method op \<and> raw_path (rh_target r) = op_path op
     \<and> QueryParams_parse (query_bytes (op_query op @ signing)) = Ok (rt_query (rh_target r))
     \<and> signing_ok signing
     \<and> HeaderMap_get_all (rh_headers r) (ascii ''x-amz-copy-source'') = op_source op"

section \<open>Reading the request back\<close>

lemma aws_path_plain:
  "d \<in> {0x2f, 0x3f, 0x23, 0x26, 0x3d} \<Longrightarrow> d \<notin> set (aws_encode b True)" "d \<in> {0x3f, 0x23} \<Longrightarrow> d \<notin> set (aws_encode k False)"
  by (auto dest!: aws_encode_alphabet simp: is_unreserved_def ascii_class_defs)

lemma aws_encode_ascii: "c \<in> set (aws_encode v es) \<Longrightarrow> c < 0x80"
  by (drule aws_encode_alphabet) (auto simp: is_unreserved_def ascii_class_defs word_le_nat_alt word_less_nat_alt)

lemma aws_encode_empty: "aws_encode v es = [] \<longleftrightarrow> v = []"
  by (cases v) (auto simp: push_percent_encoded_def)

lemma bucket_wf_plain: "bucket_wf b \<Longrightarrow> 0 \<notin> set b"
  by (auto simp: bucket_wf_def list_ex_iff is_ascii_control_def)

lemma parse_bucket_path:
  assumes "bucket_wf b"
  shows "parse_path_style (bucket_path b) = Ok \<lparr>ps_bucket = Some b, ps_key = None\<rparr>"
proof -
  have "split_once 0x2f (aws_encode b True) = None"
    by (simp add: split_once_None aws_path_plain)
  then show ?thesis
    using assms bucket_wf_plain [OF assms]
    by (simp add: bucket_path_def parse_path_style_def aws_path_plain starts_with_def aws_encode_empty bucket_wf_def
        percent_decode_aws_encode opt_try_def ok_or_def from_utf8_def)
qed

lemma parse_object_path:
  assumes "bucket_wf b" "key_wf k"
  shows "parse_path_style (object_path b k) = Ok \<lparr>ps_bucket = Some b, ps_key = Some k\<rparr>"
proof -
  have "split_once 0x2f (aws_encode b True @ 0x2f # aws_encode k False) = Some (aws_encode b True, aws_encode k False)"
    by (simp add: split_once_Some aws_path_plain)
  then show ?thesis
    using assms bucket_wf_plain [OF assms(1)]
    by (simp add: object_path_def parse_path_style_def aws_path_plain starts_with_def bucket_wf_def key_wf_def
        percent_decode_aws_encode opt_try_def ok_or_def from_utf8_def parse_path_key_def)
qed

lemma query_of_simps:
  "qp_pairs (query_of ps) = [] \<longleftrightarrow> ps = []"
  "QueryParams_get_all (query_of ps) n = map snd (filter (\<lambda>p. fst p = n) ps)"
  by (induction ps) (auto simp: query_of_def QueryParams_get_all_def)

lemma parse_query_pair:
  "parse_query_component (aws_encode n True @ 0x3d # aws_encode v True)
   = Ok \<lparr>raw_name = aws_encode n True, raw_value = aws_encode v True, qp_name = n, qp_value = v\<rparr>"
proof -
  have "split_once 0x3d (aws_encode n True @ 0x3d # aws_encode v True) = Some (aws_encode n True, aws_encode v True)"
    by (simp add: split_once_Some aws_path_plain)
  then show ?thesis by (simp add: parse_query_component_def percent_decode_aws_encode)
qed

lemma parse_query_bytes: "QueryParams_parse (query_bytes ps) = Ok (query_of ps)"
proof (cases "ps = []")
  case False
  let ?render = "\<lambda>(n, v). aws_encode n True @ 0x3d # aws_encode v True"
  have "split_on (\<lambda>b. b = 0x26) (query_bytes ps) = map ?render ps"
    unfolding query_bytes_def using False by (intro split_on_join) (auto simp: aws_path_plain)
  moreover have "query_loop (map ?render ps) = Ok (qp_pairs (query_of ps))"
    by (induction ps) (auto simp: query_of_def parse_query_pair)
  moreover have "query_bytes ps \<noteq> []"
    using False by (cases ps rule: remdups_adj.cases) (auto simp: query_bytes_def)
  ultimately show ?thesis by (simp add: QueryParams_parse_def query_of_def)
qed (simp add: query_bytes_def query_of_def QueryParams_parse_def)

lemma signing_absent:
  "list_all (\<lambda>p. fst p \<in> set amz_names) signing \<Longrightarrow> n \<notin> set amz_names \<Longrightarrow> filter (\<lambda>p. fst p = n) signing = []"
  by (auto simp: filter_empty_conv list_all_iff)

lemma ascii_utf8: "list_all (\<lambda>c. \<not> digit7 c) s \<Longrightarrow> utf8_valid (ascii s)"
proof (rule utf8_valid_ascii, rule ballI)
  fix b assume "list_all (\<lambda>c. \<not> digit7 c) s" "b \<in> set (ascii s)"
  then obtain c where c: "b = of_char c" "\<not> digit7 c" by (auto simp: ascii_def list_all_iff)
  have n: "of_char c < (128 :: nat)" using c(2) by (cases c) (auto split: if_splits)
  have "b = word_of_nat (of_char c)" by (simp only: c(1) of_nat_of_char)
  then have "unat b = of_char c" using n by (simp only: unat_of_nat) simp
  with n show "b < 0x80" by (simp add: word_less_nat_alt)
qed

lemma amz_names_utf8: "n \<in> set amz_names \<Longrightarrow> utf8_valid n"
  by (auto simp: amz_names_def ascii_utf8 simp del: ascii_Cons)

lemma validate_names_pairs:
  "validate_query_names (query_of ps) allowed = Ok () \<longleftrightarrow> list_all (\<lambda>p. fst p \<in> set allowed \<and> utf8_valid (fst p)) ps"
proof -
  have "validate_names (qp_pairs (query_of ps)) allowed = Ok () \<longleftrightarrow> list_all (\<lambda>p. fst p \<in> set allowed \<and> utf8_valid (fst p)) ps"
    by (induction ps) (auto simp: query_of_def)
  then show ?thesis by (simp add: validate_query_names_def)
qed


definition named :: "bytes list \<Rightarrow> (bytes \<times> bytes) list \<Rightarrow> bool" where
  "named allowed ps \<longleftrightarrow> list_all (\<lambda>p. fst p \<in> set allowed \<and> utf8_valid (fst p)) ps"

lemma named_pair_simps [simp]:
  "named allowed []" "named allowed (ps @ qs) \<longleftrightarrow> named allowed ps \<and> named allowed qs"
  "named allowed ((n, v) # ps) \<longleftrightarrow> n \<in> set allowed \<and> utf8_valid n \<and> named allowed ps"
  by (simp_all add: named_def)

lemma named_opt_pair [simp]: "ascii n \<in> set allowed \<Longrightarrow> utf8_valid (ascii n) \<Longrightarrow> named allowed (opt_pair n v)"
  by (auto simp: opt_pair_def split: option.splits)

lemma validate_own:
  assumes "signing_ok signing" "set amz_names \<subseteq> set allowed" "named allowed ps"
  shows "validate_query_names (query_of (ps @ signing)) allowed = Ok ()"
  using assms by (auto simp: validate_names_pairs list_all_iff named_def signing_ok_def dest: amz_names_utf8)

text \<open>The values the operation's own pairs give a name; the signing parameters add none.\<close>

definition own :: "(bytes \<times> bytes) list \<Rightarrow> string \<Rightarrow> bytes list" where
  "own ps n = map snd (filter (\<lambda>p. fst p = ascii n) ps)"

definition opt_list :: "bytes option \<Rightarrow> bytes list" where
  "opt_list v = (case v of None \<Rightarrow> [] | Some x \<Rightarrow> [x])"

lemma own_simps [simp]:
  "own [] n = []" "own ((ascii m, v) # ps) n = (if m = n then v # own ps n else own ps n)"
  "own (opt_pair m w) n = (if m = n then opt_list w else [])" "own (ps @ qs) n = own ps n @ own qs n"
  by (auto simp: own_def opt_pair_def opt_list_def ascii_eq split: option.splits)

lemma opt_list_simps [simp]: "list_first (opt_list v) = v" "length (opt_list v) = (if v = None then 0 else 1)"
  "opt_list None = []" "opt_list (Some x) = [x]"
  by (auto simp: opt_list_def split: option.splits)

definition own_name :: "string \<Rightarrow> bool" where
  "own_name n \<longleftrightarrow> ascii n \<notin> set amz_names"

lemma own_name_take: "take 6 n \<noteq> ''X-Amz-'' \<Longrightarrow> own_name n"
  by (auto simp: own_name_def amz_names_def ascii_eq simp del: ascii_Cons)

lemma get_all_own:
  "signing_ok signing \<Longrightarrow> own_name n \<Longrightarrow> QueryParams_get_all (query_of (ps @ signing)) (ascii n) = own ps n"
  by (simp add: query_of_simps signing_absent own_def own_name_def signing_ok_def)

lemma has_flag_own:
  "signing_ok signing \<Longrightarrow> own_name n \<Longrightarrow> length (own ps n) \<le> 1 \<Longrightarrow>
   has_flag (query_of (ps @ signing)) (ascii n) = Ok (own ps n \<noteq> [])"
  by (cases "own ps n") (simp_all add: has_flag_def get_all_own)

lemma optional_one_own:
  assumes "signing_ok signing" "own_name n" "own ps n = opt_list v" "text_wf v"
  shows "optional_one (query_of (ps @ signing)) (ascii n) = Ok v"
  using assms by (cases v) (simp_all add: optional_one_def get_all_own opt_try_def ok_or_def from_utf8_def)

lemma dec_int_utf8: "utf8_valid (dec_int x)"
proof -
  have "b < 0x80" if "b \<in> set (dec_nat n)" for b n
    using that dec_nat_digits [of n] by (auto simp: list_all_iff ascii_class_defs word_le_nat_alt word_less_nat_alt)
  then show ?thesis by (auto intro!: utf8_valid_ascii simp: dec_int_def)
qed

lemma optional_i64_dec:
  assumes "optional_one q n = Ok (map_option dec_int v)" "version_wf v"
  shows "optional_i64 q n = Ok v"
  using assms parse_signed_dec_int [of 64] by (cases v) (auto simp: optional_i64_Inr version_wf_def)

lemma optional_i32_dec:
  assumes "optional_one q n = Ok (Some (dec_int x))" "0 \<le> x" "x < 2 ^ 31"
  shows "optional_i32 q n = Ok (Some x)"
  using assms parse_signed_dec_int [of 32 x] by (simp add: optional_i32_def opt_try_def ok_or_def)


lemma dec_int_opt_utf8: "text_wf (map_option dec_int v)"
  by (cases v) (simp_all add: dec_int_utf8)

lemma nonempty_id: "v \<noteq> Some [] \<Longrightarrow> nonempty v = v"
  by (auto simp: nonempty_def split: option.splits)

lemmas own_query = has_flag_own optional_one_own own_name_take

lemma parse_list_own:
  assumes "signing_ok signing" "list_wf p" "ps = list_query p \<or> ps = (ascii ''list-type'', ascii ''2'') # list_query p"
  shows "parse_list (query_of (ps @ signing)) = Ok p"
proof -
  let ?q = "query_of (ps @ signing)"
  have names: "validate_query_names ?q ([ascii ''list-type'', ascii ''prefix'', ascii ''delimiter'', ascii ''marker'',
        ascii ''start-after'', ascii ''continuation-token'', ascii ''max-keys'', ascii ''encoding-type'',
        ascii ''fetch-owner''] @ amz_names) = Ok ()"
    using assms by (intro validate_own) (auto simp: list_query_def ascii_utf8 simp del: ascii_Cons)
  have "own ps ''start-after'' = opt_list (lp_requested_start_after p)"
    "own ps ''continuation-token'' = opt_list (lp_requested_continuation_token p)"
    "own ps ''prefix'' = opt_list (Some (lp_prefix p))" "own ps ''delimiter'' = opt_list (lp_delimiter p)"
    "own ps ''marker'' = opt_list (lp_marker p)" "own ps ''max-keys'' = opt_list (Some (dec_int (lp_max_keys p)))"
    "own ps ''encoding-type'' = opt_list (if lp_encoding_type_url p then Some (ascii ''url'') else None)"
    using assms(3) by (auto simp: list_query_def simp del: ascii_Cons)
  note vals = this [THEN optional_one_own [OF assms(1), rotated]]
  have wf: "text_wf (lp_requested_start_after p)" "text_wf (lp_requested_continuation_token p)" "text_wf (lp_delimiter p)"
    "text_wf (lp_marker p)" "text_wf (Some (lp_prefix p))" "0 \<le> lp_max_keys p" "lp_max_keys p \<le> 1000"
    using assms(2) by (simp_all add: list_wf_def)
  have keys: "max_keys ?q = Ok (lp_max_keys p)"
    using optional_i32_dec [OF vals(6)] wf(6,7)
    by (simp add: max_keys_def dec_int_utf8 own_name_take del: ascii_Cons)
  have enc: "encoding_type ?q = Ok (lp_encoding_type_url p)"
    using vals(7) by (simp add: encoding_type_def own_name_take ascii_utf8 del: ascii_Cons)
  show ?thesis
    unfolding parse_list_def names
    using assms(2)
    by (auto simp: vals wf keys enc own_name_take list_wf_def nonempty_id Let_def simp del: ascii_Cons
        intro!: ListParams.equality)
qed

lemma parse_version_list_own:
  assumes "signing_ok signing" "version_list_wf p" "ps = (ascii ''versions'', []) # version_list_query p"
  shows "parse_version_list (query_of (ps @ signing)) = Ok p"
proof -
  let ?q = "query_of (ps @ signing)"
  have names: "validate_query_names ?q ([ascii ''versions'', ascii ''prefix'', ascii ''delimiter'', ascii ''key-marker'',
        ascii ''version-id-marker'', ascii ''max-keys'', ascii ''encoding-type''] @ amz_names) = Ok ()"
    using assms by (intro validate_own) (auto simp: version_list_query_def ascii_utf8 simp del: ascii_Cons)
  have "own ps ''key-marker'' = opt_list (vp_key_marker p)"
    "own ps ''version-id-marker'' = opt_list (map_option dec_int (vp_version_id_marker p))"
    "own ps ''prefix'' = opt_list (Some (vp_prefix p))" "own ps ''delimiter'' = opt_list (vp_delimiter p)"
    "own ps ''max-keys'' = opt_list (Some (dec_int (vp_max_keys p)))"
    "own ps ''encoding-type'' = opt_list (if vp_encoding_type_url p then Some (ascii ''url'') else None)"
    using assms(3) by (auto simp: version_list_query_def simp del: ascii_Cons)
  note vals = this [THEN optional_one_own [OF assms(1), rotated]]
  have wf: "text_wf (vp_key_marker p)" "version_wf (vp_version_id_marker p)" "text_wf (vp_delimiter p)"
    "text_wf (Some (vp_prefix p))" "0 \<le> vp_max_keys p" "vp_max_keys p \<le> 1000"
    using assms(2) by (simp_all add: version_list_wf_def)
  have mark: "optional_i64 ?q (ascii ''version-id-marker'') = Ok (vp_version_id_marker p)"
    using wf(2) by (intro optional_i64_dec vals) (simp_all add: own_name_take dec_int_opt_utf8 del: ascii_Cons)
  have keys: "max_keys ?q = Ok (vp_max_keys p)"
    using optional_i32_dec [OF vals(5)] wf(5,6)
    by (simp add: max_keys_def dec_int_utf8 own_name_take del: ascii_Cons)
  have enc: "encoding_type ?q = Ok (vp_encoding_type_url p)"
    using vals(6) by (simp add: encoding_type_def own_name_take ascii_utf8 del: ascii_Cons)
  show ?thesis
    unfolding parse_version_list_def names
    using assms(2)
    by (auto simp: vals wf mark keys enc own_name_take version_list_wf_def nonempty_id simp del: ascii_Cons
        intro!: VersionListParams.equality)
qed

lemma classify_at:
  assumes "asks_for r signing op"
  shows "op_path op = bucket_path b \<Longrightarrow> bucket_wf b \<Longrightarrow>
      classify r = classify_bucket (op_method op) b (query_of (op_query op @ signing))"
    "op_path op = object_path b k \<Longrightarrow> bucket_wf b \<Longrightarrow> key_wf k \<Longrightarrow>
      classify r = classify_object (op_method op) b k (query_of (op_query op @ signing)) (rh_headers r)"
  using assms
  by (simp_all add: classify_def asks_for_def parse_query_bytes parse_bucket_path parse_object_path map_err_def nonempty_def key_wf_def
      Let_def del: ascii_Cons)


lemma signing_Nil: "signing_ok []"
  by (simp add: signing_ok_def)

lemma source_query:
  assumes "version_wf v"
  shows "optional_i64 (query_of (opt_pair ''versionId'' (map_option dec_int v))) (ascii ''versionId'') = Ok v"
  using optional_one_own [OF signing_Nil, of "''versionId''" "opt_pair ''versionId'' (map_option dec_int v)"]
  by (intro optional_i64_dec assms) (simp add: own_name_take dec_int_opt_utf8 del: ascii_Cons)

lemma parse_copy_source_own:
  assumes "HeaderMap_get_all h (ascii ''x-amz-copy-source'') = [source_bytes s]" "source_wf s"
  shows "parse_copy_source h = Ok s"
proof -
  let ?path = "object_path (src_bucket s) (src_key s)"
  let ?ps = "opt_pair ''versionId'' (map_option dec_int (src_version_id s))"
  have wf: "bucket_wf (src_bucket s)" "key_wf (src_key s)" "version_wf (src_version_id s)"
    using assms(2) by (simp_all add: source_wf_def)
  have "0x3f \<notin> set ?path" by (simp add: object_path_def aws_path_plain)
  then have split: "(case split_once 0x3f (source_bytes s) of Some p \<Rightarrow> p | None \<Rightarrow> (source_bytes s, [])) = (?path, query_bytes ?ps)"
    by (cases "src_version_id s")
      (simp_all add: source_bytes_def opt_pair_def query_bytes_def split_once_None [THEN iffD2] split_once_Some [THEN iffD2])
  have ascii: "utf8_valid (source_bytes s)"
    by (intro utf8_valid_ascii)
      (auto simp: source_bytes_def object_path_def query_bytes_def simp del: aws_encode.simps ascii_Cons
        dest: aws_encode_ascii split: option.splits)
  have names: "list_ex (\<lambda>p. qp_name p \<noteq> ascii ''versionId'') (qp_pairs (query_of ?ps)) \<longleftrightarrow> False"
    by (auto simp: opt_pair_def query_of_def list_ex_iff split: option.splits)
  have slash: "(if starts_with [0x2f] ?path then ?path else 0x2f # ?path) = ?path"
    by (simp add: object_path_def)
  show ?thesis
    unfolding parse_copy_source_def assms(1) list.case
    using wf ascii
    by (simp add: split slash parse_object_path parse_query_bytes names source_query map_err_def ok_or_def from_utf8_def
        nonempty_def key_wf_def del: ascii_Cons)
qed


lemma optional_one_list:
  assumes "signing_ok signing" "own_name n" "length (own ps n) \<le> 1" "list_all utf8_valid (own ps n)"
  shows "optional_one (query_of (ps @ signing)) (ascii n) = Ok (list_first (own ps n))"
  using assms by (cases "own ps n") (simp_all add: optional_one_def get_all_own opt_try_def ok_or_def from_utf8_def)

lemma optional_number_list:
  assumes "signing_ok signing" "own_name n" "own ps n = opt_list (map_option dec_int v)"
  shows "version_wf v \<Longrightarrow> optional_i64 (query_of (ps @ signing)) (ascii n) = Ok v"
    "case v of None \<Rightarrow> True | Some x \<Rightarrow> 0 \<le> x \<and> x < 2 ^ 31 \<Longrightarrow> optional_i32 (query_of (ps @ signing)) (ascii n) = Ok v"
  using optional_one_own [OF assms dec_int_opt_utf8] parse_signed_dec_int [of 32 "the v"]
  by (auto intro: optional_i64_dec simp: optional_i32_def opt_try_def ok_or_def split: option.splits)

lemma query_of_Nil: "qp_pairs (query_of []) = []"
  by (simp add: query_of_def)

lemmas own_calls = has_flag_own optional_one_list own_name_take query_of_Nil ascii_eq

lemma classify_bucket_bare:
  "classify_bucket (ascii ''PUT'') b (query_of []) = Ok (CreateBucket b)"
  "classify_bucket (ascii ''DELETE'') b (query_of []) = Ok (DeleteBucket b)"
  "classify_bucket (ascii ''HEAD'') b (query_of []) = Ok (HeadBucket b)"
  unfolding classify_bucket_def by (simp_all add: query_of_Nil ascii_eq del: ascii_Cons)

lemma classify_bucket_get:
  "classify_bucket (ascii ''GET'') b q =
     rbind (has_flag q (ascii ''location'')) (\<lambda>location.
     if location then Ok (GetBucketLocation b) else
     rbind (has_flag q (ascii ''versioning'')) (\<lambda>versioning.
     if versioning then Ok (GetBucketVersioning b) else
     rbind (has_flag q (ascii ''versions'')) (\<lambda>versions.
     if versions then rbind (parse_version_list q) (\<lambda>params. Ok (ListObjectVersions b params)) else
     rbind (optional_one q (ascii ''list-type'')) (\<lambda>list_type.
     rbind (parse_list q) (\<lambda>params.
     if list_type = None \<or> list_type = Some (ascii ''1'') then Ok (ListObjectsV1 b params)
     else if list_type = Some (ascii ''2'') then Ok (ListObjectsV2 b params)
     else Err (invalid_request (ascii ''list-type must be 1 or 2'')))))))"
  "classify_bucket (ascii ''POST'') b q =
     rbind (has_flag q (ascii ''delete'')) (\<lambda>delete. if delete then Ok (DeleteObjects b) else Err unsupported)"
  unfolding classify_bucket_def by (simp_all only: ascii_eq list.inject char.inject simp_thms if_False if_True list.distinct)


lemma list_query_flags:
  "own (list_query p) ''location'' = []" "own (list_query p) ''versioning'' = []" "own (list_query p) ''versions'' = []"
  "own (list_query p) ''list-type'' = []"
  "own (version_list_query vp) ''location'' = []" "own (version_list_query vp) ''versioning'' = []"
  "own (version_list_query vp) ''versions'' = []"
  by (simp_all add: list_query_def version_list_query_def del: ascii_Cons)

lemma classify_bucket_flags:
  assumes "signing_ok signing"
  shows "classify_bucket (ascii ''GET'') b (query_of ([(ascii ''location'', [])] @ signing)) = Ok (GetBucketLocation b)"
    "classify_bucket (ascii ''GET'') b (query_of ([(ascii ''versioning'', [])] @ signing)) = Ok (GetBucketVersioning b)"
    "classify_bucket (ascii ''POST'') b (query_of ([(ascii ''delete'', [])] @ signing)) = Ok (DeleteObjects b)"
  unfolding classify_bucket_get
  using assms by (simp_all add: own_calls del: ascii_Cons append_Cons)

lemma classify_bucket_lists:
  assumes "signing_ok signing"
  shows "list_wf p \<Longrightarrow> classify_bucket (ascii ''GET'') b (query_of (list_query p @ signing)) = Ok (ListObjectsV1 b p)"
    "list_wf p \<Longrightarrow> classify_bucket (ascii ''GET'') b (query_of (((ascii ''list-type'', ascii ''2'') # list_query p) @ signing))
       = Ok (ListObjectsV2 b p)"
    "version_list_wf vp \<Longrightarrow>
     classify_bucket (ascii ''GET'') b (query_of (((ascii ''versions'', []) # version_list_query vp) @ signing))
       = Ok (ListObjectVersions b vp)"
  unfolding classify_bucket_get
  using assms
  by (simp_all add: own_calls list_query_flags parse_list_own parse_version_list_own ascii_utf8 del: ascii_Cons append_Cons)

definition object_query :: "(bytes \<times> bytes) list \<Rightarrow> bytes option \<Rightarrow> int option \<Rightarrow> int option \<Rightarrow> bool" where
  "object_query ps u v n \<longleftrightarrow> own ps ''uploadId'' = opt_list u \<and> own ps ''versionId'' = opt_list (map_option dec_int v)
     \<and> own ps ''partNumber'' = opt_list (map_option dec_int n) \<and> text_wf u \<and> version_wf v
     \<and> (case n of None \<Rightarrow> True | Some x \<Rightarrow> 0 \<le> x \<and> x < 2 ^ 31)"

lemma object_query_parsed:
  assumes "signing_ok signing" "object_query ps u v n"
  shows "optional_one (query_of (ps @ signing)) (ascii ''uploadId'') = Ok u"
    "optional_i64 (query_of (ps @ signing)) (ascii ''versionId'') = Ok v"
    "optional_i32 (query_of (ps @ signing)) (ascii ''partNumber'') = Ok n"
  using assms unfolding object_query_def
  by (auto intro!: optional_one_own optional_number_list own_name_take simp del: ascii_Cons)

lemma version_query_own:
  assumes "signing_ok signing"
  shows "only_version_query (query_of (opt_pair ''versionId'' v @ signing)) op = Ok True"
    "valid_put_query (query_of ([] @ signing)) = Ok True"
proof -
  have "validate_query_names (query_of (opt_pair ''versionId'' v @ signing)) ([ascii ''versionId''] @ amz_names @ [ascii ''x-id'']) = Ok ()"
    using assms by (intro validate_own) (auto simp: ascii_utf8 simp del: ascii_Cons)
  with assms show "only_version_query (query_of (opt_pair ''versionId'' v @ signing)) op = Ok True"
    by (simp add: only_version_query_def x_id_matches_def own_calls del: ascii_Cons)
  have "validate_query_names (query_of ([] @ signing)) (amz_names @ [ascii ''x-id'']) = Ok ()"
    using assms by (intro validate_own) auto
  with assms optional_one_list [of signing "''x-id''" "[]"]
  show "valid_put_query (query_of ([] @ signing)) = Ok True"
    by (simp add: valid_put_query_def x_id_matches_def own_calls del: ascii_Cons)
qed

lemma parse_list_parts_own:
  assumes "signing_ok signing" "0 \<le> part_number_marker p" "part_number_marker p \<le> 10000" "0 \<le> max_parts p" "max_parts p \<le> 1000"
  shows "parse_list_parts b k u (query_of ([(ascii ''uploadId'', u), (ascii ''part-number-marker'', dec_int (part_number_marker p)),
     (ascii ''max-parts'', dec_int (max_parts p))] @ signing)) = Ok (ListParts b k u p)"
    (is "parse_list_parts b k u (query_of (?ps @ signing)) = _")
proof -
  have "validate_query_names (query_of (?ps @ signing)) ([ascii ''uploadId'', ascii ''part-number-marker'', ascii ''max-parts'',
        ascii ''encoding-type''] @ amz_names) = Ok ()"
    using assms by (intro validate_own) (auto simp: ascii_utf8 simp del: ascii_Cons)
  moreover have "optional_i32 (query_of (?ps @ signing)) (ascii ''part-number-marker'') = Ok (Some (part_number_marker p))"
    "optional_i32 (query_of (?ps @ signing)) (ascii ''max-parts'') = Ok (Some (max_parts p))"
    using assms by (intro optional_number_list own_name_take; simp del: ascii_Cons)+
  moreover have "optional_one (query_of (?ps @ signing)) (ascii ''encoding-type'') = Ok None"
    using assms by (intro optional_one_own own_name_take; simp del: ascii_Cons)
  ultimately show ?thesis
    unfolding parse_list_parts_def
    using assms by (simp only: rbind_simps) (simp del: ascii_Cons)
qed


lemma classify_object_posts:
  assumes "signing_ok signing"
  shows "classify_object (ascii ''POST'') b k (query_of ([(ascii ''uploads'', [])] @ signing)) h = Ok (CreateMultipartUpload b k)"
    "utf8_valid u \<Longrightarrow> validate_multipart_upload_id u = Ok () \<Longrightarrow>
     classify_object (ascii ''POST'') b k (query_of ([(ascii ''uploadId'', u)] @ signing)) h = Ok (CompleteMultipartUploadOp b k u)"
    "version_wf (Some v) \<Longrightarrow>
     classify_object (ascii ''POST'') b k (query_of ([(ascii ''restore'', []), (ascii ''versionId'', dec_int v)] @ signing)) h
     = Ok (RestoreObject b k v)"
proof -
  have "object_query [(ascii ''uploads'', [])] None None None"
    by (simp add: object_query_def version_wf_def del: ascii_Cons)
  then show "classify_object (ascii ''POST'') b k (query_of ([(ascii ''uploads'', [])] @ signing)) h = Ok (CreateMultipartUpload b k)"
    using assms by (simp add: classify_object_def object_query_parsed own_calls del: ascii_Cons append_Cons)
next
  assume "utf8_valid u" and id: "validate_multipart_upload_id u = Ok ()"
  then have "object_query [(ascii ''uploadId'', u)] (Some u) None None"
    by (simp add: object_query_def version_wf_def del: ascii_Cons)
  then show "classify_object (ascii ''POST'') b k (query_of ([(ascii ''uploadId'', u)] @ signing)) h = Ok (CompleteMultipartUploadOp b k u)"
    using assms id by (simp add: classify_object_def object_query_parsed own_calls del: ascii_Cons append_Cons)
next
  assume "version_wf (Some v)"
  then have "object_query [(ascii ''restore'', []), (ascii ''versionId'', dec_int v)] None (Some v) None"
    by (simp add: object_query_def del: ascii_Cons)
  then show "classify_object (ascii ''POST'') b k (query_of ([(ascii ''restore'', []), (ascii ''versionId'', dec_int v)] @ signing)) h
     = Ok (RestoreObject b k v)"
    using assms by (simp add: classify_object_def object_query_parsed own_calls del: ascii_Cons append_Cons)
qed

lemma classify_object_uploads:
  assumes "signing_ok signing" "utf8_valid u"
  shows "1 \<le> n \<Longrightarrow> n \<le> 10000 \<Longrightarrow>
     classify_object (ascii ''PUT'') b k (query_of ([(ascii ''partNumber'', dec_int n), (ascii ''uploadId'', u)] @ signing)) h
     = Ok (UploadPart b k u n)"
    "validate_multipart_upload_id u = Ok () \<Longrightarrow>
     classify_object (ascii ''DELETE'') b k (query_of ([(ascii ''uploadId'', u)] @ signing)) h = Ok (AbortMultipartUpload b k u)"
    "object_query ps (Some u) None None \<Longrightarrow>
     classify_object (ascii ''GET'') b k (query_of (ps @ signing)) h = parse_list_parts b k u (query_of (ps @ signing))"
proof -
  assume n: "1 \<le> n" "n \<le> 10000"
  then have "object_query [(ascii ''partNumber'', dec_int n), (ascii ''uploadId'', u)] (Some u) None (Some n)"
    using assms by (simp add: object_query_def version_wf_def del: ascii_Cons)
  then show "classify_object (ascii ''PUT'') b k (query_of ([(ascii ''partNumber'', dec_int n), (ascii ''uploadId'', u)] @ signing)) h
     = Ok (UploadPart b k u n)"
    using assms n by (simp add: classify_object_def object_query_parsed own_calls del: ascii_Cons append_Cons)
next
  assume id: "validate_multipart_upload_id u = Ok ()"
  have "object_query [(ascii ''uploadId'', u)] (Some u) None None"
    using assms by (simp add: object_query_def version_wf_def del: ascii_Cons)
  then show "classify_object (ascii ''DELETE'') b k (query_of ([(ascii ''uploadId'', u)] @ signing)) h = Ok (AbortMultipartUpload b k u)"
    using assms id by (simp add: classify_object_def object_query_parsed own_calls del: ascii_Cons append_Cons)
next
  assume "object_query ps (Some u) None None"
  then show "classify_object (ascii ''GET'') b k (query_of (ps @ signing)) h = parse_list_parts b k u (query_of (ps @ signing))"
    using assms by (simp add: classify_object_def object_query_parsed own_calls del: ascii_Cons append_Cons)
qed

lemma classify_object_simple:
  assumes "signing_ok signing"
  shows "version_wf v \<Longrightarrow> (m, op) \<in> {(ascii ''GET'', GetObject b k v), (ascii ''HEAD'', HeadObject b k v), (ascii ''DELETE'', DeleteObject b k v)} \<Longrightarrow>
     classify_object m b k (query_of (opt_pair ''versionId'' (map_option dec_int v) @ signing)) h = Ok op"
    "HeaderMap_get_all h (ascii ''x-amz-copy-source'') = [] \<Longrightarrow>
     classify_object (ascii ''PUT'') b k (query_of ([] @ signing)) h = Ok (PutObject b k)"
    "HeaderMap_get_all h (ascii ''x-amz-copy-source'') = [source_bytes s] \<Longrightarrow> source_wf s \<Longrightarrow>
     classify_object (ascii ''PUT'') b k (query_of ([] @ signing)) h = Ok (CopyObject b k s)"
proof -
  assume v: "version_wf v" and op: "(m, op) \<in> {(ascii ''GET'', GetObject b k v), (ascii ''HEAD'', HeadObject b k v), (ascii ''DELETE'', DeleteObject b k v)}"
  have "object_query (opt_pair ''versionId'' (map_option dec_int v)) None v None"
    using v by (simp add: object_query_def del: ascii_Cons)
  note parsed = object_query_parsed [OF assms this] version_query_own [OF assms]
  show "classify_object m b k (query_of (opt_pair ''versionId'' (map_option dec_int v) @ signing)) h = Ok op"
    using op by (auto simp: classify_object_def parsed ascii_eq simp del: ascii_Cons)
next
  have "object_query [] None None None" by (simp add: object_query_def version_wf_def)
  note parsed = object_query_parsed [OF assms this] version_query_own [OF assms]
  { assume "HeaderMap_get_all h (ascii ''x-amz-copy-source'') = []"
    then show "classify_object (ascii ''PUT'') b k (query_of ([] @ signing)) h = Ok (PutObject b k)"
      unfolding classify_object_def parsed by (simp add: parsed ascii_eq headers.get_None del: ascii_Cons append_Nil)
  next
    assume "HeaderMap_get_all h (ascii ''x-amz-copy-source'') = [source_bytes s]" "source_wf s"
    then show "classify_object (ascii ''PUT'') b k (query_of ([] @ signing)) h = Ok (CopyObject b k s)"
      unfolding classify_object_def parsed
      by (simp add: parse_copy_source_own ascii_eq headers.get_first del: ascii_Cons append_Nil)
  }
qed


lemma classify_asked:
  assumes asked: "asks_for r signing op" and wf: "op_wf op" and bare: "bare_query op \<Longrightarrow> signing = []"
  shows "classify r = Ok op"
proof -
  have ok: "signing_ok signing"
    and source: "HeaderMap_get_all (rh_headers r) (ascii ''x-amz-copy-source'') = op_source op"
    using asked by (simp_all add: asks_for_def)
  note at = classify_at [OF asked]
  note defs = op_path_def op_method_def op_query_def op_wf_def op_source_def bare_query_def
  have "rt_query (rh_target r) = query_of (op_query op @ signing)"
    using asked by (simp add: asks_for_def parse_query_bytes)
  then have root: "classify r = Ok op" if "op = ListBuckets"
    using asked that bare
    by (simp add: asks_for_def defs classify_def parse_query_bytes map_err_def nonempty_def query_of_Nil ascii_eq
        Let_def del: ascii_Cons)
  show ?thesis
  proof (cases op)
    case (ListParts b k u p)
    then have q: "object_query (op_query op) (Some u) None None"
      using wf by (simp add: object_query_def defs version_wf_def del: ascii_Cons)
    have "classify r = parse_list_parts b k u (query_of (op_query op @ signing))"
      using classify_object_uploads(3) [OF ok _ q] wf ListParts at(2) [of b k]
      by (simp add: defs del: ascii_Cons append_Cons)
    then show ?thesis
      using wf ListParts parse_list_parts_own [OF ok] by (simp add: defs del: ascii_Cons append_Cons)
  qed (use wf root ok bare source at in \<open>simp_all add: defs classify_bucket_bare classify_bucket_flags classify_bucket_lists
      classify_object_posts classify_object_uploads classify_object_simple del: ascii_Cons append_Cons append_Nil\<close>)
qed

text \<open>A presigned request for one of the four operations with an empty query is refused.\<close>

lemma classify_bucket_signed:
  assumes "ps \<noteq> []" "m \<in> {ascii ''PUT'', ascii ''DELETE'', ascii ''HEAD''}"
  shows "classify_bucket m b (query_of ps) = Err unsupported"
  using assms by (auto simp: classify_bucket_def query_of_def ascii_eq simp del: ascii_Cons)

lemma classify_refused:
  assumes asked: "asks_for r signing op" and wf: "op_wf op" and bare: "bare_query op" "signing \<noteq> []"
  shows "classify r = Err unsupported"
proof -
  note at = classify_at(1) [OF asked]
  have "rt_query (rh_target r) = query_of (op_query op @ signing)"
    using asked by (simp add: asks_for_def parse_query_bytes)
  moreover have "qp_pairs (query_of signing) \<noteq> []" using bare(2) by (simp add: query_of_def)
  ultimately have "classify r = Err unsupported" if "op = ListBuckets"
    using asked that
    by (simp add: asks_for_def op_path_def op_query_def classify_def map_err_def nonempty_def Let_def del: ascii_Cons)
  with bare wf at classify_bucket_signed [OF bare(2)] show ?thesis
    by (cases op) (simp_all add: bare_query_def op_path_def op_method_def op_query_def op_wf_def del: ascii_Cons)
qed

section \<open>Properties\<close>

text \<open>C14. Classification is exact on the requests clients write.  Take any well-formed operation and a request that
  spells it with its method, the percent-encoded path, its query parameters and, for a copy, the source
  field, followed by any signing parameters.  The request is classified as that operation with every
  parameter as it was given, except that presigned requests to list the buckets and to create, delete or
  head a bucket are answered with 501 \<^verbatim>\<open>NotImplemented\<close>, since the code asks for an empty query there.\<close>

theorem classify_roundtrip:
  assumes "asks_for r signing op" and "op_wf op"
  shows "classify r = (if bare_query op \<and> signing \<noteq> [] then Err unsupported else Ok op)"
  using classify_asked [OF assms] classify_refused [OF assms] by auto

text \<open>C30. Every operation that classification returns is well formed, whatever the request: bucket names are
  non-empty UTF-8 without slashes and control characters, keys are non-empty UTF-8 without NUL, part
  numbers, page sizes, markers and version ids are in their ranges, upload ids of completions and
  aborts have the shape of a UUID, and the continuation and start markers of a listing agree.\<close>

theorem classify_well_formed:
  assumes "classify r = Ok op"
  shows "op_wf op"
proof -
  obtain t where t: "parse_path_style (raw_path (rh_target r)) = Ok t"
    using assms by (auto simp: classify_def simp del: ascii_Cons)
  show ?thesis
  proof (cases "ps_bucket t")
    case None
    with assms t have "op = ListBuckets" by (auto simp: classify_def Let_def simp del: ascii_Cons split: if_splits)
    then show ?thesis by (simp add: op_wf_def)
  next
    case (Some b)
    with t have b: "bucket_wf b" using parse_path_style_wf by blast
    show ?thesis
    proof (cases "nonempty (ps_key t)")
      case None
      with Some assms t b show ?thesis
        by (auto simp: classify_def Let_def simp del: ascii_Cons intro: classify_bucket_wf)
    next
      case (Some k)
      with t have "key_wf k" using parse_path_style_wf by blast
      with Some \<open>ps_bucket t = Some b\<close> assms t b show ?thesis
        by (auto simp: classify_def Let_def simp del: ascii_Cons intro: classify_object_wf)
    qed
  qed
qed

definition demo_copy :: Operation where
  "demo_copy = CopyObject (ascii ''photos'') (ascii ''2024/a b.png'')
     \<lparr>src_bucket = ascii ''old'', src_key = ascii ''x?y'', src_version_id = Some 7\<rparr>"

definition demo_copy_request :: RequestHead where
  "demo_copy_request = \<lparr>rh_method = ascii ''PUT'',
     rh_target = \<lparr>raw_path = ascii ''/photos/2024/a%20b.png'', raw_query = Some (ascii ''X-Amz-Expires=60''),
       rt_query = \<lparr>qp_pairs = [\<lparr>raw_name = ascii ''X-Amz-Expires'', raw_value = ascii ''60'',
         qp_name = ascii ''X-Amz-Expires'', qp_value = ascii ''60''\<rparr>]\<rparr>\<rparr>,
     rh_headers = \<lparr>hm_fields = [\<lparr>hdr_name = ascii ''X-Amz-Copy-Source'', hdr_value = ascii ''/old/x%3Fy?versionId=7''\<rparr>]\<rparr>,
     rh_content_length = Some 0, transfer_chunked = False\<rparr>"

lemma demo_copy_wf: "op_wf demo_copy" by code_simp

lemma demo_copy_asked: "asks_for demo_copy_request [(ascii ''X-Amz-Expires'', ascii ''60'')] demo_copy"
  by code_simp

lemma demo_copy_not_bare: "\<not> bare_query demo_copy"
  by (simp add: demo_copy_def bare_query_def)

theorem classify_roundtrip_witness:
  "asks_for demo_copy_request [(ascii ''X-Amz-Expires'', ascii ''60'')] demo_copy \<and> op_wf demo_copy
   \<and> classify demo_copy_request = Ok demo_copy"
  using classify_roundtrip [OF demo_copy_asked demo_copy_wf] demo_copy_asked demo_copy_wf demo_copy_not_bare by simp

lemma demo_copy_classified: "classify demo_copy_request = Ok demo_copy"
  by (rule classify_asked [OF demo_copy_asked demo_copy_wf]) (simp add: demo_copy_not_bare)

theorem classify_well_formed_witness: "classify demo_copy_request = Ok demo_copy \<and> op_wf demo_copy"
  using classify_well_formed [OF demo_copy_classified] demo_copy_classified by blast

end
