(* ===== verification/Hash.thy ===== *)
theory Hash
  imports Encoding
begin

text \<open>
  \<^verbatim>\<open>hash.rs\<close>: reading and hashing the blob graph.  A blob is stored inline, as rows of \<^verbatim>\<open>pgs3.chunk\<close>, or as
  extents of other blobs.  The store holds the rows of the tables of \<^verbatim>\<open>sql/bootstrap.sql\<close> that the
  helpers select from; columns declared NOT NULL have no null value, so that the branches reporting one
  cannot be taken.  \<^verbatim>\<open>bigint\<close> and \<^verbatim>\<open>integer\<close> are integers with the range checks written out, \<^verbatim>\<open>pgrx::error!\<close>
  ends the call with an error value, and a failing SPI call is named by what it was doing: calls with one name fail or succeed together, which
  makes no difference to a call that returns.  The subtraction of a source offset in the layout query is
  not range-checked; with the non-negative columns of the schema it cannot leave the range.  The callback
  \<open>emit\<close> threads its state, and may itself end the call.
\<close>

section \<open>Tables\<close>

record BlobRow =
  row_size :: int
  row_chunk_size :: int
  row_storage_kind :: string
  row_inline :: "bytes option"

record ChunkRow =
  ck_seq :: int
  ck_data :: bytes

record ExtentRow =
  ex_seq :: int
  ex_logical_offset :: int
  ex_source_blob_id :: bytes
  ex_source_offset :: int
  ex_length :: int

record UploadRow =
  up_multipart :: bool
  up_state :: string

record UploadChunkRow =
  uc_part_number :: int
  uc_seq :: int
  uc_blob_id :: bytes
  uc_size :: int

record Store =
  st_blob :: "bytes \<Rightarrow> BlobRow option"
  st_chunk :: "bytes \<Rightarrow> ChunkRow list"
  st_extent :: "bytes \<Rightarrow> ExtentRow list"
  st_upload :: "bytes \<Rightarrow> UploadRow option"
  st_upload_chunk :: "bytes \<Rightarrow> UploadChunkRow list"
  spi_failure :: "string \<Rightarrow> string option"
  spi_no_row :: string

text \<open>The \<^verbatim>\<open>sha2\<close> and \<^verbatim>\<open>md5\<close> crates, and what the helpers rely on: input may be fed in pieces.\<close>

record ('s, 'm) Hashers =
  sha_new :: 's
  sha_update :: "'s \<Rightarrow> bytes \<Rightarrow> 's"
  sha_finalize :: "'s \<Rightarrow> bytes"
  md5_new :: 'm
  md5_update :: "'m \<Rightarrow> bytes \<Rightarrow> 'm"
  md5_finalize :: "'m \<Rightarrow> bytes"

definition hashers_incremental :: "('s, 'm) Hashers \<Rightarrow> bool" where
  "hashers_incremental H \<longleftrightarrow>
     (\<forall>s a b. sha_update H (sha_update H s a) b = sha_update H s (a @ b)) \<and> (\<forall>s. sha_update H s [] = s)
     \<and> (\<forall>s a b. md5_update H (md5_update H s a) b = md5_update H s (a @ b)) \<and> (\<forall>s. md5_update H s [] = s)"

definition sha256_of :: "('s, 'm) Hashers \<Rightarrow> bytes \<Rightarrow> bytes" where
  "sha256_of H data = sha_finalize H (sha_update H (sha_new H) data)"

definition md5_of :: "('s, 'm) Hashers \<Rightarrow> bytes \<Rightarrow> bytes" where
  "md5_of H data = md5_finalize H (md5_update H (md5_new H) data)"

section \<open>Types and helpers\<close>

datatype HashError = Corrupt string | InvalidInput string | SpiFailure string string

datatype StorageKind = Inline | ChunkedKind | Composite

record BlobMeta =
  bm_id :: bytes
  bm_size :: int
  bm_chunk_size :: int
  bm_kind :: StorageKind

record Extent =
  xt_logical_offset :: int
  xt_source_id :: bytes
  xt_source_offset :: int
  xt_length :: int

record LayoutStats =
  ls_count :: int
  ls_min_seq :: "int option"
  ls_max_seq :: "int option"
  ls_total_size :: int
  ls_rows_valid :: bool

definition READ_BLOCK_BYTES :: int where
  "READ_BLOCK_BYTES = 1024 * 1024"

definition MAX_BLOB_DEPTH :: nat where
  "MAX_BLOB_DEPTH = 64"

record ('s, 'm) Digests =
  dg_sha256 :: 's
  dg_md5 :: 'm
  dg_total_size :: int

definition Digests_new :: "('s, 'm) Hashers \<Rightarrow> ('s, 'm) Digests" where
  "Digests_new H = \<lparr>dg_sha256 = sha_new H, dg_md5 = md5_new H, dg_total_size = 0\<rparr>"

definition Digests_update :: "('s, 'm) Hashers \<Rightarrow> bytes \<Rightarrow> ('s, 'm) Digests \<Rightarrow> HashError + ('s, 'm) Digests" where
  "Digests_update H data d =
     rbind (ok_or (i64_checked (int (length data))) (Corrupt ''one hash input block exceeds bigint'')) (\<lambda>amount.
     rbind (ok_or (i64_checked (dg_total_size d + amount)) (Corrupt ''canonical blob size overflows bigint'')) (\<lambda>total_size.
     Ok \<lparr>dg_sha256 = sha_update H (dg_sha256 d) data, dg_md5 = md5_update H (dg_md5 d) data, dg_total_size = total_size\<rparr>))"

definition lower_hex :: "bytes \<Rightarrow> bytes" where
  "lower_hex data = concat (map (\<lambda>b. [hex_lower_digit (drop_bit 4 b), hex_lower_digit (b AND 0x0f)]) data)"

definition Digests_finish :: "('s, 'm) Hashers \<Rightarrow> ('s, 'm) Digests \<Rightarrow> bytes \<times> bytes \<times> int" where
  "Digests_finish H d = (sha_finalize H (dg_sha256 d), lower_hex (md5_finalize H (dg_md5 d)), dg_total_size d)"

definition spi_or_error :: "Store \<Rightarrow> string \<Rightarrow> 'a \<Rightarrow> HashError + 'a" where
  "spi_or_error st action value = (case spi_failure st action of Some e \<Rightarrow> Err (SpiFailure action e) | None \<Rightarrow> Ok value)"

definition parse_blob_id :: "bytes \<Rightarrow> HashError + bytes" where
  "parse_blob_id raw = (if length raw = 32 then Ok raw else Err (InvalidInput ''blob IDs must contain exactly 32 bytes''))"

definition dense_layout_error :: "LayoutStats \<Rightarrow> int \<Rightarrow> int \<Rightarrow> string option" where
  "dense_layout_error stats expected_count expected_size =
     (if expected_count < 0 \<or> expected_size < 0 \<or> ls_count stats < 0 \<or> ls_total_size stats < 0
      then Some ''negative layout cardinality or size''
      else if ls_count stats \<noteq> expected_count then Some ''layout row count does not match its recorded size''
      else if expected_count = 0 \<and> (ls_min_seq stats \<noteq> None \<or> ls_max_seq stats \<noteq> None)
      then Some ''empty layout has a sequence number''
      else if expected_count \<noteq> 0 \<and> (ls_min_seq stats \<noteq> Some 0 \<or> ls_max_seq stats \<noteq> Some (expected_count - 1))
      then Some ''layout sequence numbers are not contiguous from zero''
      else if ls_total_size stats \<noteq> expected_size then Some ''layout byte count does not match the blob size''
      else if \<not> ls_rows_valid stats then Some ''layout offsets or element sizes are invalid''
      else None)"

definition range_end :: "int \<Rightarrow> int \<Rightarrow> int \<Rightarrow> string + int" where
  "range_end start len sz =
     (if start < 0 \<or> len < 0 \<or> sz < 0 then Err ''negative blob range or size''
      else rbind (ok_or (i64_checked (start + len)) ''blob range overflows bigint'') (\<lambda>stop.
        if stop > sz then Err ''blob range exceeds its source blob'' else Ok stop))"

definition checked_end :: "int \<Rightarrow> int \<Rightarrow> int \<Rightarrow> HashError + int" where
  "checked_end start len sz = map_err Corrupt (range_end start len sz)"

section \<open>Metadata\<close>

definition load_blob :: "Store \<Rightarrow> bytes \<Rightarrow> HashError + BlobMeta" where
  "load_blob st bid =
     rbind (spi_or_error st ''reading blob metadata'' (st_blob st bid)) (\<lambda>row.
     rbind (ok_or row (Corrupt ''a referenced blob row is missing'')) (\<lambda>row.
     let sz = row_size row; chunk_size = row_chunk_size row; inline_size = map_option (int \<circ> length) (row_inline row) in
     if sz < 0 \<or> chunk_size \<le> 0 then Err (Corrupt ''a blob has a negative size or non-positive chunk size'')
     else
     rbind (if row_storage_kind row = ''inline'' then
              if inline_size \<noteq> Some sz then Err (Corrupt ''inline bytes do not match the recorded blob size'')
              else if sz > 2 ^ 31 - 1 - 1 then Err (Corrupt ''an inline blob is too large for PostgreSQL substring'')
              else Ok Inline
            else if row_storage_kind row = ''chunked'' then
              if inline_size \<noteq> None then Err (Corrupt ''a chunked blob also contains inline bytes'') else Ok ChunkedKind
            else if row_storage_kind row = ''composite'' then
              if inline_size \<noteq> None then Err (Corrupt ''a composite blob also contains inline bytes'') else Ok Composite
            else Err (Corrupt ''a blob has an unknown storage kind'')) (\<lambda>kind.
     Ok \<lparr>bm_id = bid, bm_size = sz, bm_chunk_size = chunk_size, bm_kind = kind\<rparr>)))"

text \<open>The aggregates of a layout query: \<^verbatim>\<open>count\<close>, \<^verbatim>\<open>min\<close>, \<^verbatim>\<open>max\<close>, \<^verbatim>\<open>coalesce(sum, 0)::bigint\<close> and \<^verbatim>\<open>bool_and\<close>.
  The cast of the sum fails out of range.\<close>

definition load_layout_stats :: "Store \<Rightarrow> string \<Rightarrow> int list \<Rightarrow> int list \<Rightarrow> bool list \<Rightarrow> HashError + LayoutStats" where
  "load_layout_stats st action seqs sizes valid =
     rbind (spi_or_error st action ()) (\<lambda>_.
     rbind (ok_or (i64_checked (sum_list sizes)) (SpiFailure action ''bigint out of range'')) (\<lambda>total_size.
     Ok \<lparr>ls_count = int (length seqs),
         ls_min_seq = (if seqs = [] then None else Some (Min (set seqs))),
         ls_max_seq = (if seqs = [] then None else Some (Max (set seqs))),
         ls_total_size = total_size, ls_rows_valid = list_all (\<lambda>v. v) valid\<rparr>))"

definition validate_chunk_layout :: "Store \<Rightarrow> BlobMeta \<Rightarrow> HashError + int" where
  "validate_chunk_layout st meta =
     (let chunk_size = bm_chunk_size meta;
          expected_count = (if bm_size meta = 0 then 0 else trunc_div (bm_size meta - 1) chunk_size + 1);
          rows = st_chunk st (bm_id meta) in
      rbind (load_layout_stats st ''validating a chunk layout'' (map ck_seq rows) (map (\<lambda>c. int (length (ck_data c))) rows)
        (map (\<lambda>c. ck_seq c * chunk_size < bm_size meta
           \<and> int (length (ck_data c)) = min chunk_size (bm_size meta - ck_seq c * chunk_size)) rows)) (\<lambda>stats.
      case dense_layout_error stats expected_count (bm_size meta) of
        Some e \<Rightarrow> Err (Corrupt e)
      | None \<Rightarrow> Ok expected_count))"

text \<open>The window sum over the preceding rows in the order of \<^verbatim>\<open>seq\<close>.\<close>

definition extent_rows_valid :: "Store \<Rightarrow> ExtentRow list \<Rightarrow> bool list" where
  "extent_rows_valid st rows =
     (let sorted = sort_key ex_seq rows in
      map (\<lambda>(i, x).
        ex_logical_offset x = sum_list (map ex_length (take i sorted))
        \<and> (case st_blob st (ex_source_blob_id x) of
             None \<Rightarrow> False
           | Some source \<Rightarrow> ex_source_offset x \<le> row_size source \<and> ex_length x \<le> row_size source - ex_source_offset x))
        (zip [0..<length sorted] sorted))"

definition validate_extent_layout :: "Store \<Rightarrow> BlobMeta \<Rightarrow> HashError + int" where
  "validate_extent_layout st meta =
     (let rows = st_extent st (bm_id meta) in
      rbind (load_layout_stats st ''validating an extent layout'' (map ex_seq rows) (map ex_length rows)
        (extent_rows_valid st rows)) (\<lambda>stats.
      case dense_layout_error stats (ls_count stats) (bm_size meta) of
        Some e \<Rightarrow> Err (Corrupt e)
      | None \<Rightarrow> Ok (ls_count stats)))"

section \<open>Bounded reads\<close>

definition i32_try_from :: "int \<Rightarrow> string \<Rightarrow> HashError + int" where
  "i32_try_from x message = (if i32_range x then Ok x else Err (Corrupt message))"

text \<open>PostgreSQL's \<^verbatim>\<open>substring(bytea, start, count)\<close>, positions counted from 1.\<close>

definition pg_substring :: "bytes \<Rightarrow> int \<Rightarrow> int \<Rightarrow> bytes" where
  "pg_substring data start len =
     (let from = max start 1 in take (nat (start + len - from)) (drop (nat (from - 1)) data))"

definition fetch_inline_slice :: "Store \<Rightarrow> bytes \<Rightarrow> int \<Rightarrow> int \<Rightarrow> HashError + bytes" where
  "fetch_inline_slice st bid offset len =
     rbind (i32_try_from (offset + 1) ''inline read offset exceeds integer'') (\<lambda>position.
     rbind (i32_try_from len ''inline read length exceeds integer'') (\<lambda>len.
     rbind (spi_or_error st ''reading bounded inline bytes'' (st_blob st bid)) (\<lambda>row.
     rbind (ok_or row (SpiFailure ''reading bounded inline bytes'' (spi_no_row st))) (\<lambda>row.
     ok_or (map_option (\<lambda>data. pg_substring data position len) (row_inline row))
       (Corrupt ''inline bytes disappeared while hashing'')))))"

definition fetch_chunk_slice :: "Store \<Rightarrow> bytes \<Rightarrow> int \<Rightarrow> int \<Rightarrow> int \<Rightarrow> HashError + bytes" where
  "fetch_chunk_slice st bid seq offset len =
     rbind (i32_try_from (offset + 1) ''chunk read offset exceeds integer'') (\<lambda>position.
     rbind (i32_try_from len ''chunk read length exceeds integer'') (\<lambda>len.
     rbind (spi_or_error st ''reading bounded chunk bytes'' (find (\<lambda>c. ck_seq c = seq) (st_chunk st bid))) (\<lambda>row.
     rbind (ok_or row (SpiFailure ''reading bounded chunk bytes'' (spi_no_row st))) (\<lambda>row.
     Ok (pg_substring (ck_data row) position len)))))"

definition load_extent :: "Store \<Rightarrow> bytes \<Rightarrow> int \<Rightarrow> HashError + Extent" where
  "load_extent st bid seq =
     rbind (spi_or_error st ''reading an extent'' (find (\<lambda>e. ex_seq e = seq) (st_extent st bid))) (\<lambda>row.
     rbind (ok_or row (Corrupt ''an extent disappeared while hashing'')) (\<lambda>row.
     rbind (parse_blob_id (ex_source_blob_id row)) (\<lambda>source_id.
     Ok \<lparr>xt_logical_offset = ex_logical_offset row, xt_source_id = source_id,
         xt_source_offset = ex_source_offset row, xt_length = ex_length row\<rparr>)))"

function emit_bounded_cell ::
    "Store \<Rightarrow> (bytes \<Rightarrow> 's \<Rightarrow> HashError + 's) \<Rightarrow> bytes \<Rightarrow> int option \<Rightarrow> int \<Rightarrow> int \<Rightarrow> 's \<Rightarrow> HashError + 's" where
  "emit_bounded_cell st emit bid seq offset len s =
     (if len > 0 then
        let amount = min len READ_BLOCK_BYTES in
        rbind (case seq of Some seq \<Rightarrow> fetch_chunk_slice st bid seq offset amount
               | None \<Rightarrow> fetch_inline_slice st bid offset amount) (\<lambda>data.
        if int (length data) \<noteq> amount
        then Err (Corrupt ''a bounded payload read returned fewer bytes than requested'')
        else
        rbind (emit data s) (\<lambda>s.
        rbind (ok_or (i64_checked (offset + amount)) (Corrupt ''payload read offset overflows bigint'')) (\<lambda>offset.
        emit_bounded_cell st emit bid seq offset (len - amount) s)))
      else Ok s)"
  by pat_completeness auto
termination
  by (relation "measure (\<lambda>(st, emit, bid, seq, offset, len, s). nat len)") (auto simp: READ_BLOCK_BYTES_def)

declare emit_bounded_cell.simps [simp del]

text \<open>A \<^verbatim>\<open>for\<close> loop whose body may end the call.\<close>

fun for_each :: "('a \<Rightarrow> 's \<Rightarrow> 'e + 's) \<Rightarrow> 'a list \<Rightarrow> 's \<Rightarrow> 'e + 's" where
  "for_each body [] s = Ok s"
| "for_each body (x # xs) s = rbind (body x s) (for_each body xs)"

lemma for_each_cong [fundef_cong]:
  assumes "xs = ys" "s = t" "\<And>x u. x \<in> set ys \<Longrightarrow> f x u = g x u"
  shows "for_each f xs s = for_each g ys t"
  using assms(3) unfolding assms(1,2)
proof (induction ys arbitrary: t)
  case (Cons y ys)
  have "f y t = g y t" by (simp add: Cons.prems)
  moreover have "for_each f ys u = for_each g ys u" for u
    using Cons.prems by (intro Cons.IH) simp
  ultimately show ?case by (cases "g y t") simp_all
qed simp

definition chunk_step :: "Store \<Rightarrow> (bytes \<Rightarrow> 's \<Rightarrow> HashError + 's) \<Rightarrow> BlobMeta \<Rightarrow> int \<Rightarrow> int \<Rightarrow> int \<Rightarrow> 's \<Rightarrow> HashError + 's" where
  "chunk_step st emit meta start stop seq64 s =
     (let chunk_size = bm_chunk_size meta in
      rbind (i32_try_from seq64 ''chunk sequence exceeds integer'') (\<lambda>seq.
      rbind (ok_or (i64_checked (seq64 * chunk_size)) (Corrupt ''chunk offset overflows bigint'')) (\<lambda>chunk_start.
      let from = max start chunk_start in
      rbind (ok_or (i64_checked (chunk_start + chunk_size)) (Corrupt ''chunk end overflows bigint'')) (\<lambda>chunk_end.
      let to = min stop chunk_end in
      emit_bounded_cell st emit (bm_id meta) (Some seq) (from - chunk_start) (to - from) s))))"

function stream_blob_range ::
    "Store \<Rightarrow> (bytes \<Rightarrow> 's \<Rightarrow> HashError + 's) \<Rightarrow> bytes \<Rightarrow> int \<Rightarrow> int \<Rightarrow> bytes list \<Rightarrow> 's \<Rightarrow> HashError + 's" where
  "stream_blob_range st emit bid start len path s =
     (if length path \<ge> MAX_BLOB_DEPTH then Err (Corrupt ''blob extent nesting exceeds 64 levels'')
      else if bid \<in> set path then Err (Corrupt ''blob extent graph contains a cycle'')
      else
      rbind (load_blob st bid) (\<lambda>meta.
      rbind (checked_end start len (bm_size meta)) (\<lambda>stop.
      case bm_kind meta of
        Inline \<Rightarrow> emit_bounded_cell st emit bid None start len s
      | ChunkedKind \<Rightarrow>
          rbind (validate_chunk_layout st meta) (\<lambda>_.
          if len > 0 then
            for_each (chunk_step st emit meta start stop)
              [trunc_div start (bm_chunk_size meta)..trunc_div (stop - 1) (bm_chunk_size meta)] s
          else Ok s)
      | Composite \<Rightarrow>
          rbind (validate_extent_layout st meta) (\<lambda>count.
          for_each (\<lambda>seq64 s.
            rbind (i32_try_from seq64 ''extent sequence exceeds integer'') (\<lambda>seq.
            rbind (load_extent st bid seq) (\<lambda>extent.
            rbind (checked_end (xt_logical_offset extent) (xt_length extent) (bm_size meta)) (\<lambda>extent_end.
            if xt_length extent = 0 \<or> xt_logical_offset extent \<ge> stop \<or> extent_end \<le> start then Ok s
            else
              let from = max start (xt_logical_offset extent); to = min stop extent_end in
              rbind (ok_or (i64_checked (xt_source_offset extent + (from - xt_logical_offset extent)))
                (Corrupt ''source extent offset overflows bigint'')) (\<lambda>source_start.
              stream_blob_range st emit (xt_source_id extent) source_start (to - from) (path @ [bid]) s)))))
            [0..count - 1] s))))"
  by pat_completeness auto
termination
  by (relation "measure (\<lambda>(st, emit, bid, start, len, path, s). MAX_BLOB_DEPTH - length path)") auto

declare stream_blob_range.simps [simp del]

section \<open>Verified reads and digests\<close>

definition verify_emit ::
    "('s, 'm) Hashers \<Rightarrow> (bytes \<Rightarrow> 'u \<Rightarrow> HashError + 'u) \<Rightarrow> bytes \<Rightarrow> 's \<times> int \<times> 'u \<Rightarrow> HashError + 's \<times> int \<times> 'u" where
  "verify_emit H emit data = (\<lambda>(verifier, emitted, u).
     let verifier = sha_update H verifier data in
     rbind (ok_or (i64_checked (int (length data))) (Corrupt ''one verified blob block exceeds bigint'')) (\<lambda>amount.
     rbind (ok_or (i64_checked (emitted + amount)) (Corrupt ''verified blob size overflows bigint'')) (\<lambda>emitted.
     rbind (emit data u) (\<lambda>u. Ok (verifier, emitted, u)))))"

definition stream_verified_blob ::
    "Store \<Rightarrow> ('s, 'm) Hashers \<Rightarrow> (bytes \<Rightarrow> 'u \<Rightarrow> HashError + 'u) \<Rightarrow> bytes \<Rightarrow> 'u \<Rightarrow> HashError + int \<times> 'u" where
  "stream_verified_blob st H emit bid u =
     rbind (load_blob st bid) (\<lambda>meta.
     rbind (stream_blob_range st (verify_emit H emit) bid 0 (bm_size meta) [] (sha_new H, 0, u)) (\<lambda>(verifier, emitted, u).
     if emitted \<noteq> bm_size meta then Err (Corrupt ''a blob traversal did not read its complete logical size'')
     else if sha_finalize H verifier \<noteq> bid
     then Err (Corrupt ''canonical payload SHA-256 does not match its blob ID'')
     else Ok (emitted, u)))"

definition load_upload :: "Store \<Rightarrow> bytes \<Rightarrow> HashError + bool \<times> string" where
  "load_upload st upload_id =
     rbind (spi_or_error st ''reading an upload'' (st_upload st upload_id)) (\<lambda>row.
     rbind (ok_or row (InvalidInput ''the upload ID does not exist'')) (\<lambda>row.
     if up_state row \<noteq> ''pending'' \<and> up_state row \<noteq> ''completing'' then Err (Corrupt ''an upload has an unknown state'')
     else Ok (up_multipart row, up_state row)))"

definition part_chunks :: "Store \<Rightarrow> bytes \<Rightarrow> int \<Rightarrow> UploadChunkRow list" where
  "part_chunks st upload_id part_number = filter (\<lambda>c. uc_part_number c = part_number) (st_upload_chunk st upload_id)"

definition upload_layout :: "Store \<Rightarrow> bytes \<Rightarrow> int \<Rightarrow> HashError + LayoutStats" where
  "upload_layout st upload_id part_number =
     (let rows = part_chunks st upload_id part_number in
      load_layout_stats st ''validating an upload chunk layout'' (map uc_seq rows) (map uc_size rows)
        (map (\<lambda>c. uc_size c \<ge> 0) rows))"

definition load_upload_chunk :: "Store \<Rightarrow> bytes \<Rightarrow> int \<Rightarrow> int \<Rightarrow> HashError + bytes \<times> int" where
  "load_upload_chunk st upload_id part_number seq =
     rbind (spi_or_error st ''reading an upload chunk'' (find (\<lambda>c. uc_seq c = seq) (part_chunks st upload_id part_number))) (\<lambda>row.
     rbind (ok_or row (Corrupt ''an upload chunk disappeared while hashing'')) (\<lambda>row.
     if uc_size row < 0 then Err (Corrupt ''an upload chunk has a negative size'')
     else rbind (parse_blob_id (uc_blob_id row)) (\<lambda>blob_id. Ok (blob_id, uc_size row))))"

definition hash_chunk_step :: "Store \<Rightarrow> ('s, 'm) Hashers \<Rightarrow> bytes \<Rightarrow> int \<Rightarrow> int \<Rightarrow> ('s, 'm) Digests \<Rightarrow> HashError + ('s, 'm) Digests" where
  "hash_chunk_step st H upload_id part_number seq64 digests =
     rbind (i32_try_from seq64 ''upload chunk sequence exceeds integer'') (\<lambda>seq.
     rbind (load_upload_chunk st upload_id part_number seq) (\<lambda>(blob_id, recorded_size).
     rbind (stream_verified_blob st H (Digests_update H) blob_id digests) (\<lambda>(actual_size, digests).
     if actual_size \<noteq> recorded_size then Err (Corrupt ''an upload chunk size does not match its canonical blob'')
     else Ok digests)))"

definition hash_upload_part :: "Store \<Rightarrow> ('s, 'm) Hashers \<Rightarrow> bytes \<Rightarrow> int \<Rightarrow> HashError + bytes \<times> bytes \<times> int" where
  "hash_upload_part st H upload_id part_number =
     (if \<not> (0 \<le> part_number \<and> part_number \<le> 10000) then Err (InvalidInput ''part_number must be between 0 and 10000'')
      else
      rbind (load_upload st upload_id) (\<lambda>(multipart, _).
      if multipart = (part_number = 0)
      then Err (InvalidInput ''part_number 0 is only valid for a non-multipart streaming PUT'')
      else
      rbind (upload_layout st upload_id part_number) (\<lambda>stats.
      if part_number > 0 \<and> ls_count stats = 0
      then Err (InvalidInput ''a multipart part must contain at least one staged chunk'')
      else
      case dense_layout_error stats (ls_count stats) (ls_total_size stats) of
        Some e \<Rightarrow> Err (Corrupt e)
      | None \<Rightarrow>
          rbind (for_each (hash_chunk_step st H upload_id part_number) [0..ls_count stats - 1] (Digests_new H)) (\<lambda>digests.
          let result = Digests_finish H digests in
          if snd (snd result) \<noteq> ls_total_size stats then Err (Corrupt ''the streamed upload size changed while hashing'')
          else Ok result))))"

text \<open>The array argument is a list of nullable byte strings.\<close>

fun collect_blob_ids :: "bytes option list \<Rightarrow> HashError + bytes list" where
  "collect_blob_ids [] = Ok []"
| "collect_blob_ids (raw # rest) =
     rbind (ok_or raw (InvalidInput ''blob ID arrays cannot contain NULL'')) (\<lambda>raw.
     rbind (parse_blob_id raw) (\<lambda>blob_id.
     rbind (collect_blob_ids rest) (\<lambda>blob_ids. Ok (blob_id # blob_ids))))"

definition sequence_step :: "Store \<Rightarrow> ('s, 'm) Hashers \<Rightarrow> bytes \<Rightarrow> 's \<times> int \<Rightarrow> HashError + 's \<times> int" where
  "sequence_step st H blob_id = (\<lambda>(sha256, total_size).
     rbind (stream_verified_blob st H (\<lambda>data sha256. Ok (sha_update H sha256 data)) blob_id sha256) (\<lambda>(sz, sha256).
     rbind (ok_or (i64_checked (total_size + sz)) (Corrupt ''blob sequence size overflows bigint'')) (\<lambda>total_size.
     Ok (sha256, total_size))))"

definition hash_blob_sequence :: "Store \<Rightarrow> ('s, 'm) Hashers \<Rightarrow> bytes option list \<Rightarrow> HashError + bytes \<times> int" where
  "hash_blob_sequence st H raw_ids =
     rbind (collect_blob_ids raw_ids) (\<lambda>blob_ids.
     rbind (for_each (sequence_step st H) blob_ids (sha_new H, 0)) (\<lambda>(sha256, total_size).
     Ok (sha_finalize H sha256, total_size)))"

end
