(* ===== verification/BlobRead.thy ===== *)
theory BlobRead
  imports Hash
begin

text \<open>
  What a traversal of the blob graph (\<^verbatim>\<open>hash.rs\<close>) delivers.  The abstract blob is the function from positions
  to bytes that the stored rows denote; every successful \<open>stream_blob_range\<close> hands exactly the bytes of its
  range to the callback, in order, in blocks of at most \<open>READ_BLOCK_BYTES\<close>.
\<close>

section \<open>The bytes of a blob\<close>

text \<open>
  The abstract blob: the byte at a position, following the stored rows through at most \<open>n\<close> levels of
  extents.  It knows nothing of ranges, read blocks, walks and paths.
\<close>

definition nth_opt :: "bytes \<Rightarrow> int \<Rightarrow> u8 option" where
  "nth_opt data i = (if 0 \<le> i \<and> i < int (length data) then Some (data ! nat i) else None)"

definition extent_holds :: "int \<Rightarrow> ExtentRow \<Rightarrow> bool" where
  "extent_holds i e \<longleftrightarrow> ex_logical_offset e \<le> i \<and> i < ex_logical_offset e + ex_length e"

fun byte_at :: "Store \<Rightarrow> nat \<Rightarrow> bytes \<Rightarrow> int \<Rightarrow> u8 option" where
  "byte_at st 0 bid i = None"
| "byte_at st (Suc n) bid i =
     (case st_blob st bid of
        None \<Rightarrow> None
      | Some row \<Rightarrow>
          if i < 0 \<or> row_size row \<le> i then None
          else if row_storage_kind row = ''inline'' then Option.bind (row_inline row) (\<lambda>data. nth_opt data i)
          else if row_storage_kind row = ''chunked'' then
            Option.bind (find (\<lambda>c. ck_seq c = i div row_chunk_size row) (st_chunk st bid))
              (\<lambda>c. nth_opt (ck_data c) (i mod row_chunk_size row))
          else if row_storage_kind row = ''composite'' then
            Option.bind (find (extent_holds i) (st_extent st bid))
              (\<lambda>e. byte_at st n (ex_source_blob_id e) (ex_source_offset e + (i - ex_logical_offset e)))
          else None)"

section \<open>What a traversal emits\<close>

definition emitted :: "(bytes \<Rightarrow> 's \<Rightarrow> HashError + 's) \<Rightarrow> 's \<Rightarrow> 's \<Rightarrow> bytes \<Rightarrow> bool" where
  "emitted emit s s' data \<longleftrightarrow>
     (\<exists>blocks. for_each emit blocks s = Ok s' \<and> concat blocks = data
        \<and> list_all (\<lambda>b. 0 < length b \<and> int (length b) \<le> READ_BLOCK_BYTES) blocks)"

definition reads :: "(bytes \<Rightarrow> 's \<Rightarrow> HashError + 's) \<Rightarrow> (int \<Rightarrow> u8 option) \<Rightarrow> int \<Rightarrow> int \<Rightarrow> 's \<Rightarrow> 's \<Rightarrow> bool" where
  "reads emit f a b s s' \<longleftrightarrow> a \<le> b \<and> (\<exists>data. emitted emit s s' data \<and> map Some data = map f [a..b - 1])"

lemma for_each_append: "for_each f (xs @ ys) s = rbind (for_each f xs s) (for_each f ys)"
proof (induction xs arbitrary: s)
  case (Cons x xs)
  then show ?case by (cases "f x s") simp_all
qed (simp add: rbind_def)

lemma emitted_Nil: "emitted emit s s []"
  unfolding emitted_def by (intro exI [of _ "[]"]) simp

lemma emitted_block:
  assumes "emit data s = Ok s'" "data \<noteq> []" "int (length data) \<le> READ_BLOCK_BYTES"
  shows "emitted emit s s' data"
  unfolding emitted_def using assms by (intro exI [of _ "[data]"]) simp

lemma emitted_append: "emitted emit s s1 a \<Longrightarrow> emitted emit s1 s2 b \<Longrightarrow> emitted emit s s2 (a @ b)"
  unfolding emitted_def
proof (elim exE conjE)
  fix x y
  assume "for_each emit x s = Ok s1" "concat x = a" "for_each emit y s1 = Ok s2" "concat y = b"
    "list_all (\<lambda>b. 0 < length b \<and> int (length b) \<le> READ_BLOCK_BYTES) x"
    "list_all (\<lambda>b. 0 < length b \<and> int (length b) \<le> READ_BLOCK_BYTES) y"
  then show "\<exists>blocks. for_each emit blocks s = Ok s2 \<and> concat blocks = a @ b
      \<and> list_all (\<lambda>b. 0 < length b \<and> int (length b) \<le> READ_BLOCK_BYTES) blocks"
    by (intro exI [of _ "x @ y"]) (simp add: for_each_append)
qed

lemma upto_append: "a \<le> b \<Longrightarrow> b \<le> c \<Longrightarrow> [a..b - 1] @ [b..c - 1] = [a..c - 1 :: int]"
  using upto_split2 [of a "b - 1" "c - 1"] by (cases "a = b") auto

lemma reads_refl: "reads emit f a a s s"
  unfolding reads_def using emitted_Nil by (intro conjI exI [of _ "[]"]) auto

lemma reads_trans:
  assumes "reads emit f a b s s1" "reads emit f b c s1 s2"
  shows "reads emit f a c s s2"
proof -
  from assms obtain x y where ab: "a \<le> b" "b \<le> c" and x: "emitted emit s s1 x" "map Some x = map f [a..b - 1]"
    and y: "emitted emit s1 s2 y" "map Some y = map f [b..c - 1]"
    unfolding reads_def by blast
  have "map Some (x @ y) = map f ([a..b - 1] @ [b..c - 1])" by (simp add: x y)
  with ab have "map Some (x @ y) = map f [a..c - 1]" by (simp only: upto_append)
  with emitted_append [OF x(1) y(1)] ab show ?thesis
    unfolding reads_def by (intro conjI exI [of _ "x @ y"]) auto
qed

lemma map_upto_shift: "map f [a + d..b + d - 1] = map (\<lambda>i. f (i + d)) [a..b - 1 :: int]"
  by (rule nth_equalityI) (auto simp: nth_upto algebra_simps)

lemma reads_shift:
  assumes "reads emit g (a + d) (b + d) s s'" "\<And>i. a \<le> i \<Longrightarrow> i < b \<Longrightarrow> f i = g (i + d)"
  shows "reads emit f a b s s'"
proof -
  have "map f [a..b - 1] = map (\<lambda>i. g (i + d)) [a..b - 1]" using assms(2) by simp
  with assms(1) show ?thesis by (auto simp: reads_def map_upto_shift)
qed

text \<open>A loop whose turns read adjacent pieces reads them all.\<close>

lemma for_each_reads:
  assumes "for_each body [lo..hi] s = Ok s'" "lo \<le> hi + 1"
    and "\<And>k s s'. lo \<le> k \<Longrightarrow> k \<le> hi \<Longrightarrow> body k s = Ok s' \<Longrightarrow> reads emit f (p k) (p (k + 1)) s s'"
  shows "reads emit f (p lo) (p (hi + 1)) s s'"
  using assms
proof (induction "nat (hi + 1 - lo)" arbitrary: lo s)
  case 0
  then have "lo = hi + 1" by simp
  with "0.prems"(1) show ?case by (simp add: reads_refl)
next
  case (Suc m)
  then have lt: "lo \<le> hi" by simp
  with Suc.prems(1) obtain s1 where s1: "body lo s = Ok s1" "for_each body [lo + 1..hi] s1 = Ok s'"
    by (auto simp: upto_rec1)
  have "reads emit f (p (lo + 1)) (p (hi + 1)) s1 s'"
    using Suc.hyps(2) lt s1(2) Suc.prems(3) by (intro Suc.hyps(1)) auto
  with Suc.prems(3) [OF order_refl lt s1(1)] show ?case by (rule reads_trans)
qed


section \<open>Cells\<close>

definition cell :: "Store \<Rightarrow> bytes \<Rightarrow> int option \<Rightarrow> bytes option" where
  "cell st bid seq =
     (case seq of
        None \<Rightarrow> Option.bind (st_blob st bid) row_inline
      | Some q \<Rightarrow> map_option ck_data (find (\<lambda>c. ck_seq c = q) (st_chunk st bid)))"

definition cell_at :: "Store \<Rightarrow> bytes \<Rightarrow> int option \<Rightarrow> int \<Rightarrow> u8 option" where
  "cell_at st bid seq i = Option.bind (cell st bid seq) (\<lambda>data. nth_opt data i)"

lemma spi_or_error_Inr [simp]: "spi_or_error st action v = Inr w \<longleftrightarrow> spi_failure st action = None \<and> w = v"
  by (auto simp: spi_or_error_def split: option.splits)

lemma i32_try_from_Inr [simp]: "i32_try_from x m = Inr y \<longleftrightarrow> i32_range x \<and> y = x"
  by (auto simp: i32_try_from_def)

lemma fetch_slice:
  assumes "(case seq of Some q \<Rightarrow> fetch_chunk_slice st bid q offset len | None \<Rightarrow> fetch_inline_slice st bid offset len) = Ok data"
  obtains whole where "cell st bid seq = Some whole" "data = pg_substring whole (offset + 1) len"
  using assms by (cases seq) (auto simp: fetch_chunk_slice_def fetch_inline_slice_def cell_def)

lemma substring_slice:
  assumes "0 \<le> offset" "0 \<le> len" "int (length (pg_substring whole (offset + 1) len)) = len"
  shows "map Some (pg_substring whole (offset + 1) len) = map (nth_opt whole) [offset..offset + len - 1]"
proof (rule nth_equalityI)
  have data: "pg_substring whole (offset + 1) len = take (nat len) (drop (nat offset) whole)"
    using assms(1) by (simp add: pg_substring_def)
  with assms have le: "offset + len \<le> int (length whole) \<or> len = 0" by (auto simp: min_def split: if_splits)
  show "length (map Some (pg_substring whole (offset + 1) len)) = length (map (nth_opt whole) [offset..offset + len - 1])"
    using assms by simp
  fix i assume small: "i < length (map Some (pg_substring whole (offset + 1) len))"
  then have i: "int i < len" using assms by simp
  have "i < length (take (nat len) (drop (nat offset) whole))" using small by (simp add: data)
  note i = i this
  with le assms(1) have "offset + int i < int (length whole)" by auto
  then show "map Some (pg_substring whole (offset + 1) len) ! i = map (nth_opt whole) [offset..offset + len - 1] ! i"
    unfolding data using i assms(1) by (simp add: nth_upto nth_opt_def nat_add_distrib)
qed

lemma emit_bounded_cell_reads:
  assumes "emit_bounded_cell st emit bid seq offset len s = Ok s'" "0 \<le> offset" "0 \<le> len"
  shows "reads emit (cell_at st bid seq) offset (offset + len) s s'"
  using assms
proof (induction st emit bid seq offset len s rule: emit_bounded_cell.induct)
  case (1 st emit bid seq offset len s)
  show ?case
  proof (cases "len > 0")
    case False
    with "1.prems" show ?thesis by (simp add: emit_bounded_cell.simps reads_refl)
  next
    case True
    define amount where "amount = min len READ_BLOCK_BYTES"
    have amount: "0 < amount" "amount \<le> len" "amount \<le> READ_BLOCK_BYTES"
      using True by (auto simp: amount_def READ_BLOCK_BYTES_def)
    from "1.prems"(1) True obtain data s1 where data: "int (length data) = amount" and emit: "emit data s = Ok s1"
      and fetch: "(case seq of Some q \<Rightarrow> fetch_chunk_slice st bid q offset amount | None \<Rightarrow> fetch_inline_slice st bid offset amount) = Ok data"
      and rest: "emit_bounded_cell st emit bid seq (offset + amount) (len - amount) s1 = Ok s'"
      and range: "i64_range (offset + amount)"
      by (subst (asm) emit_bounded_cell.simps) (auto simp: Let_def simp flip: amount_def split: if_splits)
    obtain whole where whole: "cell st bid seq = Some whole" "data = pg_substring whole (offset + 1) amount"
      using fetch by (rule fetch_slice)
    have "map Some data = map (cell_at st bid seq) [offset..offset + amount - 1]"
      using substring_slice [of offset amount whole] data amount "1.prems"(2) whole by (simp add: cell_at_def [abs_def])
    then have "reads emit (cell_at st bid seq) offset (offset + amount) s s1"
      unfolding reads_def using emitted_block [of emit data s s1] emit data amount by auto
    moreover have "reads emit (cell_at st bid seq) (offset + amount) (offset + amount + (len - amount)) s1 s'"
      using "1.IH" [OF True amount_def fetch _ emit, of "offset + amount"] data range rest "1.prems" amount by simp
    ultimately show ?thesis using reads_trans by fastforce
  qed
qed

lemma bind_map_option: "Option.bind (map_option f v) g = Option.bind v (\<lambda>x. g (f x))"
  by (cases v) simp_all

lemma div_bounds:
  fixes x c :: int
  assumes "0 < c"
  shows "x div c * c \<le> x" "x < (x div c + 1) * c"
proof -
  have "x div c * c = x - x mod c" by (simp add: minus_mod_eq_div_mult)
  then show "x div c * c \<le> x" "x < (x div c + 1) * c"
    using pos_mod_sign [OF assms, of x] pos_mod_bound [OF assms, of x] by (simp_all add: distrib_right)
qed

lemma chunk_step_reads:
  assumes step: "chunk_step st emit meta start stop k s = Ok s'" and cs: "0 < bm_chunk_size meta" and "0 \<le> start" "start < stop"
    and k: "start div bm_chunk_size meta \<le> k" "k \<le> (stop - 1) div bm_chunk_size meta"
  defines "p \<equiv> \<lambda>k. max start (min stop (k * bm_chunk_size meta))"
  shows "reads emit (\<lambda>i. cell_at st (bm_id meta) (Some (i div bm_chunk_size meta)) (i mod bm_chunk_size meta)) (p k) (p (k + 1)) s s'"
proof -
  let ?cs = "bm_chunk_size meta"
  have "k * ?cs \<le> (stop - 1) div ?cs * ?cs" using k(2) cs by (simp add: mult_right_mono)
  then have lo: "k * ?cs < stop" using div_bounds(1) [OF cs, of "stop - 1"] by linarith
  have "(start div ?cs + 1) * ?cs \<le> (k + 1) * ?cs" using k(1) cs by (simp add: mult_right_mono)
  then have hi: "start < (k + 1) * ?cs" using div_bounds(2) [OF cs, of start] by linarith
  have next_cs: "(k + 1) * ?cs = k * ?cs + ?cs" by (simp add: distrib_right)
  have p: "p k = max start (k * ?cs)" "p (k + 1) = min stop ((k + 1) * ?cs)" using lo hi assms(4) by (auto simp: p_def)
  have le: "p k \<le> p (k + 1)" using p lo hi assms(4) cs next_cs by auto
  have "emit_bounded_cell st emit (bm_id meta) (Some k) (p k - k * ?cs) (p (k + 1) - p k) s = Ok s'"
    using step next_cs by (auto simp: chunk_step_def Let_def p)
  then have "reads emit (cell_at st (bm_id meta) (Some k)) (p k - k * ?cs) (p k - k * ?cs + (p (k + 1) - p k)) s s'"
    using le p by (intro emit_bounded_cell_reads) auto
  then have r: "reads emit (cell_at st (bm_id meta) (Some k)) (p k + - (k * ?cs)) (p (k + 1) + - (k * ?cs)) s s'" by simp
  show ?thesis
  proof (rule reads_shift [OF r])
    fix i assume "p k \<le> i" "i < p (k + 1)"
    then have "0 \<le> i - k * ?cs" "i - k * ?cs < ?cs" using p next_cs by auto
    then have "i div ?cs = k" "i mod ?cs = i + - (k * ?cs)"
      by (simp_all add: int_div_pos_eq [of _ _ k "i - k * ?cs"] int_mod_pos_eq [of _ _ k "i - k * ?cs"])
    then show "cell_at st (bm_id meta) (Some (i div ?cs)) (i mod ?cs) = cell_at st (bm_id meta) (Some k) (i + - (k * ?cs))" by simp
  qed
qed


section \<open>Extents\<close>

lemma find_unique:
  assumes "x \<in> set xs" "P x" "\<And>y. y \<in> set xs \<Longrightarrow> P y \<Longrightarrow> y = x"
  shows "find P xs = Some x"
proof (cases "find P xs")
  case None
  then have "\<not> (\<exists>x. x \<in> set xs \<and> P x)" by (rule find_None_iff [THEN iffD1])
  with assms(1,2) show ?thesis by blast
next
  case (Some y)
  then have "y \<in> set xs \<and> P y" by (metis find_Some_iff nth_mem)
  with assms(3) Some show ?thesis by simp
qed

lemma dense_sorted:
  fixes key :: "'a \<Rightarrow> int"
  assumes "{0..<int (length rows)} \<subseteq> set (map key rows)"
  shows "map key (sort_key key rows) = [0..int (length rows) - 1]"
proof -
  let ?n = "int (length rows)"
  have "card {0..<?n} \<le> card (set (map key rows))" by (rule card_mono [OF _ assms]) simp
  moreover have "card (set (map key rows)) \<le> length (map key rows)" by (rule card_length)
  ultimately have card: "card (set (map key rows)) = length (map key rows)" "card (set (map key rows)) = card {0..<?n}" by simp_all
  have "distinct (map key rows)" using card(1) by (rule card_distinct)
  moreover have "set (map key rows) = {0..<?n}"
    using card_subset_eq [OF _ assms] card(2) by simp
  ultimately have "distinct (map key (sort_key key rows))" "set (map key (sort_key key rows)) = {0..<?n}"
    by (simp_all add: distinct_map)
  moreover have "sorted (map key (sort_key key rows))" by (rule sorted_sort_key)
  moreover have "sorted [0..?n - 1]" "distinct [0..?n - 1]" by (rule sorted_upto, rule distinct_upto)
  moreover have "set [0..?n - 1] = {0..<?n}" by auto
  ultimately show ?thesis by (metis sorted_distinct_set_unique)
qed

definition offset_of :: "ExtentRow list \<Rightarrow> int \<Rightarrow> int" where
  "offset_of rows k = sum_list (map ex_length (take (nat k) (sort_key ex_seq rows)))"

text \<open>A dense sequence of extents with consecutive offsets.\<close>

definition extents_tile :: "ExtentRow list \<Rightarrow> bool" where
  "extents_tile rows \<longleftrightarrow>
     (\<forall>k. 0 \<le> k \<and> k < int (length rows) \<longrightarrow>
        (\<exists>e \<in> set rows. ex_seq e = k \<and> sort_key ex_seq rows ! nat k = e \<and> ex_logical_offset e = offset_of rows k \<and> 0 \<le> ex_length e))
     \<and> (\<forall>e \<in> set rows. 0 \<le> ex_seq e \<and> ex_seq e < int (length rows))"

lemma extents_tileI:
  assumes dense: "{0..<int (length rows)} \<subseteq> set (map ex_seq rows)" and valid: "list_all (\<lambda>v. v) (extent_rows_valid st rows)"
    and lengths: "\<And>e. e \<in> set rows \<Longrightarrow> 0 \<le> ex_length e"
  shows "extents_tile rows"
proof -
  let ?sorted = "sort_key ex_seq rows"
  note seqs = dense_sorted [OF dense]
  have at: "ex_seq (?sorted ! nat k) = k \<and> ex_logical_offset (?sorted ! nat k) = offset_of rows k \<and> ?sorted ! nat k \<in> set rows"
    if "0 \<le> k" "k < int (length rows)" for k
  proof -
    have k: "nat k < length ?sorted" using that by simp
    have "map ex_seq ?sorted ! nat k = k" unfolding seqs using that by (simp add: nth_upto)
    moreover have "ex_logical_offset (?sorted ! nat k) = offset_of rows k"
      using valid k by (auto simp: extent_rows_valid_def list_all_length offset_of_def Let_def)
    moreover have "?sorted ! nat k \<in> set rows" using k by (metis nth_mem set_sort)
    ultimately show ?thesis using k by simp
  qed
  have "0 \<le> ex_seq e \<and> ex_seq e < int (length rows)" if "e \<in> set rows" for e
  proof -
    have "ex_seq e \<in> set (map ex_seq ?sorted)" using that by simp
    then show ?thesis unfolding seqs by auto
  qed
  with at lengths show ?thesis by (auto simp: extents_tile_def)
qed

lemma tile_at:
  assumes "extents_tile rows" "0 \<le> k" "k < int (length rows)"
  shows "sort_key ex_seq rows ! nat k \<in> set rows" "ex_seq (sort_key ex_seq rows ! nat k) = k"
    "ex_logical_offset (sort_key ex_seq rows ! nat k) = offset_of rows k" "0 \<le> ex_length (sort_key ex_seq rows ! nat k)"
  using assms unfolding extents_tile_def by blast+

lemma offset_of_Suc:
  assumes "extents_tile rows" "0 \<le> k" "k < int (length rows)"
  shows "offset_of rows (k + 1) = offset_of rows k + ex_length (sort_key ex_seq rows ! nat k)"
  using assms by (simp add: offset_of_def nat_add_distrib take_Suc_conv_app_nth)

lemma offset_of_mono:
  assumes "extents_tile rows" "0 \<le> j" "j \<le> k" "k \<le> int (length rows)"
  shows "offset_of rows j \<le> offset_of rows k"
  using assms(3,4)
proof (induction k rule: int_ge_induct)
  case (step k)
  then have "0 \<le> ex_length (sort_key ex_seq rows ! nat k)"
    using assms(1,2) by (intro tile_at) auto
  with step assms show ?case by (simp add: offset_of_Suc)
qed simp

lemma find_seq:
  assumes "extents_tile rows" "0 \<le> k" "k < int (length rows)"
  shows "find (\<lambda>e. ex_seq e = k) rows = Some (sort_key ex_seq rows ! nat k)"
proof (rule find_unique)
  let ?e = "sort_key ex_seq rows ! nat k"
  show e: "?e \<in> set rows" "ex_seq ?e = k" using tile_at [OF assms] by simp_all
  fix y assume y: "y \<in> set rows" "ex_seq y = k"
  then obtain j where j: "j < length rows" "sort_key ex_seq rows ! j = y"
    by (metis in_set_conv_nth length_sort set_sort)
  have "ex_seq (sort_key ex_seq rows ! nat (int j)) = int j" using j by (intro tile_at assms) auto
  with j y show "y = ?e" by auto
qed

lemma find_holding:
  assumes tile: "extents_tile rows" and k: "0 \<le> k" "k < int (length rows)"
    and i: "offset_of rows k \<le> i" "i < offset_of rows (k + 1)"
  shows "find (extent_holds i) rows = Some (sort_key ex_seq rows ! nat k)"
proof (rule find_unique)
  let ?at = "\<lambda>k. sort_key ex_seq rows ! nat k"
  have at: "?at j \<in> set rows \<and> ex_logical_offset (?at j) = offset_of rows j \<and> offset_of rows (j + 1) = offset_of rows j + ex_length (?at j)"
    if "0 \<le> j" "j < int (length rows)" for j
    using tile_at [OF tile that] offset_of_Suc [OF tile that] by simp
  show "?at k \<in> set rows" "extent_holds i (?at k)" using at [OF k] i by (auto simp: extent_holds_def)
  fix y assume y: "y \<in> set rows" "extent_holds i y"
  then obtain n where n: "n < length rows" "sort_key ex_seq rows ! n = y"
    by (metis in_set_conv_nth length_sort set_sort)
  define j where "j = int n"
  have j: "0 \<le> j" "j < int (length rows)" "?at j = y" using n by (auto simp: j_def)
  with y at [of j] have hold: "offset_of rows j \<le> i" "i < offset_of rows (j + 1)" by (auto simp: extent_holds_def)
  have "\<not> j + 1 \<le> k" using offset_of_mono [OF tile, of "j + 1" k] hold i j k by auto
  moreover have "\<not> k + 1 \<le> j" using offset_of_mono [OF tile, of "k + 1" j] hold i j k by auto
  ultimately show "y = ?at k" using j by (metis add.commute linorder_less_linear zless_imp_add1_zle)
qed


section \<open>The traversal reads the blob\<close>

definition extent_turn ::
    "Store \<Rightarrow> (bytes \<Rightarrow> 's \<Rightarrow> HashError + 's) \<Rightarrow> bytes \<Rightarrow> int \<Rightarrow> int \<Rightarrow> int \<Rightarrow> bytes list \<Rightarrow> int \<Rightarrow> 's \<Rightarrow> HashError + 's" where
  "extent_turn st emit bid sz start stop path seq64 s =
     rbind (i32_try_from seq64 ''extent sequence exceeds integer'') (\<lambda>seq.
     rbind (load_extent st bid seq) (\<lambda>extent.
     rbind (checked_end (xt_logical_offset extent) (xt_length extent) sz) (\<lambda>extent_end.
     if xt_length extent = 0 \<or> xt_logical_offset extent \<ge> stop \<or> extent_end \<le> start then Ok s
     else
       let from = max start (xt_logical_offset extent); to = min stop extent_end in
       rbind (ok_or (i64_checked (xt_source_offset extent + (from - xt_logical_offset extent)))
         (Corrupt ''source extent offset overflows bigint'')) (\<lambda>source_start.
       stream_blob_range st emit (xt_source_id extent) source_start (to - from) (path @ [bid]) s))))"

lemma stream_blob_range_unfold:
  assumes "length path < MAX_BLOB_DEPTH" "bid \<notin> set path"
  shows "stream_blob_range st emit bid start len path s =
     rbind (load_blob st bid) (\<lambda>meta.
     rbind (checked_end start len (bm_size meta)) (\<lambda>stop.
     case bm_kind meta of
       Inline \<Rightarrow> emit_bounded_cell st emit bid None start len s
     | ChunkedKind \<Rightarrow>
         rbind (validate_chunk_layout st meta) (\<lambda>_.
         if len > 0 then
           for_each (chunk_step st emit meta start stop)
             [trunc_div start (bm_chunk_size meta)..trunc_div (stop - 1) (bm_chunk_size meta)] s
         else Ok s)
     | Composite \<Rightarrow>
         rbind (validate_extent_layout st meta) (\<lambda>count.
         for_each (extent_turn st emit bid (bm_size meta) start stop path) [0..count - 1] s)))"
  unfolding extent_turn_def [abs_def] using assms by (subst stream_blob_range.simps) (simp add: not_le)

lemma stream_blob_range_Ok:
  assumes "stream_blob_range st emit bid start len path s = Ok s'"
  shows "length path < MAX_BLOB_DEPTH" "bid \<notin> set path"
  using assms by (subst (asm) stream_blob_range.simps, simp split: if_splits)+

definition kind_name :: "StorageKind \<Rightarrow> string" where
  "kind_name k = (case k of Inline \<Rightarrow> ''inline'' | ChunkedKind \<Rightarrow> ''chunked'' | Composite \<Rightarrow> ''composite'')"

definition row_ok :: "BlobRow \<Rightarrow> StorageKind \<Rightarrow> bool" where
  "row_ok row kind \<longleftrightarrow> 0 \<le> row_size row \<and> 0 < row_chunk_size row \<and> row_storage_kind row = kind_name kind
     \<and> (if kind = Inline then map_option (int \<circ> length) (row_inline row) = Some (row_size row) \<and> row_size row \<le> 2 ^ 31 - 2
        else row_inline row = None)"

lemma load_blob_Inr:
  "load_blob st bid = Ok meta \<longleftrightarrow> spi_failure st ''reading blob metadata'' = None
     \<and> (\<exists>row. st_blob st bid = Some row \<and> row_ok row (bm_kind meta)
        \<and> meta = \<lparr>bm_id = bid, bm_size = row_size row, bm_chunk_size = row_chunk_size row, bm_kind = bm_kind meta\<rparr>)"
proof (cases "st_blob st bid")
  case (Some row)
  consider "row_storage_kind row = ''inline''" | "row_storage_kind row = ''chunked''" | "row_storage_kind row = ''composite''"
    | "row_storage_kind row \<notin> {''inline'', ''chunked'', ''composite''}" by blast
  then show ?thesis
    using Some
    by cases (auto simp: load_blob_def Let_def row_ok_def kind_name_def split: StorageKind.splits)
qed (simp add: load_blob_def)

lemma checked_end_Inr:
  "checked_end start len sz = Ok stop \<longleftrightarrow> 0 \<le> start \<and> 0 \<le> len \<and> 0 \<le> sz \<and> stop = start + len \<and> stop \<le> sz \<and> i64_range (start + len)"
  by (auto simp: checked_end_def range_end_def)

lemma load_extent_Inr:
  "load_extent st bid seq = Ok x \<longleftrightarrow> spi_failure st ''reading an extent'' = None
     \<and> (\<exists>e. find (\<lambda>e. ex_seq e = seq) (st_extent st bid) = Some e \<and> length (ex_source_blob_id e) = 32
        \<and> x = \<lparr>xt_logical_offset = ex_logical_offset e, xt_source_id = ex_source_blob_id e,
             xt_source_offset = ex_source_offset e, xt_length = ex_length e\<rparr>)"
  by (auto simp: load_extent_def parse_blob_id_def)

lemma dense_layout_error_None:
  "dense_layout_error stats n sz = None \<longleftrightarrow> 0 \<le> n \<and> 0 \<le> sz \<and> ls_count stats = n \<and> ls_total_size stats = sz \<and> ls_rows_valid stats
     \<and> (if n = 0 then ls_min_seq stats = None \<and> ls_max_seq stats = None
        else ls_min_seq stats = Some 0 \<and> ls_max_seq stats = Some (n - 1))"
  by (auto simp: dense_layout_error_def)

lemma load_layout_stats_Inr:
  "load_layout_stats st action seqs sizes valid = Ok stats \<longleftrightarrow> spi_failure st action = None \<and> i64_range (sum_list sizes)
     \<and> stats = \<lparr>ls_count = int (length seqs),
         ls_min_seq = (if seqs = [] then None else Some (Min (set seqs))),
         ls_max_seq = (if seqs = [] then None else Some (Max (set seqs))),
         ls_total_size = sum_list sizes, ls_rows_valid = list_all (\<lambda>v. v) valid\<rparr>"
  by (auto simp: load_layout_stats_def)

lemma validate_extent_layout_Inr:
  assumes "validate_extent_layout st meta = Ok count"
  shows "count = int (length (st_extent st (bm_id meta)))" "sum_list (map ex_length (st_extent st (bm_id meta))) = bm_size meta"
    "list_all (\<lambda>v. v) (extent_rows_valid st (st_extent st (bm_id meta)))"
  using assms
  by (auto simp: validate_extent_layout_def Let_def load_layout_stats_Inr dense_layout_error_None split: option.splits)

lemma for_each_turn:
  assumes "for_each body xs s = Ok s'" "x \<in> set xs"
  obtains u u' where "body x u = Ok u'"
  using assms by (induction xs arbitrary: s) auto

lemma sum_list_sort_key: "sum_list (map f (sort_key k xs)) = (sum_list (map f xs) :: int)"
proof (induction xs)
  case (Cons x xs)
  have "sum_list (map f (insort_key k x ys)) = f x + sum_list (map f ys)" for ys by (induction ys) simp_all
  with Cons show ?case by simp
qed simp

lemma offset_of_ends: "offset_of rows 0 = 0" "offset_of rows (int (length rows)) = sum_list (map ex_length rows)"
  using sum_list_sort_key [of ex_length ex_seq rows] by (simp_all add: offset_of_def)

lemma composite_tiles:
  assumes valid: "validate_extent_layout st meta = Ok count" and sz: "sz = bm_size meta" and bid: "bid = bm_id meta"
    and turns: "for_each (extent_turn st emit bid sz start stop path) [0..count - 1] s = Ok s'"
  shows "extents_tile (st_extent st bid)"
proof (rule extents_tileI)
  note facts = validate_extent_layout_Inr [OF valid]
  have turn: "\<exists>e. find (\<lambda>e. ex_seq e = k) (st_extent st bid) = Some e \<and> 0 \<le> ex_length e" if "0 \<le> k" "k < count" for k
  proof -
    from that have "k \<in> set [0..count - 1]" by simp
    then obtain u u' where "extent_turn st emit bid sz start stop path k u = Ok u'" by (rule for_each_turn [OF turns])
    then show ?thesis by (auto simp: extent_turn_def load_extent_Inr checked_end_Inr)
  qed
  then have seqs: "\<exists>e \<in> set (st_extent st bid). ex_seq e = k" if "0 \<le> k" "k < count" for k
    using that by (metis (mono_tags, lifting) find_Some_iff nth_mem)
  then show dense: "{0..<int (length (st_extent st bid))} \<subseteq> set (map ex_seq (st_extent st bid))"
    unfolding bid facts(1) [symmetric] by fastforce
  show "list_all (\<lambda>v. v) (extent_rows_valid st (st_extent st bid))" using facts(3) by (simp add: bid)
  fix e assume e: "e \<in> set (st_extent st bid)"
  let ?sorted = "sort_key ex_seq (st_extent st bid)"
  have "ex_seq e \<in> set (map ex_seq ?sorted)" using e by simp
  then have range: "0 \<le> ex_seq e" "ex_seq e < count" unfolding dense_sorted [OF dense] by (auto simp: facts(1) bid)
  have "distinct (map ex_seq ?sorted)" unfolding dense_sorted [OF dense] by simp
  then have "inj_on ex_seq (set (st_extent st bid))" by (simp add: distinct_map)
  with turn [OF range] e show "0 \<le> ex_length e" by (auto simp: find_Some_iff inj_on_def)
qed


lemma extent_turn_reads:
  assumes turn: "extent_turn st emit bid sz start stop path k s = Ok s'" and tile: "extents_tile (st_extent st bid)"
    and k: "0 \<le> k" "k < int (length (st_extent st bid))" and range: "0 \<le> start" "start \<le> stop"
    and inner: "\<And>src from len s s'. stream_blob_range st emit src from len (path @ [bid]) s = Ok s' \<Longrightarrow>
      reads emit (byte_at st n src) from (from + len) s s'"
    and f: "\<And>i. start \<le> i \<Longrightarrow> i < stop \<Longrightarrow> f i = Option.bind (find (extent_holds i) (st_extent st bid))
      (\<lambda>e. byte_at st n (ex_source_blob_id e) (ex_source_offset e + (i - ex_logical_offset e)))"
  defines "p \<equiv> \<lambda>k. max start (min stop (offset_of (st_extent st bid) k))"
  shows "reads emit f (p k) (p (k + 1)) s s'"
proof -
  let ?rows = "st_extent st bid"
  define e where "e = sort_key ex_seq ?rows ! nat k"
  note at = tile_at [OF tile k, folded e_def]
  have next_at: "offset_of ?rows (k + 1) = offset_of ?rows k + ex_length e"
    using offset_of_Suc [OF tile k] by (simp add: e_def)
  have found: "find (\<lambda>x. ex_seq x = k) ?rows = Some e" using find_seq [OF tile k] by (simp add: e_def)
  show ?thesis
  proof (cases "ex_length e = 0 \<or> offset_of ?rows k \<ge> stop \<or> offset_of ?rows (k + 1) \<le> start")
    case True
    then have "s' = s"
      using turn at next_at by (auto simp: extent_turn_def load_extent_Inr found checked_end_Inr)
    moreover have "p k = p (k + 1)" using True next_at at(4) by (auto simp: p_def)
    ultimately show ?thesis by (simp add: reads_refl)
  next
    case False
    then have p: "p k = max start (offset_of ?rows k)" "p (k + 1) = min stop (offset_of ?rows (k + 1))"
      "p k \<le> p (k + 1)" "start \<le> p k" "p (k + 1) \<le> stop"
      using range next_at at(4) by (auto simp: p_def)
    define d where "d = ex_source_offset e - ex_logical_offset e"
    have "stream_blob_range st emit (ex_source_blob_id e) (ex_source_offset e + (p k - ex_logical_offset e)) (p (k + 1) - p k)
        (path @ [bid]) s = Ok s'"
      using turn False at next_at by (auto simp: extent_turn_def load_extent_Inr found checked_end_Inr Let_def p(1,2))
    from inner [OF this] have "reads emit (byte_at st n (ex_source_blob_id e)) (p k + d) (p (k + 1) + d) s s'"
      by (simp add: d_def algebra_simps)
    then show ?thesis
    proof (rule reads_shift)
      fix i assume i: "p k \<le> i" "i < p (k + 1)"
      then have "find (extent_holds i) ?rows = Some e"
        unfolding e_def using p by (intro find_holding tile k) auto
      with i p f [of i] show "f i = byte_at st n (ex_source_blob_id e) (i + d)" by (simp add: d_def algebra_simps)
    qed
  qed
qed

lemma chunk_loop_reads:
  assumes loop: "for_each (chunk_step st emit meta start stop) [start div bm_chunk_size meta..(stop - 1) div bm_chunk_size meta] s = Ok s'"
    and cs: "0 < bm_chunk_size meta" and range: "0 \<le> start" "start < stop"
  shows "reads emit (\<lambda>i. cell_at st (bm_id meta) (Some (i div bm_chunk_size meta)) (i mod bm_chunk_size meta)) start stop s s'"
    (is "reads emit ?f start stop s s'")
proof -
  let ?cs = "bm_chunk_size meta"
  let ?p = "\<lambda>k. max start (min stop (k * ?cs))"
  let ?lo = "start div ?cs" let ?hi = "(stop - 1) div ?cs"
  have le: "?lo \<le> ?hi + 1" using range cs by (smt (verit) zdiv_mono1)
  have "reads emit ?f (?p k) (?p (k + 1)) u u'"
    if "?lo \<le> k" "k \<le> ?hi" "chunk_step st emit meta start stop k u = Ok u'" for k u u'
    using chunk_step_reads [OF that(3) cs range that(1,2)] .
  then have r: "reads emit ?f (?p ?lo) (?p (?hi + 1)) s s'"
    by (rule for_each_reads [OF loop le])
  have "?lo * ?cs \<le> start" "stop \<le> (?hi + 1) * ?cs"
    using div_bounds(1) [OF cs, of start] div_bounds(2) [OF cs, of "stop - 1"] by simp_all
  then have "?p ?lo = start" "?p (?hi + 1) = stop" using range by auto
  with r show ?thesis by simp
qed

lemma extent_loop_reads:
  assumes loop: "for_each (extent_turn st emit bid sz start stop path) [0..count - 1] s = Ok s'"
    and valid: "validate_extent_layout st meta = Ok count" and meta: "bm_id meta = bid" "bm_size meta = sz"
    and range: "0 \<le> start" "start \<le> stop" "stop \<le> sz"
    and inner: "\<And>src pos len s s'. stream_blob_range st emit src pos len (path @ [bid]) s = Ok s' \<Longrightarrow>
      reads emit (byte_at st n src) pos (pos + len) s s'"
    and f: "\<And>i. start \<le> i \<Longrightarrow> i < stop \<Longrightarrow> f i = Option.bind (find (extent_holds i) (st_extent st bid))
      (\<lambda>e. byte_at st n (ex_source_blob_id e) (ex_source_offset e + (i - ex_logical_offset e)))"
  shows "reads emit f start stop s s'"
proof -
  note facts = validate_extent_layout_Inr [OF valid, unfolded meta]
  have tile: "extents_tile (st_extent st bid)"
    using composite_tiles [OF valid _ _ loop] meta by simp
  let ?p = "\<lambda>k. max start (min stop (offset_of (st_extent st bid) k))"
  have turn: "reads emit f (?p k) (?p (k + 1)) u u'"
    if "0 \<le> k" "k \<le> count - 1" "extent_turn st emit bid sz start stop path k u = Ok u'" for k u u'
    using that(1,2) facts(1) range inner f by (intro extent_turn_reads [OF that(3) tile]) simp_all
  have "reads emit f (?p 0) (?p (count - 1 + 1)) s s'"
    by (rule for_each_reads [where p = ?p, OF loop _ turn]) (use facts(1) in simp_all)
  moreover have "?p 0 = start" "?p (count - 1 + 1) = stop"
    using range facts offset_of_ends [of "st_extent st bid"] by auto
  ultimately show ?thesis by simp
qed

lemma stream_blob_range_reads:
  assumes "stream_blob_range st emit bid start len path s = Ok s'"
  shows "reads emit (byte_at st (MAX_BLOB_DEPTH - length path) bid) start (start + len) s s'"
  using assms
proof (induction "MAX_BLOB_DEPTH - length path" arbitrary: bid start len path s s')
  case 0
  with stream_blob_range_Ok(1) [OF "0.prems"] show ?case by simp
next
  case (Suc n)
  note run = Suc.prems [unfolded stream_blob_range_unfold [OF stream_blob_range_Ok [OF Suc.prems]]]
  from run obtain meta stop where meta: "load_blob st bid = Ok meta" and stop: "checked_end start len (bm_size meta) = Ok stop"
    by auto
  obtain row where row: "st_blob st bid = Some row" "row_ok row (bm_kind meta)" and
    meta_eq: "bm_id meta = bid" "bm_size meta = row_size row" "bm_chunk_size meta = row_chunk_size row"
    using meta unfolding load_blob_Inr by (metis BlobMeta.select_convs(1-3))
  have range: "0 \<le> start" "0 \<le> len" "stop = start + len" "stop \<le> row_size row"
    using stop by (simp_all add: checked_end_Inr meta_eq)
  have n: "n = MAX_BLOB_DEPTH - length (path @ [bid])" using Suc.hyps(2) by simp
  have cs: "0 < row_chunk_size row" using row by (simp add: row_ok_def)
  have "reads emit (byte_at st (Suc n) bid) start (start + len) s s'"
  proof (cases "bm_kind meta")
    case Inline
    with run meta stop have "emit_bounded_cell st emit bid None start len s = Ok s'" by simp
    then have "reads emit (cell_at st bid None) (start + 0) (start + len + 0) s s'"
      using range by (simp add: emit_bounded_cell_reads)
    then show ?thesis
      by (rule reads_shift) (use row range Inline in \<open>auto simp: cell_at_def cell_def row_ok_def kind_name_def\<close>)
  next
    case ChunkedKind
    show ?thesis
    proof (cases "len = 0")
      case True
      with run meta stop ChunkedKind show ?thesis by (auto simp: reads_refl)
    next
      case False
      with run meta stop ChunkedKind range cs meta_eq have "for_each (chunk_step st emit meta start stop)
          [start div bm_chunk_size meta..(stop - 1) div bm_chunk_size meta] s = Ok s'" by simp
      from chunk_loop_reads [OF this] False cs meta_eq range
      have "reads emit (\<lambda>i. cell_at st bid (Some (i div bm_chunk_size meta)) (i mod bm_chunk_size meta))
          (start + 0) (start + len + 0) s s'" by simp
      then show ?thesis
        by (rule reads_shift)
          (use row range ChunkedKind meta_eq in \<open>auto simp: cell_at_def cell_def row_ok_def kind_name_def bind_map_option comp_def\<close>)
    qed
  next
    case Composite
    with run meta stop obtain count where valid: "validate_extent_layout st meta = Ok count"
      and loop: "for_each (extent_turn st emit bid (row_size row) start stop path) [0..count - 1] s = Ok s'" by (auto simp: meta_eq)
    have "byte_at st (Suc n) bid i = Option.bind (find (extent_holds i) (st_extent st bid))
        (\<lambda>e. byte_at st n (ex_source_blob_id e) (ex_source_offset e + (i - ex_logical_offset e)))"
      if "start \<le> i" "i < stop" for i
      using that row range Composite by (simp add: row_ok_def kind_name_def)
    with Suc.hyps(1) [OF n, folded n] have "reads emit (byte_at st (Suc n) bid) start stop s s'"
      using range by (intro extent_loop_reads [OF loop valid meta_eq(1,2), where n = n]) simp_all
    then show ?thesis by (simp add: range)
  qed
  then show ?case by (simp add: Suc.hyps(2) [symmetric])
qed

end
