(* ===== verification/BlobSound.thy ===== *)
theory BlobSound
  imports BlobRead
begin

text \<open>
  Sound blobs of \<^verbatim>\<open>hash.rs\<close>: a declarative account of the rows a well-formed blob has, and that a traversal of
  such a blob never reports corruption.  The layout checks, which only see aggregates, accept it, and the
  depth bound and the cycle check do not stand in its way.
\<close>

section \<open>Sound blobs\<close>

text \<open>
  A declarative account of a sound blob: the row, the dense chunk rows of the right lengths, the extents
  that tile the blob with ranges of sound sources, nested at most \<open>n\<close> deep.
\<close>

definition dense_keys :: "('a \<Rightarrow> int) \<Rightarrow> 'a list \<Rightarrow> bool" where
  "dense_keys key rows \<longleftrightarrow> map key (sort_key key rows) = [0..int (length rows) - 1] \<and> int (length rows) \<le> 2 ^ 31"

definition chunks_sound :: "Store \<Rightarrow> bytes \<Rightarrow> BlobRow \<Rightarrow> bool" where
  "chunks_sound st bid row \<longleftrightarrow>
     (let rows = st_chunk st bid; cs = row_chunk_size row; sz = row_size row in
      dense_keys ck_seq rows \<and> int (length rows) = (if sz = 0 then 0 else (sz - 1) div cs + 1)
      \<and> list_all (\<lambda>c. int (length (ck_data c)) = min cs (sz - ck_seq c * cs)) rows)"

definition extents_sound :: "Store \<Rightarrow> bytes \<Rightarrow> BlobRow \<Rightarrow> bool" where
  "extents_sound st bid row \<longleftrightarrow>
     (let rows = st_extent st bid in
      dense_keys ex_seq rows \<and> sum_list (map ex_length rows) = row_size row
      \<and> list_all (\<lambda>e. 0 \<le> ex_length e \<and> 0 \<le> ex_source_offset e \<and> length (ex_source_blob_id e) = 32
          \<and> ex_logical_offset e = offset_of rows (ex_seq e)
          \<and> (case st_blob st (ex_source_blob_id e) of None \<Rightarrow> False
             | Some source \<Rightarrow> ex_source_offset e + ex_length e \<le> row_size source)) rows)"

fun sound_blob :: "Store \<Rightarrow> nat \<Rightarrow> bytes \<Rightarrow> bool" where
  "sound_blob st 0 bid = False"
| "sound_blob st (Suc n) bid =
     (case st_blob st bid of
        None \<Rightarrow> False
      | Some row \<Rightarrow>
          i64_range (row_size row) \<and> i32_range (row_chunk_size row)
          \<and> (row_ok row Inline \<or> row_ok row ChunkedKind \<and> chunks_sound st bid row
             \<or> row_ok row Composite \<and> extents_sound st bid row
               \<and> list_all (\<lambda>e. sound_blob st n (ex_source_blob_id e)) (st_extent st bid)))"

lemma for_each_total: "(\<And>x s. x \<in> set xs \<Longrightarrow> \<exists>s'. body x s = Ok s') \<Longrightarrow> \<exists>s'. for_each body xs s = Ok s'"
proof (induction xs arbitrary: s)
  case (Cons x xs)
  obtain s1 where s1: "body x s = Ok s1" using Cons.prems by (meson list.set_intros(1))
  have "\<exists>s'. for_each body xs s1 = Ok s'" using Cons.prems by (intro Cons.IH) simp
  with s1 show ?case by simp
qed simp

lemma length_pg_substring:
  "0 \<le> offset \<Longrightarrow> 0 \<le> len \<Longrightarrow> offset + len \<le> int (length whole) \<Longrightarrow> int (length (pg_substring whole (offset + 1) len)) = len"
  by (simp add: pg_substring_def)

lemma emit_bounded_cell_total:
  assumes spi: "spi_failure st = (\<lambda>_. None)" and emit: "\<And>b s. \<exists>s'. emit b s = Ok s'"
    and cell: "cell st bid seq = Some whole" "int (length whole) < 2 ^ 31"
    and range: "0 \<le> offset" "0 \<le> len" "offset + len \<le> int (length whole)"
  shows "\<exists>s'. emit_bounded_cell st emit bid seq offset len s = Ok s'"
  using range
proof (induction "nat len" arbitrary: offset len s rule: less_induct)
  case less
  show ?case
  proof (cases "len > 0")
    case False
    then show ?thesis by (simp add: emit_bounded_cell.simps)
  next
    case True
    define amount where "amount = min len READ_BLOCK_BYTES"
    have amount: "0 < amount" "amount \<le> len" using True by (auto simp: amount_def READ_BLOCK_BYTES_def)
    let ?data = "pg_substring whole (offset + 1) amount"
    have "i32_range (offset + 1)" "i32_range amount" "i64_range (offset + amount)"
      using less.prems amount cell(2) by (auto simp: i32_range_def i64_range_def)
    then have "(case seq of Some q \<Rightarrow> fetch_chunk_slice st bid q offset amount | None \<Rightarrow> fetch_inline_slice st bid offset amount) = Ok ?data"
      using cell(1) spi by (cases seq) (auto simp: fetch_chunk_slice_def fetch_inline_slice_def cell_def split: bind_splits)
    moreover have "int (length ?data) = amount" using less.prems amount by (intro length_pg_substring) auto
    moreover obtain s1 where "emit ?data s = Ok s1" using emit by blast
    moreover obtain s' where "emit_bounded_cell st emit bid seq (offset + amount) (len - amount) s1 = Ok s'"
      using less.hyps [of "len - amount" "offset + amount" s1] less.prems amount by auto
    ultimately show ?thesis
      using True \<open>i64_range (offset + amount)\<close>
      by (subst emit_bounded_cell.simps) (simp add: Let_def flip: amount_def)
  qed
qed

lemma dense_keysD:
  assumes "dense_keys key rows"
  shows "distinct (map key rows)" "set (map key rows) = {0..int (length rows) - 1}"
proof -
  have sorted: "map key (sort_key key rows) = [0..int (length rows) - 1]" using assms by (simp add: dense_keys_def)
  then have "distinct (map key (sort_key key rows))" by simp
  then show "distinct (map key rows)" by (simp add: distinct_map)
  have "set (map key (sort_key key rows)) = {0..int (length rows) - 1}" unfolding sorted by simp
  then show "set (map key rows) = {0..int (length rows) - 1}" by simp
qed

lemma dense_layout_stats:
  assumes "dense_keys key rows" "spi_failure st action = None" "i64_range (sum_list sizes)" "0 \<le> sum_list sizes" "list_all (\<lambda>v. v) valid"
  shows "\<exists>stats. load_layout_stats st action (map key rows) sizes valid = Ok stats \<and> ls_count stats = int (length rows)
    \<and> dense_layout_error stats (int (length rows)) (sum_list sizes) = None"
proof (intro exI conjI)
  let ?n = "int (length rows)"
  let ?stats = "\<lparr>ls_count = int (length (map key rows)),
         ls_min_seq = (if map key rows = [] then None else Some (Min (set (map key rows)))),
         ls_max_seq = (if map key rows = [] then None else Some (Max (set (map key rows)))),
         ls_total_size = sum_list sizes, ls_rows_valid = list_all (\<lambda>v. v) valid\<rparr>"
  show "load_layout_stats st action (map key rows) sizes valid = Ok ?stats"
    unfolding load_layout_stats_Inr using assms by simp
  show "ls_count ?stats = ?n" by simp
  have "Min {0..?n - 1} = 0 \<and> Max {0..?n - 1} = ?n - 1" if "rows \<noteq> []"
  proof -
    have "0 \<le> ?n - 1" using that by (cases rows) simp_all
    then show ?thesis by (auto intro: Min_eqI Max_eqI)
  qed
  then show "dense_layout_error ?stats ?n (sum_list sizes) = None"
    unfolding dense_layout_error_None dense_keysD(2) [OF assms(1)] using assms(4,5) by auto
qed

lemma chunk_lengths_sum:
  assumes "0 < cs" "0 \<le> m" "m \<le> (if sz = 0 then 0 else (sz - 1) div cs + 1)" "0 \<le> sz"
  shows "sum_list (map (\<lambda>k. min cs (sz - k * cs)) [0..m - 1]) = min sz (m * cs)"
  using assms(2,3)
proof (induction m rule: int_ge_induct)
  case (step m)
  then have "sz \<noteq> 0" "m \<le> (sz - 1) div cs" by (auto split: if_splits)
  then have "m * cs \<le> (sz - 1) div cs * cs" using assms(1) by (simp add: mult_right_mono)
  then have "m * cs < sz" using div_bounds(1) [OF assms(1), of "sz - 1"] by linarith
  moreover have "[0..m + 1 - 1] = [0..m - 1] @ [m]" using step(1) by (simp add: upto_rec2)
  ultimately show ?case using step by (auto simp: distrib_right)
qed (use assms in simp)

lemma sum_list_by_key:
  assumes "dense_keys key rows" "\<And>r. r \<in> set rows \<Longrightarrow> f r = g (key r)"
  shows "sum_list (map f rows) = (sum_list (map g [0..int (length rows) - 1]) :: int)"
proof -
  have "sum_list (map f rows) = sum_list (map f (sort_key key rows))" by (simp add: sum_list_sort_key)
  also have "map f (sort_key key rows) = map g (map key (sort_key key rows))" using assms(2) by simp
  also have "map key (sort_key key rows) = [0..int (length rows) - 1]" using assms(1) by (simp add: dense_keys_def)
  finally show ?thesis .
qed


section \<open>Sound blobs are read\<close>

lemma dense_find:
  assumes "dense_keys key rows" "0 \<le> k" "k < int (length rows)"
  obtains r where "r \<in> set rows" "key r = k" "find (\<lambda>r. key r = k) rows = Some r"
proof -
  have "k \<in> set (map key rows)" using assms by (simp only: dense_keysD) simp
  then obtain r where r: "r \<in> set rows" "key r = k" by auto
  have "inj_on key (set rows)" using dense_keysD(1) [OF assms(1)] by (simp add: distinct_map)
  with r have "find (\<lambda>r. key r = k) rows = Some r" by (intro find_unique) (auto simp: inj_on_def)
  with r that show ?thesis by blast
qed

lemma validate_chunk_layout_sound:
  assumes "spi_failure st = (\<lambda>_. None)" "chunks_sound st (bm_id meta) row" "row_ok row ChunkedKind" "i64_range (row_size row)"
    and meta: "bm_size meta = row_size row" "bm_chunk_size meta = row_chunk_size row"
  shows "\<exists>n. validate_chunk_layout st meta = Ok n"
proof -
  let ?rows = "st_chunk st (bm_id meta)" let ?cs = "row_chunk_size row" let ?sz = "row_size row"
  let ?n = "if ?sz = 0 then 0 else (?sz - 1) div ?cs + 1"
  have sz: "0 \<le> ?sz" "0 < ?cs" using assms(3) by (simp_all add: row_ok_def)
  have dense: "dense_keys ck_seq ?rows" and n: "int (length ?rows) = ?n"
    and len: "\<And>c. c \<in> set ?rows \<Longrightarrow> int (length (ck_data c)) = min ?cs (?sz - ck_seq c * ?cs)"
    using assms(2) by (auto simp: chunks_sound_def Let_def list_all_iff)
  have below: "ck_seq c * ?cs < ?sz" if "c \<in> set ?rows" for c
  proof -
    have "ck_seq c \<in> set (map ck_seq ?rows)" using that by simp
    then have seq: "0 \<le> ck_seq c" "ck_seq c \<le> ?n - 1" unfolding dense_keysD(2) [OF dense] n by auto
    then have "ck_seq c * ?cs \<le> (?sz - 1) div ?cs * ?cs" using sz by (auto simp: mult_right_mono split: if_splits)
    then show ?thesis using div_bounds(1) [OF sz(2), of "?sz - 1"] by linarith
  qed
  have "sum_list (map (\<lambda>c. int (length (ck_data c))) ?rows) = sum_list (map (\<lambda>k. min ?cs (?sz - k * ?cs)) [0..?n - 1])"
    using sum_list_by_key [OF dense, where g = "\<lambda>k. min ?cs (?sz - k * ?cs)", OF len] n by simp
  also have "\<dots> = min ?sz (?n * ?cs)"
    using sz by (intro chunk_lengths_sum) (auto simp: pos_imp_zdiv_nonneg_iff)
  also have "\<dots> = ?sz" using div_bounds(2) [OF sz(2), of "?sz - 1"] sz by auto
  finally have total: "sum_list (map (\<lambda>c. int (length (ck_data c))) ?rows) = ?sz" .
  have valid: "list_all (\<lambda>v. v) (map (\<lambda>c. ck_seq c * ?cs < ?sz \<and> int (length (ck_data c)) = min ?cs (?sz - ck_seq c * ?cs)) ?rows)"
    using below len by (simp add: list_all_iff)
  have "\<exists>stats. load_layout_stats st ''validating a chunk layout'' (map ck_seq ?rows) (map (\<lambda>c. int (length (ck_data c))) ?rows)
      (map (\<lambda>c. ck_seq c * ?cs < ?sz \<and> int (length (ck_data c)) = min ?cs (?sz - ck_seq c * ?cs)) ?rows) = Ok stats
    \<and> ls_count stats = ?n \<and> dense_layout_error stats ?n ?sz = None"
    by (rule dense_layout_stats [OF dense _ _ _ valid, where sizes = "map (\<lambda>c. int (length (ck_data c))) ?rows", unfolded n total])
      (use assms(1,4) sz in simp_all)
  then show ?thesis using sz by (auto simp: validate_chunk_layout_def meta Let_def)
qed


lemma chunk_step_total:
  assumes spi: "spi_failure st = (\<lambda>_. None)" and emit: "\<And>b s. \<exists>s'. emit b s = Ok s'"
    and sound: "chunks_sound st (bm_id meta) row" "i32_range (row_chunk_size row)" "row_ok row ChunkedKind"
    and cs: "bm_chunk_size meta = row_chunk_size row" and range: "0 \<le> start" "start < stop" "stop \<le> row_size row"
    and k: "start div row_chunk_size row \<le> k" "k \<le> (stop - 1) div row_chunk_size row"
  shows "\<exists>s'. chunk_step st emit meta start stop k s = Ok s'"
proof -
  let ?cs = "row_chunk_size row" let ?rows = "st_chunk st (bm_id meta)"
  have pos: "0 < ?cs" using sound(3) by (simp add: row_ok_def)
  have dense: "dense_keys ck_seq ?rows" and n: "int (length ?rows) = (row_size row - 1) div ?cs + 1"
    and len: "\<And>c. c \<in> set ?rows \<Longrightarrow> int (length (ck_data c)) = min ?cs (row_size row - ck_seq c * ?cs)"
    using sound(1) range by (auto simp: chunks_sound_def Let_def list_all_iff)
  have "0 \<le> start div ?cs" using range pos by (simp add: pos_imp_zdiv_nonneg_iff)
  moreover have "(stop - 1) div ?cs \<le> (row_size row - 1) div ?cs" using range pos by (simp add: zdiv_mono1)
  ultimately have k_range: "0 \<le> k" "k < int (length ?rows)" using k n by simp_all
  then have k31: "k < 2 ^ 31" using dense by (simp add: dense_keys_def)
  obtain c where c: "c \<in> set ?rows" "ck_seq c = k" "find (\<lambda>c. ck_seq c = k) ?rows = Some c"
    using dense k_range by (rule dense_find)
  obtain a where a: "a = k * ?cs" by simp
  have "a \<le> (2 ^ 31 - 1) * (2 ^ 31 - 1)" unfolding a
    using k_range k31 pos sound(2) by (intro mult_mono) (auto simp: i32_range_def)
  moreover have "0 \<le> a" using k_range pos by (simp add: a)
  ultimately have "i32_range k" "i64_range a" "i64_range (a + ?cs)"
    using k_range k31 pos sound(2) by (auto simp: i32_range_def i64_range_def)
  note ranges = this [unfolded a]
  have "k * ?cs \<le> (stop - 1) div ?cs * ?cs" using k(2) pos by (simp add: mult_right_mono)
  then have lo: "k * ?cs < stop" using div_bounds(1) [OF pos, of "stop - 1"] by linarith
  have "(start div ?cs + 1) * ?cs \<le> (k + 1) * ?cs" using k(1) pos by (simp add: mult_right_mono)
  then have hi: "start < k * ?cs + ?cs" using div_bounds(2) [OF pos, of start] by (simp add: distrib_right)
  have "cell st (bm_id meta) (Some k) = Some (ck_data c)" by (simp add: cell_def c)
  then have "\<exists>s'. emit_bounded_cell st emit (bm_id meta) (Some k) (max start (k * ?cs) - k * ?cs)
      (min stop (k * ?cs + ?cs) - max start (k * ?cs)) s = Ok s'"
    using len [OF c(1)] c(2) lo hi range sound(2) pos
    by (intro emit_bounded_cell_total spi emit) (auto simp: i32_range_def)
  then show ?thesis using ranges by (simp add: chunk_step_def Let_def cs i32_try_from_def)
qed

lemma extents_sound_tile: "extents_sound st bid row \<Longrightarrow> extents_tile (st_extent st bid)"
proof -
  assume sound: "extents_sound st bid row"
  let ?rows = "st_extent st bid" let ?sorted = "sort_key ex_seq ?rows"
  have seqs: "map ex_seq ?sorted = [0..int (length ?rows) - 1]" and
    row: "\<And>e. e \<in> set ?rows \<Longrightarrow> 0 \<le> ex_length e \<and> ex_logical_offset e = offset_of ?rows (ex_seq e)"
    using sound by (auto simp: extents_sound_def Let_def list_all_iff dense_keys_def)
  have at: "ex_seq (?sorted ! nat k) = k \<and> ?sorted ! nat k \<in> set ?rows" if "0 \<le> k" "k < int (length ?rows)" for k
  proof -
    have k: "nat k < length ?sorted" using that by simp
    have "map ex_seq ?sorted ! nat k = k" unfolding seqs using that by (simp add: nth_upto)
    with k show ?thesis by simp (metis k nth_mem set_sort)
  qed
  have "0 \<le> ex_seq e \<and> ex_seq e < int (length ?rows)" if "e \<in> set ?rows" for e
  proof -
    have "ex_seq e \<in> set (map ex_seq ?sorted)" using that by simp
    then show ?thesis unfolding seqs by auto
  qed
  with at row show ?thesis unfolding extents_tile_def by metis
qed

lemma validate_extent_layout_sound:
  assumes "spi_failure st = (\<lambda>_. None)" "extents_sound st (bm_id meta) row" "i64_range (row_size row)" "0 \<le> row_size row"
    and meta: "bm_size meta = row_size row"
  shows "validate_extent_layout st meta = Ok (int (length (st_extent st (bm_id meta))))"
proof -
  let ?rows = "st_extent st (bm_id meta)" let ?sorted = "sort_key ex_seq ?rows"
  have dense: "dense_keys ex_seq ?rows" and total: "sum_list (map ex_length ?rows) = row_size row"
    and source: "\<And>e. e \<in> set ?rows \<Longrightarrow> \<exists>s. st_blob st (ex_source_blob_id e) = Some s \<and> ex_source_offset e + ex_length e \<le> row_size s \<and> 0 \<le> ex_length e"
    using assms(2) by (auto simp: extents_sound_def Let_def list_all_iff split: option.splits)
  note tile = extents_sound_tile [OF assms(2)]
  have valid: "list_all (\<lambda>v. v) (extent_rows_valid st ?rows)"
  proof -
    have "ex_logical_offset (?sorted ! i) = sum_list (map ex_length (take i ?sorted))
        \<and> (case st_blob st (ex_source_blob_id (?sorted ! i)) of None \<Rightarrow> False
           | Some s \<Rightarrow> ex_source_offset (?sorted ! i) \<le> row_size s \<and> ex_length (?sorted ! i) \<le> row_size s - ex_source_offset (?sorted ! i))"
      if "i < length ?rows" for i
    proof -
      have "?sorted ! i \<in> set ?rows" "ex_logical_offset (?sorted ! i) = sum_list (map ex_length (take i ?sorted))"
        using tile_at [OF tile, of "int i"] that by (simp_all add: offset_of_def)
      with source [of "?sorted ! i"] show ?thesis by auto
    qed
    then show ?thesis by (simp add: extent_rows_valid_def Let_def list_all_length)
  qed
  have "\<exists>stats. load_layout_stats st ''validating an extent layout'' (map ex_seq ?rows) (map ex_length ?rows) (extent_rows_valid st ?rows) = Ok stats
    \<and> ls_count stats = int (length ?rows) \<and> dense_layout_error stats (int (length ?rows)) (row_size row) = None"
    by (rule dense_layout_stats [OF dense _ _ _ valid, where sizes = "map ex_length ?rows", unfolded total])
      (use assms(1,3,4) in simp_all)
  then show ?thesis by (auto simp: validate_extent_layout_def meta Let_def)
qed


lemma extent_turn_total:
  assumes spi: "spi_failure st = (\<lambda>_. None)" and sound: "extents_sound st bid row" and range: "0 \<le> start" "start \<le> stop" "stop \<le> row_size row"
    and sizes: "0 \<le> row_size row" "i64_range (row_size row)"
    and sources: "\<And>e source. e \<in> set (st_extent st bid) \<Longrightarrow> st_blob st (ex_source_blob_id e) = Some source \<Longrightarrow> i64_range (row_size source)"
    and inner: "\<And>e source pos len s. e \<in> set (st_extent st bid) \<Longrightarrow> st_blob st (ex_source_blob_id e) = Some source \<Longrightarrow>
      0 \<le> pos \<Longrightarrow> 0 \<le> len \<Longrightarrow> pos + len \<le> row_size source \<Longrightarrow>
      \<exists>s'. stream_blob_range st emit (ex_source_blob_id e) pos len (path @ [bid]) s = Ok s'"
    and k: "0 \<le> k" "k < int (length (st_extent st bid))"
  shows "\<exists>s'. extent_turn st emit bid (row_size row) start stop path k s = Ok s'"
proof -
  let ?rows = "st_extent st bid"
  note tile = extents_sound_tile [OF sound]
  define e where "e = sort_key ex_seq ?rows ! nat k"
  note at = tile_at [OF tile k, folded e_def]
  have found: "find (\<lambda>x. ex_seq x = k) ?rows = Some e" using find_seq [OF tile k] by (simp add: e_def)
  obtain source where src: "st_blob st (ex_source_blob_id e) = Some source" "ex_source_offset e + ex_length e \<le> row_size source"
    "0 \<le> ex_source_offset e" "length (ex_source_blob_id e) = 32" "int (length ?rows) \<le> 2 ^ 31"
    and total: "sum_list (map ex_length ?rows) = row_size row"
    using sound at(1) by (auto simp: extents_sound_def Let_def list_all_iff dense_keys_def split: option.splits)
  have offsets: "0 \<le> ex_logical_offset e" "ex_logical_offset e + ex_length e \<le> row_size row"
    using offset_of_mono [OF tile, of 0 k] offset_of_mono [OF tile, of "k + 1" "int (length ?rows)"] k at
      offset_of_Suc [OF tile k, folded e_def] offset_of_ends [of ?rows] total by simp_all
  let ?from = "max start (ex_logical_offset e)" let ?to = "min stop (ex_logical_offset e + ex_length e)"
  have i64: "i64_range (ex_logical_offset e + ex_length e)" using offsets at(4) sizes by (auto simp: i64_range_def)
  show ?thesis
  proof (cases "ex_length e = 0 \<or> ex_logical_offset e \<ge> stop \<or> ex_logical_offset e + ex_length e \<le> start")
    case True
    then show ?thesis
      using k src(4,5) offsets at(4) sizes i64 spi
      by (auto simp: extent_turn_def load_extent_def found checked_end_def range_end_def parse_blob_id_def
          spi_or_error_def i32_try_from_def i32_range_def)
  next
    case False
    let ?pos = "ex_source_offset e + (?from - ex_logical_offset e)"
    have pos: "0 \<le> ?pos" "?from \<le> ?to" "?pos + (?to - ?from) \<le> row_size source" using src False at(4) range(2) by auto
    then obtain s' where "stream_blob_range st emit (ex_source_blob_id e) ?pos (?to - ?from) (path @ [bid]) s = Ok s'"
      using inner [OF at(1) src(1), of ?pos "?to - ?from" s] by auto
    moreover have "i64_range ?pos" using pos sources [OF at(1) src(1)] by (auto simp: i64_range_def)
    ultimately show ?thesis
      using False k src(4,5) offsets at(4) sizes i64 spi
      by (auto simp: extent_turn_def load_extent_def found checked_end_def range_end_def parse_blob_id_def
          spi_or_error_def i32_try_from_def i32_range_def Let_def)
  qed
qed

lemma sound_blob_mono: "sound_blob st n bid \<Longrightarrow> n \<le> m \<Longrightarrow> sound_blob st m bid"
proof (induction n arbitrary: m bid)
  case (Suc n)
  then obtain k where "m = Suc k" "n \<le> k" by (cases m) auto
  with Suc show ?case by (auto simp: list_all_iff split: option.splits)
qed simp

lemma sound_blob_least:
  assumes "sound_blob st n bid"
  obtains m where "Suc m \<le> n" "sound_blob st (Suc m) bid" "\<not> sound_blob st m bid"
  using assms
proof (induction n)
  case (Suc n)
  then show ?case by (cases "sound_blob st n bid") (metis le_SucI, blast)
qed simp

lemma load_blob_sound:
  assumes "spi_failure st = (\<lambda>_. None)" "st_blob st bid = Some row" "row_ok row kind"
  shows "load_blob st bid = Ok \<lparr>bm_id = bid, bm_size = row_size row, bm_chunk_size = row_chunk_size row, bm_kind = kind\<rparr>"
  unfolding load_blob_Inr using assms by simp


lemma stream_at_row:
  assumes "spi_failure st = (\<lambda>_. None)" "length path < MAX_BLOB_DEPTH" "bid \<notin> set path" "st_blob st bid = Some row" "row_ok row kind"
    "checked_end start len (row_size row) = Ok stop"
  defines "meta \<equiv> \<lparr>bm_id = bid, bm_size = row_size row, bm_chunk_size = row_chunk_size row, bm_kind = kind\<rparr>"
  shows "stream_blob_range st emit bid start len path s = (case kind of
       Inline \<Rightarrow> emit_bounded_cell st emit bid None start len s
     | ChunkedKind \<Rightarrow>
         rbind (validate_chunk_layout st meta) (\<lambda>_.
         if len > 0 then
           for_each (chunk_step st emit meta start stop)
             [trunc_div start (row_chunk_size row)..trunc_div (stop - 1) (row_chunk_size row)] s
         else Ok s)
     | Composite \<Rightarrow>
         rbind (validate_extent_layout st meta) (\<lambda>count.
         for_each (extent_turn st emit bid (row_size row) start stop path) [0..count - 1] s))"
  unfolding stream_blob_range_unfold [OF assms(2,3)] load_blob_sound [OF assms(1,4,5)] meta_def
  by (simp only: rbind_simps assms(6) BlobMeta.simps)

lemma stream_blob_range_total:
  assumes spi: "spi_failure st = (\<lambda>_. None)" and emit: "\<And>b s. \<exists>s'. emit b s = Ok s'"
  shows "sound_blob st n bid \<Longrightarrow> length path + n \<le> MAX_BLOB_DEPTH \<Longrightarrow> list_all (\<lambda>p. \<not> sound_blob st n p) path \<Longrightarrow>
    st_blob st bid = Some row \<Longrightarrow> 0 \<le> start \<Longrightarrow> 0 \<le> len \<Longrightarrow> start + len \<le> row_size row \<Longrightarrow>
    \<exists>s'. stream_blob_range st emit bid start len path s = Ok s'"
proof (induction n arbitrary: bid row start len path s rule: less_induct)
  case (less n)
  obtain m where m: "Suc m \<le> n" "sound_blob st (Suc m) bid" "\<not> sound_blob st m bid"
    using less.prems(1) by (rule sound_blob_least)
  have path: "length path < MAX_BLOB_DEPTH" "bid \<notin> set path"
    using less.prems(1-3) m(1) by (auto simp: list_all_iff)
  have sizes: "i64_range (row_size row)" "i32_range (row_chunk_size row)" using m(2) less.prems(4) by auto
  have stop: "checked_end start len (row_size row) = Ok (start + len)"
    using less.prems sizes by (auto simp: checked_end_Inr i64_range_def)
  note unfold = stream_at_row [OF spi path less.prems(4) _ stop]
  consider "row_ok row Inline" | "row_ok row ChunkedKind" "chunks_sound st bid row"
    | "row_ok row Composite" "extents_sound st bid row" "list_all (\<lambda>e. sound_blob st m (ex_source_blob_id e)) (st_extent st bid)"
    using m(2) less.prems(4) by auto
  then show ?case
  proof cases
    case 1
    then obtain data where "row_inline row = Some data" "int (length data) = row_size row" "row_size row \<le> 2 ^ 31 - 2"
      by (auto simp: row_ok_def)
    then show ?thesis
      unfolding unfold [OF 1] StorageKind.case
      using less.prems(4-7) by (intro emit_bounded_cell_total spi emit) (auto simp: cell_def)
  next
    case 2
    let ?meta = "\<lparr>bm_id = bid, bm_size = row_size row, bm_chunk_size = row_chunk_size row, bm_kind = ChunkedKind\<rparr>"
    obtain count where "validate_chunk_layout st ?meta = Ok count"
      using validate_chunk_layout_sound [OF spi, of ?meta row] 2 sizes by auto
    moreover have "\<exists>s'. for_each (chunk_step st emit ?meta start (start + len))
        [start div row_chunk_size row..(start + len - 1) div row_chunk_size row] s = Ok s'" if "0 < len"
      using 2 sizes less.prems(5-7) that
      by (intro for_each_total chunk_step_total [OF spi emit, where row = row]) auto
    ultimately show ?thesis
      unfolding unfold [OF 2(1)] StorageKind.case using less.prems(5) by (simp add: trunc_div_nonneg)
  next
    case 3
    let ?meta = "\<lparr>bm_id = bid, bm_size = row_size row, bm_chunk_size = row_chunk_size row, bm_kind = Composite\<rparr>"
    have "\<exists>s'. extent_turn st emit bid (row_size row) start (start + len) path k s = Ok s'"
      if "k \<in> set [0..int (length (st_extent st bid)) - 1]" for k s
    proof (rule extent_turn_total [OF spi 3(2)])
      fix e source pos l u
      assume e: "e \<in> set (st_extent st bid)" and source: "st_blob st (ex_source_blob_id e) = Some source"
      have inner: "sound_blob st m (ex_source_blob_id e)" using 3(3) e by (simp add: list_all_iff)
      then show "i64_range (row_size source)" using source by (cases m) auto
      assume "0 \<le> pos" "0 \<le> l" "pos + l \<le> row_size source"
      moreover have "list_all (\<lambda>p. \<not> sound_blob st m p) (path @ [bid])"
        using less.prems(3) m sound_blob_mono [of st m _ n] by (auto simp: list_all_iff)
      ultimately show "\<exists>s'. stream_blob_range st emit (ex_source_blob_id e) pos l (path @ [bid]) u = Ok s'"
        using less.prems(2) m(1) by (intro less.IH [OF _ inner _ _ source]) auto
    qed (use that less.prems(5-7) sizes 3(1) in \<open>auto simp: row_ok_def\<close>)
    then have "\<exists>s'. for_each (extent_turn st emit bid (row_size row) start (start + len) path)
        [0..int (length (st_extent st bid)) - 1] s = Ok s'" by (rule for_each_total)
    then show ?thesis
      unfolding unfold [OF 3(1)] StorageKind.case
      using validate_extent_layout_sound [OF spi, of ?meta row] 3(1,2) sizes by (simp add: row_ok_def)
  qed
qed

end
