(* ===== verification/HashParts.thy ===== *)
theory HashParts
  imports BlobSound
begin

text \<open>
  The SQL entry points of \<^verbatim>\<open>hash.rs\<close>: verified reads, the digests of a staged part and the digest of a sequence
  of blobs, with the properties of the whole component.
\<close>

section \<open>Callbacks that accumulate\<close>

text \<open>The contract of a callback: what its state stands for grows by every block it accepts.\<close>

locale sink =
  fixes emit :: "bytes \<Rightarrow> 's \<Rightarrow> HashError + 's"
    and holds :: "'s \<Rightarrow> bytes \<Rightarrow> bool"
  assumes emit_holds: "holds s data \<Longrightarrow> emit block s = Ok s' \<Longrightarrow> holds s' (data @ block)"
begin

lemma for_each_holds: "for_each emit blocks s = Ok s' \<Longrightarrow> holds s data \<Longrightarrow> holds s' (data @ concat blocks)"
proof (induction blocks arbitrary: s data)
  case (Cons b blocks)
  then obtain s1 where s1: "emit b s = Ok s1" "for_each emit blocks s1 = Ok s'" by auto
  from Cons.IH [OF s1(2) emit_holds [OF Cons.prems(2) s1(1)]] show ?case by simp
qed simp

end

definition sha_emit :: "('s, 'm) Hashers \<Rightarrow> bytes \<Rightarrow> 's \<Rightarrow> HashError + 's" where
  "sha_emit H data s = Ok (sha_update H s data)"

definition sha_holds :: "('s, 'm) Hashers \<Rightarrow> 's \<Rightarrow> bytes \<Rightarrow> bool" where
  "sha_holds H s data \<longleftrightarrow> (hashers_incremental H \<longrightarrow> s = sha_update H (sha_new H) data)"

definition digests_hold :: "('s, 'm) Hashers \<Rightarrow> ('s, 'm) Digests \<Rightarrow> bytes \<Rightarrow> bool" where
  "digests_hold H d data \<longleftrightarrow>
     (hashers_incremental H \<longrightarrow> d = \<lparr>dg_sha256 = sha_update H (sha_new H) data, dg_md5 = md5_update H (md5_new H) data,
        dg_total_size = int (length data)\<rparr>)"

interpretation sha: sink "sha_emit H" "sha_holds H"
  by unfold_locales (auto simp: sha_emit_def sha_holds_def hashers_incremental_def)

interpretation digests: sink "Digests_update H" "digests_hold H"
  by unfold_locales (auto simp: digests_hold_def hashers_incremental_def Digests_update_def)

text \<open>The verifier in front of a callback: it passes every block on, and counts and hashes it.\<close>

definition verified_holds ::
    "('s, 'm) Hashers \<Rightarrow> (bytes \<Rightarrow> 'u \<Rightarrow> HashError + 'u) \<Rightarrow> 'u \<Rightarrow> 's \<times> int \<times> 'u \<Rightarrow> bytes \<Rightarrow> bool" where
  "verified_holds H emit u0 = (\<lambda>(verifier, count, u) data.
     sha_holds H verifier data \<and> count = int (length data)
     \<and> (\<exists>blocks. concat blocks = data \<and> for_each emit blocks u0 = Ok u))"

interpretation verified: sink "verify_emit H emit" "verified_holds H emit u0"
proof unfold_locales
  fix s s' :: "'a \<times> int \<times> 'c" and data block
  assume h: "verified_holds H emit u0 s data" and e: "verify_emit H emit block s = Ok s'"
  obtain v n u where s: "s = (v, n, u)" by (cases s)
  from e obtain u' where u': "emit block u = Ok u'" and s': "s' = (sha_update H v block, n + int (length block), u')"
    by (auto simp: s verify_emit_def Let_def)
  from h obtain blocks where "concat blocks = data" "for_each emit blocks u0 = Ok u" and v: "sha_holds H v data" "n = int (length data)"
    by (auto simp: s verified_holds_def)
  then have "concat (blocks @ [block]) = data @ block" "for_each emit (blocks @ [block]) u0 = Ok u'"
    using u' by (simp_all add: for_each_append rbind_def)
  then have "\<exists>blocks. concat blocks = data @ block \<and> for_each emit blocks u0 = Ok u'" by blast
  with v sha.emit_holds [OF v(1) sha_emit_def] show "verified_holds H emit u0 s' (data @ block)"
    by (simp add: s' verified_holds_def)
qed

text \<open>The whole content of a blob: as many bytes as its row records, each the byte the rows denote at its
  position, with the SHA-256 that is the blob's id.\<close>

definition blob_content :: "Store \<Rightarrow> ('s, 'm) Hashers \<Rightarrow> bytes \<Rightarrow> bytes \<Rightarrow> bool" where
  "blob_content st H bid data \<longleftrightarrow> sha256_of H data = bid
     \<and> map_option row_size (st_blob st bid) = Some (int (length data))
     \<and> map Some data = map (byte_at st MAX_BLOB_DEPTH bid) [0..int (length data) - 1]"

lemma sha_start: "sha_holds H (sha_new H) []" "digests_hold H (Digests_new H) []"
  by (simp_all add: sha_holds_def digests_hold_def Digests_new_def hashers_incremental_def)

lemma stream_verified_blob_content:
  assumes run: "stream_verified_blob st H emit bid u = Ok (sz, u')" and H: "hashers_incremental H"
  obtains blocks where "for_each emit blocks u = Ok u'" "blob_content st H bid (concat blocks)" "sz = int (length (concat blocks))"
proof -
  from run obtain meta v where meta: "load_blob st bid = Ok meta" "sz = bm_size meta" and digest: "sha_finalize H v = bid"
    and stream: "stream_blob_range st (verify_emit H emit) bid 0 sz [] (sha_new H, 0, u) = Ok (v, sz, u')"
    by (auto simp: stream_verified_blob_def split: if_splits)
  from stream_blob_range_reads [OF stream] obtain data
    where data: "emitted (verify_emit H emit) (sha_new H, 0, u) (v, sz, u') data"
      "map Some data = map (byte_at st MAX_BLOB_DEPTH bid) [0..sz - 1]"
    by (auto simp: reads_def)
  from data(1) obtain bs where bs: "for_each (verify_emit H emit) bs (sha_new H, 0, u) = Ok (v, sz, u')" "concat bs = data"
    by (auto simp: emitted_def)
  have "verified_holds H emit u (sha_new H, 0, u) []"
    by (auto simp: verified_holds_def sha_start intro!: exI [of _ "[]"])
  from verified.for_each_holds [OF bs(1) this] have "verified_holds H emit u (v, sz, u') data" by (simp add: bs(2))
  then obtain blocks where blocks: "concat blocks = data" "for_each emit blocks u = Ok u'" and v: "sha_holds H v data" "sz = int (length data)"
    by (auto simp: verified_holds_def)
  have "map_option row_size (st_blob st bid) = Some sz"
    using meta by (metis BlobMeta.simps(2) load_blob_Inr option.map(2))
  then have "blob_content st H bid data"
    using digest v data(2) H by (simp add: blob_content_def sha256_of_def sha_holds_def)
  with that blocks v show ?thesis by blast
qed

section \<open>Staged parts\<close>

definition staged_chunk :: "Store \<Rightarrow> ('s, 'm) Hashers \<Rightarrow> UploadChunkRow list \<Rightarrow> int \<Rightarrow> bytes \<Rightarrow> bool" where
  "staged_chunk st H rows k data \<longleftrightarrow>
     (\<exists>c \<in> set rows. uc_seq c = k \<and> uc_size c = int (length data) \<and> blob_content st H (uc_blob_id c) data)"

lemma find_in: "find P xs = Some x \<Longrightarrow> x \<in> set xs \<and> P x"
  by (metis find_Some_iff nth_mem)

lemma load_upload_chunk_Inr:
  assumes "load_upload_chunk st up pn seq = Ok (bid, sz)"
  obtains c where "c \<in> set (part_chunks st up pn)" "uc_seq c = seq" "bid = uc_blob_id c" "sz = uc_size c"
  using assms by (auto simp: load_upload_chunk_def parse_blob_id_def split: if_splits dest!: find_in)

lemma hash_chunk_step_holds:
  assumes "hash_chunk_step st H up pn k d = Ok d'" "hashers_incremental H" "digests_hold H d data"
  obtains chunk where "staged_chunk st H (part_chunks st up pn) k chunk" "digests_hold H d' (data @ chunk)"
proof -
  from assms(1) obtain bid sz where load: "load_upload_chunk st up pn k = Ok (bid, sz)"
    and run: "stream_verified_blob st H (Digests_update H) bid d = Ok (sz, d')"
    by (auto simp: hash_chunk_step_def split: if_splits)
  obtain blocks where blocks: "for_each (Digests_update H) blocks d = Ok d'" "blob_content st H bid (concat blocks)"
    "sz = int (length (concat blocks))"
    using run assms(2) by (rule stream_verified_blob_content)
  obtain c where "c \<in> set (part_chunks st up pn)" "uc_seq c = k" "bid = uc_blob_id c" "sz = uc_size c"
    using load by (rule load_upload_chunk_Inr)
  with blocks have "staged_chunk st H (part_chunks st up pn) k (concat blocks)" by (auto simp: staged_chunk_def)
  with digests.for_each_holds [OF blocks(1) assms(3)] that show ?thesis by blast
qed

lemma hash_chunks_hold:
  assumes "for_each (hash_chunk_step st H up pn) ks d = Ok d'" "hashers_incremental H" "digests_hold H d data"
  shows "\<exists>parts. list_all2 (staged_chunk st H (part_chunks st up pn)) ks parts \<and> digests_hold H d' (data @ concat parts)"
  using assms(1,3)
proof (induction ks arbitrary: d data)
  case Nil
  then show ?case by (intro exI [of _ "[]"]) simp
next
  case (Cons k ks)
  then obtain d1 where d1: "hash_chunk_step st H up pn k d = Ok d1" "for_each (hash_chunk_step st H up pn) ks d1 = Ok d'" by auto
  obtain chunk where chunk: "staged_chunk st H (part_chunks st up pn) k chunk" "digests_hold H d1 (data @ chunk)"
    using d1(1) assms(2) Cons.prems(2) by (rule hash_chunk_step_holds)
  obtain parts where "list_all2 (staged_chunk st H (part_chunks st up pn)) ks parts" "digests_hold H d' ((data @ chunk) @ concat parts)"
    using Cons.IH [OF d1(2) chunk(2)] by blast
  with chunk(1) show ?case by (intro exI [of _ "chunk # parts"]) simp
qed

lemma sequence_step_holds:
  assumes "sequence_step st H bid (s, n) = Ok (s', n')" "hashers_incremental H" "sha_holds H s data"
  obtains blob where "blob_content st H bid blob" "n' = n + int (length blob)" "sha_holds H s' (data @ blob)"
proof -
  from assms(1) obtain sz where run: "stream_verified_blob st H (sha_emit H) bid s = Ok (sz, s')" "n' = n + sz"
    by (auto simp: sequence_step_def sha_emit_def [abs_def])
  obtain blocks where "for_each (sha_emit H) blocks s = Ok s'" "blob_content st H bid (concat blocks)"
    "sz = int (length (concat blocks))"
    using run(1) assms(2) by (rule stream_verified_blob_content)
  with sha.for_each_holds [OF this(1) assms(3)] run(2) that show ?thesis by blast
qed

lemma sequence_holds:
  assumes "for_each (sequence_step st H) ids (s, n) = Ok (s', n')" "hashers_incremental H" "sha_holds H s data"
  shows "\<exists>blobs. list_all2 (blob_content st H) ids blobs \<and> sha_holds H s' (data @ concat blobs) \<and> n' = n + int (length (concat blobs))"
  using assms(1,3)
proof (induction ids arbitrary: s n data)
  case Nil
  then show ?case by (intro exI [of _ "[]"]) simp
next
  case (Cons bid ids)
  then obtain s1 n1 where step: "sequence_step st H bid (s, n) = Ok (s1, n1)" "for_each (sequence_step st H) ids (s1, n1) = Ok (s', n')"
    by auto
  obtain blob where blob: "blob_content st H bid blob" "n1 = n + int (length blob)" "sha_holds H s1 (data @ blob)"
    using step(1) assms(2) Cons.prems(2) by (rule sequence_step_holds)
  obtain blobs where "list_all2 (blob_content st H) ids blobs" "sha_holds H s' ((data @ blob) @ concat blobs)"
    "n' = n1 + int (length (concat blobs))"
    using Cons.IH [OF step(2) blob(3)] by blast
  with blob(1,2) show ?case by (intro exI [of _ "blob # blobs"]) simp
qed

section \<open>Properties\<close>

text \<open>C2. A traversal refines the abstract blob: whenever \<open>stream_blob_range\<close> returns, the callback has been
  given, in order and in non-empty blocks of at most \<open>READ_BLOCK_BYTES\<close>, exactly the bytes that the rows of the
  store denote at the positions of the range, whichever way the blob is stored and however extents nest.\<close>

theorem blob_range_refinement:
  assumes "stream_blob_range st emit bid start len [] s = Ok s'"
  shows "\<exists>blocks. for_each emit blocks s = Ok s'
    \<and> map Some (concat blocks) = map (byte_at st MAX_BLOB_DEPTH bid) [start..start + len - 1]
    \<and> list_all (\<lambda>b. 0 < length b \<and> int (length b) \<le> READ_BLOCK_BYTES) blocks"
  using stream_blob_range_reads [OF assms] by (auto simp: reads_def emitted_def)

text \<open>C18. A sound blob is always read: when the rows of a blob and of the blobs it refers to are sound, nested at
  most 64 deep, and neither the database nor the callback fails, every range inside the blob is
  delivered; no check of the traversal rejects it.\<close>

theorem sound_blob_delivered:
  assumes "spi_failure st = (\<lambda>_. None)" and "\<And>b s. \<exists>s'. emit b s = Ok s'"
    and "sound_blob st MAX_BLOB_DEPTH bid" and "st_blob st bid = Some row"
    and "0 \<le> start" and "0 \<le> len" and "start + len \<le> row_size row"
  shows "\<exists>s'. stream_blob_range st emit bid start len [] s = Ok s'"
  using assms by (intro stream_blob_range_total [where n = MAX_BLOB_DEPTH and row = row]) simp_all

text \<open>C22. The digests of a staged part are those of its content: whenever \<open>hash_upload_part\<close> returns, there is for
  each sequence number, from zero to the number of rows, a staged row whose blob id is the SHA-256 of
  the whole content of the blob, all the bytes its own row records, and whose recorded size is their number, and the results are the SHA-256,
  the hexadecimal MD5 and the length of these bytes in the order of the sequence numbers.\<close>

theorem hash_upload_part_digests:
  assumes "hash_upload_part st H upload_id part_number = Ok (sha256, md5, total_size)" and "hashers_incremental H"
  shows "\<exists>parts. list_all2 (staged_chunk st H (part_chunks st upload_id part_number))
      [0..int (length (part_chunks st upload_id part_number)) - 1] parts
    \<and> sha256 = sha256_of H (concat parts) \<and> md5 = lower_hex (md5_of H (concat parts)) \<and> total_size = int (length (concat parts))"
proof -
  let ?rows = "part_chunks st upload_id part_number"
  from assms(1) obtain stats d where stats: "upload_layout st upload_id part_number = Ok stats"
    and loop: "for_each (hash_chunk_step st H upload_id part_number) [0..ls_count stats - 1] (Digests_new H) = Ok d"
    and result: "(sha256, md5, total_size) = Digests_finish H d"
    by (auto simp: hash_upload_part_def Let_def split: if_splits option.splits)
  have "ls_count stats = int (length ?rows)"
    using stats by (auto simp: upload_layout_def Let_def load_layout_stats_Inr)
  with hash_chunks_hold [OF loop assms(2) sha_start(2)] obtain parts
    where "list_all2 (staged_chunk st H ?rows) [0..int (length ?rows) - 1] parts" "digests_hold H d (concat parts)" by auto
  with result assms(2) show ?thesis
    by (auto simp: digests_hold_def Digests_finish_def sha256_of_def md5_of_def)
qed

text \<open>C32. The digest of a sequence of blobs is that of their concatenation: whenever \<open>hash_blob_sequence\<close> returns,
  no id is null, every id is the SHA-256 of the whole content of its blob, as long as its row records, and the results are the SHA-256
  and the length of these bytes in the order of the ids.\<close>

theorem hash_blob_sequence_digest:
  assumes "hash_blob_sequence st H raw_ids = Ok (sha256, total_size)" and "hashers_incremental H"
  shows "\<exists>ids blobs. raw_ids = map Some ids \<and> list_all2 (blob_content st H) ids blobs
    \<and> sha256 = sha256_of H (concat blobs) \<and> total_size = int (length (concat blobs))"
proof -
  have ids: "raw_ids = map Some ids" if "collect_blob_ids raw_ids = Ok ids" for raw_ids ids
    using that by (induction raw_ids arbitrary: ids) (auto simp: parse_blob_id_def split: if_splits)
  from assms(1) obtain ids v where collected: "collect_blob_ids raw_ids = Ok ids"
    and loop: "for_each (sequence_step st H) ids (sha_new H, 0) = Ok (v, total_size)" and digest: "sha256 = sha_finalize H v"
    by (auto simp: hash_blob_sequence_def)
  from sequence_holds [OF loop assms(2) sha_start(1)] obtain blobs
    where "list_all2 (blob_content st H) ids blobs" "sha_holds H v (concat blobs)" "total_size = int (length (concat blobs))" by auto
  with ids [OF collected] digest assms(2) show ?thesis by (auto simp: sha_holds_def sha256_of_def)
qed

section \<open>Instances\<close>

text \<open>A store with an inline blob, a chunked blob and a composite of both, and a staged part.  The stand-in digest
  pads its input to 32 bytes.\<close>

definition demo_id :: "string \<Rightarrow> bytes" where
  "demo_id s = take 32 (ascii s @ replicate 32 0)"

definition demo_hashers :: "(bytes, bytes) Hashers" where
  "demo_hashers = \<lparr>sha_new = [], sha_update = (\<lambda>s b. s @ b), sha_finalize = (\<lambda>s. take 32 (s @ replicate 32 0)),
     md5_new = [], md5_update = (\<lambda>s b. s @ b), md5_finalize = (\<lambda>s. take 2 s)\<rparr>"

definition demo_store :: Store where
  "demo_store =
     \<lparr>st_blob = map_of
        [(demo_id ''ab'', \<lparr>row_size = 2, row_chunk_size = 4, row_storage_kind = ''inline'', row_inline = Some (ascii ''ab'')\<rparr>),
         (demo_id ''cde'', \<lparr>row_size = 3, row_chunk_size = 2, row_storage_kind = ''chunked'', row_inline = None\<rparr>),
         (demo_id ''abde'', \<lparr>row_size = 4, row_chunk_size = 2, row_storage_kind = ''composite'', row_inline = None\<rparr>)],
      st_chunk = (\<lambda>bid. if bid = demo_id ''cde''
        then [\<lparr>ck_seq = 1, ck_data = ascii ''e''\<rparr>, \<lparr>ck_seq = 0, ck_data = ascii ''cd''\<rparr>] else []),
      st_extent = (\<lambda>bid. if bid = demo_id ''abde''
        then [\<lparr>ex_seq = 0, ex_logical_offset = 0, ex_source_blob_id = demo_id ''ab'', ex_source_offset = 0, ex_length = 2\<rparr>,
              \<lparr>ex_seq = 1, ex_logical_offset = 2, ex_source_blob_id = demo_id ''cde'', ex_source_offset = 1, ex_length = 2\<rparr>]
        else []),
      st_upload = (\<lambda>_. Some \<lparr>up_multipart = True, up_state = ''pending''\<rparr>),
      st_upload_chunk = (\<lambda>_. [\<lparr>uc_part_number = 1, uc_seq = 1, uc_blob_id = demo_id ''cde'', uc_size = 3\<rparr>,
        \<lparr>uc_part_number = 1, uc_seq = 0, uc_blob_id = demo_id ''abde'', uc_size = 4\<rparr>]),
      spi_failure = (\<lambda>_. None), spi_no_row = []\<rparr>"

definition demo_emit :: "bytes \<Rightarrow> bytes \<Rightarrow> HashError + bytes" where
  "demo_emit b s = Ok (s @ b)"

lemma demo_range: "stream_blob_range demo_store demo_emit (demo_id ''abde'') 1 3 [] [] = Ok (ascii ''bde'')"
  by code_simp

lemma demo_sound: "sound_blob demo_store MAX_BLOB_DEPTH (demo_id ''abde'')"
  by code_simp

lemma demo_part: "hash_upload_part demo_store demo_hashers [] 1 = Ok (demo_id ''abdecde'', lower_hex (ascii ''ab''), 7)"
  by code_simp

lemma demo_sequence:
  "hash_blob_sequence demo_store demo_hashers [Some (demo_id ''ab''), Some (demo_id ''cde'')] = Ok (demo_id ''abcde'', 5)"
  by code_simp


lemma demo_store_facts: "spi_failure demo_store = (\<lambda>_. None)" "hashers_incremental demo_hashers" "\<exists>s'. demo_emit b s = Ok s'"
  by (simp_all add: demo_store_def hashers_incremental_def demo_hashers_def demo_emit_def)

lemma demo_row: "st_blob demo_store (demo_id ''abde'') =
    Some \<lparr>row_size = 4, row_chunk_size = 2, row_storage_kind = ''composite'', row_inline = None\<rparr>"
  by code_simp

theorem blob_range_refinement_witness:
  "stream_blob_range demo_store demo_emit (demo_id ''abde'') 1 3 [] [] = Ok (ascii ''bde'')
   \<and> (\<exists>blocks. for_each demo_emit blocks [] = Ok (ascii ''bde'')
       \<and> map Some (concat blocks) = map (byte_at demo_store MAX_BLOB_DEPTH (demo_id ''abde'')) [1..3])"
  using blob_range_refinement [OF demo_range] demo_range by auto

theorem sound_blob_delivered_witness:
  "sound_blob demo_store MAX_BLOB_DEPTH (demo_id ''abde'')
   \<and> (\<exists>s'. stream_blob_range demo_store demo_emit (demo_id ''abde'') 1 3 [] [] = Ok s')"
  using sound_blob_delivered [OF demo_store_facts(1) demo_store_facts(3) demo_sound demo_row, where start = 1 and len = 3] demo_sound by simp

theorem hash_upload_part_digests_witness:
  "hash_upload_part demo_store demo_hashers [] 1 = Ok (demo_id ''abdecde'', lower_hex (ascii ''ab''), 7)
   \<and> (\<exists>parts. list_all2 (staged_chunk demo_store demo_hashers (part_chunks demo_store [] 1))
       [0..int (length (part_chunks demo_store [] 1)) - 1] parts
     \<and> demo_id ''abdecde'' = sha256_of demo_hashers (concat parts))"
  using hash_upload_part_digests [OF demo_part demo_store_facts(2)] demo_part by blast

theorem hash_blob_sequence_digest_witness:
  "hash_blob_sequence demo_store demo_hashers [Some (demo_id ''ab''), Some (demo_id ''cde'')] = Ok (demo_id ''abcde'', 5)
   \<and> (\<exists>ids blobs. [Some (demo_id ''ab''), Some (demo_id ''cde'')] = map Some ids
     \<and> list_all2 (blob_content demo_store demo_hashers) ids blobs
     \<and> demo_id ''abcde'' = sha256_of demo_hashers (concat blobs) \<and> 5 = int (length (concat blobs)))"
  by (rule conjI [OF demo_sequence hash_blob_sequence_digest [OF demo_sequence demo_store_facts(2)]])

end
