(* ===== verification/ListXml.thy ===== *)
theory ListXml
  imports Route Calendar
begin

text \<open>
  \<^verbatim>\<open>s3/xml.rs\<close>: the listing documents, with their pagination.  A document under construction is the byte string
  written so far; strings are their UTF-8 bytes.
\<close>

section \<open>Records\<close>

record ListRecord =
  lr_key :: "bytes option"
  lr_common_prefix :: "bytes option"
  lr_version_id :: "int option"
  lr_size :: "int option"
  lr_etag :: "bytes option"
  lr_last_modified_ms :: "int option"
  lr_continuation_token :: "bytes option"

record VersionRecord =
  vr_key :: "bytes option"
  vr_common_prefix :: "bytes option"
  vr_version_id :: "int option"
  vr_is_latest :: "bool option"
  vr_delete_marker :: "bool option"
  vr_size :: "int option"
  vr_etag :: "bytes option"
  vr_last_modified_ms :: "int option"
  vr_next_key_marker :: "bytes option"
  vr_next_version_id_marker :: "int option"

record PartRecord =
  pr_part_number :: int
  pr_size :: int
  pr_etag :: bytes
  pr_sha256 :: bytes
  pr_completed_ms :: int

section \<open>Writing\<close>

definition escape_char :: "u8 \<Rightarrow> bytes" where
  "escape_char c =
     (if c = 0x26 then ascii ''&amp;'' else if c = 0x3c then ascii ''&lt;'' else if c = 0x3e then ascii ''&gt;''
      else if c = 0x22 then ascii ''&quot;'' else if c = 0x27 then ascii ''&apos;'' else [c])"

definition escape :: "bytes \<Rightarrow> bytes" where
  "escape value = concat (map escape_char value)"

definition element :: "string \<Rightarrow> bytes \<Rightarrow> bytes" where
  "element name value = [0x3c] @ ascii name @ [0x3e] @ escape value @ ascii ''</'' @ ascii name @ [0x3e]"

definition hex_char :: "u8 \<Rightarrow> u8" where
  "hex_char nibble = (if nibble < 10 then 0x30 + nibble else 0x41 + nibble - 10)"

fun url_encode_bytes :: "bytes \<Rightarrow> bool \<Rightarrow> bytes" where
  "url_encode_bytes [] preserve_slashes = []"
| "url_encode_bytes (b # bs) preserve_slashes =
     (if is_ascii_alphanumeric b \<or> b = 0x2d \<or> b = 0x5f \<or> b = 0x2e \<or> b = 0x7e \<or> preserve_slashes \<and> b = 0x2f then [b]
      else [0x25, hex_char (drop_bit 4 b), hex_char (b AND 0x0f)])
     @ url_encode_bytes bs preserve_slashes"

definition url_encode :: "bytes \<Rightarrow> bytes" where
  "url_encode value = url_encode_bytes value False"

definition url_encode_preserving_slashes :: "bytes \<Rightarrow> bytes" where
  "url_encode_preserving_slashes value = url_encode_bytes value True"

definition encoded_element :: "string \<Rightarrow> bytes \<Rightarrow> bool \<Rightarrow> bytes" where
  "encoded_element name value encode = (if encode then element name (url_encode value) else element name value)"

definition encoded_common_prefix :: "bytes \<Rightarrow> bool \<Rightarrow> bytes" where
  "encoded_common_prefix value encode =
     (if encode then element ''Prefix'' (url_encode_preserving_slashes value) else element ''Prefix'' value)"

definition bool_text :: "bool \<Rightarrow> bytes" where
  "bool_text value = (if value then ascii ''true'' else ascii ''false'')"

definition document :: "string \<Rightarrow> bytes" where
  "document root = ascii ''<?xml version='' @ [0x22] @ ascii ''1.0'' @ [0x22] @ ascii '' encoding='' @ [0x22] @ ascii ''UTF-8'' @ [0x22]
     @ ascii ''?><'' @ ascii root @ ascii '' xmlns='' @ [0x22] @ S3_XMLNS @ [0x22, 0x3e]"

definition close :: "bytes \<Rightarrow> string \<Rightarrow> bytes" where
  "close out root = out @ ascii ''</'' @ ascii root @ [0x3e]"

definition owner :: bytes where
  "owner = ascii ''<Owner>'' @ element ''ID'' (ascii ''pgs3'') @ element ''DisplayName'' (ascii ''pgs3'') @ ascii ''</Owner>''"

definition quoted :: "bytes \<Rightarrow> bytes" where
  "quoted value = [0x22] @ value @ [0x22]"

definition list_last :: "'a list \<Rightarrow> 'a option" where
  "list_last xs = (if xs = [] then None else Some (last xs))"

definition unwrap_or :: "'a option \<Rightarrow> 'a \<Rightarrow> 'a" where
  "unwrap_or v d = (case v of Some x \<Rightarrow> x | None \<Rightarrow> d)"

text \<open>\<^verbatim>\<open>if let Some(value) = v\<close> with an element as its body.\<close>

definition when_some :: "'a option \<Rightarrow> ('a \<Rightarrow> bytes) \<Rightarrow> bytes" where
  "when_some v f = (case v of Some x \<Rightarrow> f x | None \<Rightarrow> [])"

section \<open>Listings\<close>

definition is_list_truncated :: "int \<Rightarrow> ListRecord list \<Rightarrow> bool" where
  "is_list_truncated limit records \<longleftrightarrow> limit > 0 \<and> int (length records) = limit
     \<and> Option.bind (list_last records) lr_continuation_token \<noteq> None"

definition list_record :: "bool \<Rightarrow> ListRecord \<Rightarrow> bytes" where
  "list_record encode record =
     (case lr_common_prefix record of
        Some prefix \<Rightarrow> ascii ''<CommonPrefixes>'' @ encoded_common_prefix prefix encode @ ascii ''</CommonPrefixes>''
      | None \<Rightarrow>
          ascii ''<Contents>''
          @ encoded_element ''Key'' (unwrap_or (lr_key record) []) encode
          @ when_some (lr_last_modified_ms record) (\<lambda>last_modified. element ''LastModified'' (iso8601 last_modified))
          @ element ''ETag'' (quoted (unwrap_or (lr_etag record) []))
          @ element ''Size'' (dec_int (unwrap_or (lr_size record) 0))
          @ element ''StorageClass'' (ascii ''STANDARD'')
          @ ascii ''</Contents>'')"

definition append_list_records :: "ListRecord list \<Rightarrow> bool \<Rightarrow> bytes" where
  "append_list_records records encode = concat (map (list_record encode) records)"

definition list_objects_v1 :: "bytes \<Rightarrow> ListParams \<Rightarrow> ListRecord list \<Rightarrow> bytes" where
  "list_objects_v1 bucket params records =
     (let truncated = is_list_truncated (lp_max_keys params) records;
          next_marker = unwrap_or (Option.bind (list_last records) (\<lambda>record.
            case lr_key record of Some key \<Rightarrow> Some key | None \<Rightarrow> lr_common_prefix record)) [] in
      close (document ''ListBucketResult''
        @ element ''Name'' bucket
        @ element ''Prefix'' (lp_prefix params)
        @ encoded_element ''Marker'' (unwrap_or (lp_marker params) []) (lp_encoding_type_url params)
        @ (if truncated then encoded_element ''NextMarker'' next_marker (lp_encoding_type_url params) else [])
        @ element ''MaxKeys'' (dec_int (lp_max_keys params))
        @ when_some (lp_delimiter params) (element ''Delimiter'')
        @ (if lp_encoding_type_url params then element ''EncodingType'' (ascii ''url'') else [])
        @ element ''IsTruncated'' (bool_text truncated)
        @ append_list_records records (lp_encoding_type_url params)) ''ListBucketResult'')"

definition list_objects_v2 :: "bytes \<Rightarrow> ListParams \<Rightarrow> ListRecord list \<Rightarrow> bytes" where
  "list_objects_v2 bucket params records =
     (let truncated = is_list_truncated (lp_max_keys params) records in
      close (document ''ListBucketResult''
        @ element ''Name'' bucket
        @ element ''Prefix'' (lp_prefix params)
        @ element ''MaxKeys'' (dec_int (lp_max_keys params))
        @ element ''KeyCount'' (dec_nat (length records))
        @ when_some (lp_delimiter params) (element ''Delimiter'')
        @ when_some (lp_requested_continuation_token params) (element ''ContinuationToken'')
        @ when_some (lp_requested_start_after params) (\<lambda>start_after.
            encoded_element ''StartAfter'' start_after (lp_encoding_type_url params))
        @ (if lp_encoding_type_url params then element ''EncodingType'' (ascii ''url'') else [])
        @ element ''IsTruncated'' (bool_text truncated)
        @ (if truncated then when_some (Option.bind (list_last records) lr_continuation_token) (element ''NextContinuationToken'') else [])
        @ append_list_records records (lp_encoding_type_url params)) ''ListBucketResult'')"

definition version_record :: "bool \<Rightarrow> VersionRecord \<Rightarrow> bytes" where
  "version_record encode record =
     (case vr_common_prefix record of
        Some prefix \<Rightarrow> ascii ''<CommonPrefixes>'' @ encoded_common_prefix prefix encode @ ascii ''</CommonPrefixes>''
      | None \<Rightarrow>
          let tag = (if vr_delete_marker record = Some True then ''DeleteMarker'' else ''Version'') in
          [0x3c] @ ascii tag @ [0x3e]
          @ encoded_element ''Key'' (unwrap_or (vr_key record) []) encode
          @ element ''VersionId'' (dec_int (unwrap_or (vr_version_id record) 0))
          @ element ''IsLatest'' (bool_text (unwrap_or (vr_is_latest record) False))
          @ when_some (vr_last_modified_ms record) (\<lambda>last_modified. element ''LastModified'' (iso8601 last_modified))
          @ (if tag = ''Version'' then
               element ''ETag'' (quoted (unwrap_or (vr_etag record) []))
               @ element ''Size'' (dec_int (unwrap_or (vr_size record) 0))
               @ owner @ element ''StorageClass'' (ascii ''STANDARD'')
             else owner)
          @ ascii ''</'' @ ascii tag @ [0x3e])"

definition list_versions :: "bytes \<Rightarrow> VersionListParams \<Rightarrow> VersionRecord list \<Rightarrow> bytes" where
  "list_versions bucket params records =
     (let truncated = (vp_max_keys params > 0 \<and> int (length records) = vp_max_keys params
            \<and> Option.bind (list_last records) vr_next_key_marker \<noteq> None) in
      close (document ''ListVersionsResult''
        @ element ''Name'' bucket
        @ element ''Prefix'' (vp_prefix params)
        @ encoded_element ''KeyMarker'' (unwrap_or (vp_key_marker params) []) (vp_encoding_type_url params)
        @ when_some (vp_version_id_marker params) (\<lambda>version. element ''VersionIdMarker'' (dec_int version))
        @ (if truncated then
             when_some (vr_next_key_marker (last records)) (\<lambda>marker.
               encoded_element ''NextKeyMarker'' marker (vp_encoding_type_url params))
             @ when_some (vr_next_version_id_marker (last records)) (\<lambda>version.
               element ''NextVersionIdMarker'' (dec_int version))
           else [])
        @ element ''MaxKeys'' (dec_int (vp_max_keys params))
        @ when_some (vp_delimiter params) (element ''Delimiter'')
        @ (if vp_encoding_type_url params then element ''EncodingType'' (ascii ''url'') else [])
        @ element ''IsTruncated'' (bool_text truncated)
        @ concat (map (version_record (vp_encoding_type_url params)) records)) ''ListVersionsResult'')"

text \<open>The casts of \<^verbatim>\<open>max_parts\<close> to \<^verbatim>\<open>usize\<close> are of the 0 to 1000 that routing admits.\<close>

definition part_record :: "PartRecord \<Rightarrow> bytes" where
  "part_record part =
     ascii ''<Part>''
     @ element ''PartNumber'' (dec_int (pr_part_number part))
     @ element ''LastModified'' (iso8601 (pr_completed_ms part))
     @ element ''ETag'' (quoted (pr_etag part))
     @ element ''Size'' (dec_int (pr_size part))
     @ ascii ''</Part>''"

definition list_parts :: "bytes \<Rightarrow> bytes \<Rightarrow> bytes \<Rightarrow> int \<Rightarrow> int \<Rightarrow> PartRecord list \<Rightarrow> bytes" where
  "list_parts bucket key upload_id marker limit parts =
     (let eligible = filter (\<lambda>part. pr_part_number part > marker) parts;
          truncated = int (length eligible) > limit;
          page = take (min (length eligible) (nat limit)) eligible;
          next_marker = (case list_last page of Some part \<Rightarrow> pr_part_number part | None \<Rightarrow> marker) in
      close (document ''ListPartsResult''
        @ element ''Bucket'' bucket
        @ element ''Key'' key
        @ element ''UploadId'' upload_id
        @ element ''PartNumberMarker'' (dec_int marker)
        @ (if truncated then element ''NextPartNumberMarker'' (dec_int next_marker) else [])
        @ element ''MaxParts'' (dec_int limit)
        @ element ''IsTruncated'' (bool_text truncated)
        @ concat (map part_record page)) ''ListPartsResult'')"

text \<open>\<^verbatim>\<open>SystemTime\<close> as nanoseconds from the epoch.\<close>

definition system_time :: "int \<Rightarrow> int" where
  "system_time milliseconds = (if milliseconds \<ge> 0 then milliseconds * 1000000 else - (\<bar>milliseconds\<bar> * 1000000))"

section \<open>Reading the documents\<close>

text \<open>The texts of the leaf elements with a given name, as a reader of the document sees them.\<close>

fun texts :: "bytes \<Rightarrow> token list \<Rightarrow> bytes list" where
  "texts n [] = []"
| "texts n (TOpen a # ts) =
     (if a = n then (case ts of TText v # _ \<Rightarrow> [v] | _ \<Rightarrow> [[]]) else []) @ texts n ts"
| "texts n (TClose a # ts) = texts n ts"
| "texts n (TText v # ts) = texts n ts"

definition doc_texts :: "string \<Rightarrow> bytes \<Rightarrow> bytes list" where
  "doc_texts n doc = texts (ascii n) (lex doc)"

lemma escape_escaped: "escape v = escaped v"
proof -
  have "escape_char = escape_byte" by (rule ext) (simp add: escape_char_def escape_byte_def)
  then show ?thesis by (simp add: escape_def escaped_def)
qed

lemma lex_start: "name_ok n \<Longrightarrow> lex (xml_start n @ rest) = TOpen n # lex rest"
  using lex_tag [of n rest] by (auto simp: xml_start_def name_ok_def)

lemma lex_end: "0x3e \<notin> set n \<Longrightarrow> lex (xml_end n @ rest) = TClose n # lex rest"
  using lex_tag [of "0x2f # n" rest] by (simp add: xml_end_def)

lemma element_eq: "element n v = xml_start (ascii n) @ escaped v @ xml_end (ascii n)"
  by (simp add: element_def xml_start_def xml_end_def escape_escaped)

lemma lex_element:
  assumes "name_ok (ascii n)"
  shows "lex (element n v @ rest) = elem (ascii n) v @ lex rest"
proof (cases "v = []")
  case True
  then show ?thesis
    using assms by (simp add: element_eq lex_start lex_end elem_def escaped_def name_ok_def)
next
  case False
  have "lex (escaped v @ xml_end (ascii n) @ rest) = TText v # lex (xml_end (ascii n) @ rest)"
    using False by (intro lex_text) (simp_all add: xml_end_def)
  with False assms show ?thesis by (simp add: element_eq lex_start lex_end elem_def name_ok_def)
qed

lemma doc_texts_element:
  assumes "name_ok (ascii m)"
  shows "doc_texts n (element m v @ rest) = (if m = n then v # doc_texts n rest else doc_texts n rest)"
  using lex_element [OF assms, of v rest] by (simp add: doc_texts_def elem_def ascii_eq)

lemma doc_texts_tags:
  "name_ok (ascii m) \<Longrightarrow> m \<noteq> n \<Longrightarrow> doc_texts n (xml_start (ascii m) @ rest) = doc_texts n rest"
  "name_ok (ascii m) \<Longrightarrow> doc_texts n (xml_end (ascii m) @ rest) = doc_texts n rest"
  "name_ok (ascii m) \<Longrightarrow> doc_texts n (xml_end (ascii m)) = []"
  using lex_end [of "ascii m" "[]"]
  by (simp_all add: doc_texts_def lex_start lex_end ascii_eq name_ok_def)

lemma doc_texts_branches:
  "doc_texts n ((if c then a else b) @ rest) = (if c then doc_texts n (a @ rest) else doc_texts n (b @ rest))"
  "doc_texts n (when_some v f @ rest) = (case v of Some x \<Rightarrow> doc_texts n (f x @ rest) | None \<Rightarrow> doc_texts n rest)"
  "doc_texts n ([] @ rest) = doc_texts n rest"
  by (simp_all add: when_some_def split: option.splits)

lemma doc_texts_concat:
  assumes "\<And>r rest. doc_texts n (g r @ rest) = h r @ doc_texts n rest"
  shows "doc_texts n (concat (map g rs) @ rest) = concat (map h rs) @ doc_texts n rest"
  by (induction rs) (simp_all add: assms)

lemma lex_document:
  assumes "name_ok (ascii root)"
  shows "lex (document root @ rest) = prolog_token # ns_token (ascii root) # lex rest"
proof -
  have "document root = xml_start (tl (butlast xml_prolog)) @ xml_start (ascii root @ ascii '' xmlns='' @ [0x22] @ S3_XMLNS @ [0x22])"
    by (simp add: document_def xml_start_def xml_prolog_def)
  moreover have "name_ok (tl (butlast xml_prolog))" by (simp add: xml_prolog_def name_ok_def)
  moreover have "name_ok (ascii root @ ascii '' xmlns='' @ [0x22] @ S3_XMLNS @ [0x22])"
  proof -
    have "0x3e \<notin> set S3_XMLNS" "0x3e \<notin> set (ascii '' xmlns='')" "hd (ascii '' xmlns='') \<noteq> 0x2f" "ascii '' xmlns='' \<noteq> []"
      by (simp_all add: S3_XMLNS_def)
    with assms show ?thesis by (cases "ascii root") (simp_all add: name_ok_def hd_append del: ascii_Cons)
  qed
  ultimately show ?thesis by (simp add: lex_start prolog_token_def ns_token_def)
qed

definition plain_name :: "string \<Rightarrow> bool" where
  "plain_name n \<longleftrightarrow> 0x20 \<notin> set (ascii n)"

lemma doc_texts_document:
  assumes "name_ok (ascii root)" "plain_name n"
  shows "doc_texts n (document root @ rest) = doc_texts n rest"
proof -
  have "0x20 \<in> set (tl (butlast xml_prolog))" by (simp add: xml_prolog_def)
  then have "tl (butlast xml_prolog) \<noteq> ascii n" using assms(2) by (auto simp: plain_name_def)
  moreover have "ascii root @ ascii '' xmlns='' @ [0x22] @ S3_XMLNS @ [0x22] \<noteq> ascii n"
  proof
    have space: "0x20 \<in> set (ascii '' xmlns='')" by simp
    assume "ascii root @ ascii '' xmlns='' @ [0x22] @ S3_XMLNS @ [0x22] = ascii n"
    then have "set (ascii '' xmlns='') \<subseteq> set (ascii n)" by (metis Un_iff set_append subsetI)
    with space assms(2) show False unfolding plain_name_def by blast
  qed
  ultimately show ?thesis
    using lex_document [OF assms(1), of rest] by (simp add: doc_texts_def prolog_token_def ns_token_def)
qed

lemma tags:
  "ascii ''<Part>'' = xml_start (ascii ''Part'')" "ascii ''</Part>'' = xml_end (ascii ''Part'')"
  "ascii ''<Contents>'' = xml_start (ascii ''Contents'')" "ascii ''</Contents>'' = xml_end (ascii ''Contents'')"
  "ascii ''<CommonPrefixes>'' = xml_start (ascii ''CommonPrefixes'')" "ascii ''</CommonPrefixes>'' = xml_end (ascii ''CommonPrefixes'')"
  "ascii ''<Owner>'' = xml_start (ascii ''Owner'')" "ascii ''</Owner>'' = xml_end (ascii ''Owner'')"
  by (simp_all add: xml_start_def xml_end_def)

lemma tag_names:
  "[0x3c] @ ascii m @ [0x3e] @ rest = xml_start (ascii m) @ rest" "ascii ''</'' @ ascii m @ [0x3e] = xml_end (ascii m)"
  by (simp_all add: xml_start_def xml_end_def)

section \<open>Encoded text\<close>

lemma hex_char_upper: "unat n < 16 \<Longrightarrow> hex_char n = hex_upper_digit n"
  by (simp add: hex_char_def hex_digits)

lemma url_encode_aws: "url_encode_bytes v preserve = aws_encode v (\<not> preserve)"
  by (induction v) (auto simp: is_unreserved_def push_percent_encoded_def hex_char_upper nibble_bounds)

definition read_text :: "bool \<Rightarrow> bytes \<Rightarrow> bytes option" where
  "read_text encoded v = (if encoded then (case percent_decode v of Inr d \<Rightarrow> Some d | Inl _ \<Rightarrow> None) else Some v)"

lemma read_url_encoded:
  "read_text encoded (if encoded then url_encode v else v) = Some v"
  "read_text encoded (if encoded then url_encode_preserving_slashes v else v) = Some v"
  by (simp_all add: read_text_def url_encode_def url_encode_preserving_slashes_def url_encode_aws percent_decode_aws_encode)

lemma encoded_element_eq: "encoded_element n v e = element n (if e then url_encode v else v)"
  "encoded_common_prefix v e = element ''Prefix'' (if e then url_encode_preserving_slashes v else v)"
  by (simp_all add: encoded_element_def encoded_common_prefix_def)


section \<open>Records\<close>

lemma element_names [simp]:
  "name_ok (ascii ''Key'')" "name_ok (ascii ''Prefix'')" "name_ok (ascii ''LastModified'')" "name_ok (ascii ''ETag'')"
  "name_ok (ascii ''Size'')" "name_ok (ascii ''StorageClass'')" "name_ok (ascii ''Contents'')" "name_ok (ascii ''CommonPrefixes'')"
  "name_ok (ascii ''Owner'')" "name_ok (ascii ''ID'')" "name_ok (ascii ''DisplayName'')" "name_ok (ascii ''Version'')"
  "name_ok (ascii ''DeleteMarker'')" "name_ok (ascii ''VersionId'')" "name_ok (ascii ''IsLatest'')" "name_ok (ascii ''Part'')"
  "name_ok (ascii ''PartNumber'')" "name_ok (ascii ''Name'')" "name_ok (ascii ''Marker'')" "name_ok (ascii ''NextMarker'')"
  "name_ok (ascii ''MaxKeys'')" "name_ok (ascii ''Delimiter'')" "name_ok (ascii ''EncodingType'')" "name_ok (ascii ''IsTruncated'')"
  "name_ok (ascii ''KeyCount'')" "name_ok (ascii ''ContinuationToken'')" "name_ok (ascii ''StartAfter'')"
  "name_ok (ascii ''NextContinuationToken'')" "name_ok (ascii ''KeyMarker'')" "name_ok (ascii ''VersionIdMarker'')"
  "name_ok (ascii ''NextKeyMarker'')" "name_ok (ascii ''NextVersionIdMarker'')" "name_ok (ascii ''Bucket'')"
  "name_ok (ascii ''UploadId'')" "name_ok (ascii ''PartNumberMarker'')" "name_ok (ascii ''NextPartNumberMarker'')"
  "name_ok (ascii ''MaxParts'')" "name_ok (ascii ''ListBucketResult'')" "name_ok (ascii ''ListVersionsResult'')"
  "name_ok (ascii ''ListPartsResult'')"
  by (simp_all add: name_ok_def)

lemmas doc_reading = doc_texts_element doc_texts_tags doc_texts_branches tags tag_names encoded_element_eq

definition key_text :: "bool \<Rightarrow> bytes option \<Rightarrow> bytes" where
  "key_text encoded key = (if encoded then url_encode (unwrap_or key []) else unwrap_or key [])"

definition prefix_text :: "bool \<Rightarrow> bytes \<Rightarrow> bytes" where
  "prefix_text encoded p = (if encoded then url_encode_preserving_slashes p else p)"

lemma list_record_texts:
  "doc_texts ''Key'' (list_record e r @ rest) = (if lr_common_prefix r = None then [key_text e (lr_key r)] else []) @ doc_texts ''Key'' rest"
  "doc_texts ''Prefix'' (list_record e r @ rest) = map (prefix_text e) (case lr_common_prefix r of Some p \<Rightarrow> [p] | None \<Rightarrow> []) @ doc_texts ''Prefix'' rest"
  by (cases "lr_common_prefix r"; simp add: list_record_def doc_reading key_text_def prefix_text_def del: ascii_Cons split: option.splits)+

lemma owner_texts: "n \<notin> {''Owner'', ''ID'', ''DisplayName''} \<Longrightarrow> doc_texts n (owner @ rest) = doc_texts n rest"
  by (auto simp: owner_def doc_reading simp del: ascii_Cons)

lemma version_record_cases:
  "version_record e r =
     (case vr_common_prefix r of
        Some p \<Rightarrow> xml_start (ascii ''CommonPrefixes'') @ element ''Prefix'' (prefix_text e p) @ xml_end (ascii ''CommonPrefixes'')
      | None \<Rightarrow>
          (if vr_delete_marker r = Some True then xml_start (ascii ''DeleteMarker'') else xml_start (ascii ''Version''))
          @ element ''Key'' (key_text e (vr_key r))
          @ element ''VersionId'' (dec_int (unwrap_or (vr_version_id r) 0))
          @ element ''IsLatest'' (bool_text (unwrap_or (vr_is_latest r) False))
          @ when_some (vr_last_modified_ms r) (\<lambda>t. element ''LastModified'' (iso8601 t))
          @ (if vr_delete_marker r = Some True then owner @ xml_end (ascii ''DeleteMarker'')
             else element ''ETag'' (quoted (unwrap_or (vr_etag r) [])) @ element ''Size'' (dec_int (unwrap_or (vr_size r) 0))
               @ owner @ element ''StorageClass'' (ascii ''STANDARD'') @ xml_end (ascii ''Version'')))"
  by (cases "vr_delete_marker r = Some True")
    (simp_all add: version_record_def encoded_element_eq tags tag_names key_text_def prefix_text_def Let_def
      del: ascii_Cons split: option.splits, simp_all add: xml_start_def)

lemma version_record_texts:
  "doc_texts ''Key'' (version_record e r @ rest) = (if vr_common_prefix r = None then [key_text e (vr_key r)] else []) @ doc_texts ''Key'' rest"
  "doc_texts ''Prefix'' (version_record e r @ rest) = map (prefix_text e) (case vr_common_prefix r of Some p \<Rightarrow> [p] | None \<Rightarrow> []) @ doc_texts ''Prefix'' rest"
  by (cases "vr_common_prefix r"; simp add: version_record_cases doc_reading owner_texts del: ascii_Cons split: option.splits)+

lemma part_record_texts:
  "doc_texts ''PartNumber'' (part_record p @ rest) = [dec_int (pr_part_number p)] @ doc_texts ''PartNumber'' rest"
  "doc_texts ''IsTruncated'' (part_record p @ rest) = [] @ doc_texts ''IsTruncated'' rest"
  "doc_texts ''NextPartNumberMarker'' (part_record p @ rest) = [] @ doc_texts ''NextPartNumberMarker'' rest"
  by (simp_all add: part_record_def doc_reading del: ascii_Cons)


section \<open>Listings\<close>

lemma plain_names [simp]: "plain_name ''Key''" "plain_name ''Prefix''" "plain_name ''PartNumber''" "plain_name ''IsTruncated''"
  "plain_name ''NextPartNumberMarker''"
  by (simp_all add: plain_name_def)

lemma doc_texts_close: "name_ok (ascii root) \<Longrightarrow> doc_texts n (close out root) = doc_texts n (out @ xml_end (ascii root))"
  by (simp add: close_def xml_end_def)

text \<open>Pieces of a document without an element of the name.\<close>

definition silent :: "string \<Rightarrow> bytes \<Rightarrow> bool" where
  "silent n piece \<longleftrightarrow> (\<forall>rest. doc_texts n (piece @ rest) = doc_texts n rest)"

lemma silentD: "silent n piece \<Longrightarrow> doc_texts n (piece @ rest) = doc_texts n rest"
  by (simp add: silent_def)

lemma silent_simps:
  "name_ok (ascii m) \<Longrightarrow> m \<noteq> n \<Longrightarrow> silent n (element m v)"
  "name_ok (ascii m) \<Longrightarrow> m \<noteq> n \<Longrightarrow> silent n (encoded_element m v e)"
  "silent n []" "silent n a \<Longrightarrow> silent n b \<Longrightarrow> silent n (a @ b)"
  "silent n a \<Longrightarrow> silent n b \<Longrightarrow> silent n (if c then a else b)"
  "(\<And>x. silent n (f x)) \<Longrightarrow> silent n (when_some w f)"
  by (simp_all add: silent_def doc_texts_element encoded_element_eq when_some_def split: option.splits)

lemmas list_reading = silentD silent_simps doc_texts_element doc_texts_tags doc_texts_document doc_texts_close

lemma list_objects_keys:
  "doc_texts ''Key'' (list_objects_v1 b p rs) = concat (map (\<lambda>r. if lr_common_prefix r = None then [key_text (lp_encoding_type_url p) (lr_key r)] else []) rs)"
  "doc_texts ''Key'' (list_objects_v2 b p rs) = concat (map (\<lambda>r. if lr_common_prefix r = None then [key_text (lp_encoding_type_url p) (lr_key r)] else []) rs)"
  unfolding list_objects_v1_def list_objects_v2_def append_list_records_def Let_def
  by (simp_all add: list_reading doc_texts_concat [OF list_record_texts(1)] del: ascii_Cons)

lemma list_objects_prefixes:
  "doc_texts ''Prefix'' (list_objects_v1 b p rs) =
     lp_prefix p # concat (map (\<lambda>r. map (prefix_text (lp_encoding_type_url p)) (case lr_common_prefix r of Some p \<Rightarrow> [p] | None \<Rightarrow> [])) rs)"
  "doc_texts ''Prefix'' (list_objects_v2 b p rs) =
     lp_prefix p # concat (map (\<lambda>r. map (prefix_text (lp_encoding_type_url p)) (case lr_common_prefix r of Some p \<Rightarrow> [p] | None \<Rightarrow> [])) rs)"
  unfolding list_objects_v1_def list_objects_v2_def append_list_records_def Let_def
  by (simp_all add: list_reading doc_texts_concat [OF list_record_texts(2)] del: ascii_Cons)

lemma list_versions_texts:
  "doc_texts ''Key'' (list_versions b vp vs) = concat (map (\<lambda>r. if vr_common_prefix r = None then [key_text (vp_encoding_type_url vp) (vr_key r)] else []) vs)"
  "doc_texts ''Prefix'' (list_versions b vp vs) =
     vp_prefix vp # concat (map (\<lambda>r. map (prefix_text (vp_encoding_type_url vp)) (case vr_common_prefix r of Some p \<Rightarrow> [p] | None \<Rightarrow> [])) vs)"
  unfolding list_versions_def Let_def
  by (simp_all add: list_reading doc_texts_concat [OF version_record_texts(1)] doc_texts_concat [OF version_record_texts(2)]
      del: ascii_Cons)


section \<open>Paging through parts\<close>

definition parts_after :: "int \<Rightarrow> PartRecord list \<Rightarrow> PartRecord list" where
  "parts_after marker parts = filter (\<lambda>p. pr_part_number p > marker) parts"

lemma list_parts_texts:
  fixes parts marker limit
  defines "eligible \<equiv> parts_after marker parts"
  defines "page \<equiv> take (nat limit) eligible"
  defines "truncated \<equiv> int (length eligible) > limit"
  shows "doc_texts ''PartNumber'' (list_parts b k u marker limit parts) = map (\<lambda>p. dec_int (pr_part_number p)) page"
    "doc_texts ''IsTruncated'' (list_parts b k u marker limit parts) = [bool_text truncated]"
    "doc_texts ''NextPartNumberMarker'' (list_parts b k u marker limit parts) =
       (if truncated then [dec_int (if page = [] then marker else pr_part_number (last page))] else [])"
proof -
  have page: "take (min (length eligible) (nat limit)) eligible = page" by (simp add: page_def min_def)
  have concat_single: "concat (map (\<lambda>r. [f r]) rs) = map f rs" for f :: "PartRecord \<Rightarrow> bytes" and rs by (induction rs) simp_all
  have concat_empty: "concat (map (\<lambda>r. []) rs) = []" for rs :: "PartRecord list" by (induction rs) simp_all
  note unfold = list_parts_def Let_def parts_after_def [symmetric] eligible_def [symmetric] page truncated_def [symmetric] list_last_def
  show "doc_texts ''PartNumber'' (list_parts b k u marker limit parts) = map (\<lambda>p. dec_int (pr_part_number p)) page"
    unfolding unfold by (simp add: list_reading doc_texts_concat [OF part_record_texts(1)] concat_single del: ascii_Cons)
  show "doc_texts ''IsTruncated'' (list_parts b k u marker limit parts) = [bool_text truncated]"
    unfolding unfold by (simp add: list_reading doc_texts_concat [OF part_record_texts(2)] concat_empty del: ascii_Cons)
  show "doc_texts ''NextPartNumberMarker'' (list_parts b k u marker limit parts) =
       (if truncated then [dec_int (if page = [] then marker else pr_part_number (last page))] else [])"
    unfolding unfold
    by (simp add: list_reading doc_texts_branches doc_texts_concat [OF part_record_texts(3)] concat_empty del: ascii_Cons)
qed

text \<open>A client that follows \<^verbatim>\<open>NextPartNumberMarker\<close> while the listing says that it is truncated.\<close>

fun follow_parts :: "nat \<Rightarrow> (int \<Rightarrow> bytes) \<Rightarrow> int \<Rightarrow> bytes list option" where
  "follow_parts 0 fetch marker = None"
| "follow_parts (Suc n) fetch marker =
     (let doc = fetch marker; page = doc_texts ''PartNumber'' doc in
      if doc_texts ''IsTruncated'' doc = [ascii ''true''] then
        (case doc_texts ''NextPartNumberMarker'' doc of
           [text] \<Rightarrow> Option.bind (parse_signed 32 text) (\<lambda>m. map_option ((@) page) (follow_parts n fetch m))
         | _ \<Rightarrow> None)
      else Some page)"

lemma parts_after_page:
  assumes "sorted_wrt (<) (map pr_part_number parts)" "0 < n" "n < length (parts_after marker parts)"
  shows "parts_after (pr_part_number (last (take n (parts_after marker parts)))) parts = drop n (parts_after marker parts)"
proof -
  let ?e = "parts_after marker parts" let ?l = "pr_part_number (last (take n ?e))"
  have ne: "take n ?e \<noteq> []" using assms by auto
  have sorted: "sorted_wrt (\<lambda>p q. pr_part_number p < pr_part_number q) ?e"
    using assms(1) by (auto simp: parts_after_def sorted_wrt_map intro: sorted_wrt_filter)
  then have "sorted_wrt (\<lambda>p q. pr_part_number p < pr_part_number q) (take n ?e @ drop n ?e)" by simp
  then have split: "sorted_wrt (\<lambda>p q. pr_part_number p < pr_part_number q) (take n ?e)"
    "\<forall>p \<in> set (take n ?e). \<forall>q \<in> set (drop n ?e). pr_part_number p < pr_part_number q"
    by (auto simp only: sorted_wrt_append)
  have "last (take n ?e) \<in> set ?e" using ne by (metis last_in_set in_set_takeD)
  then have "marker < ?l" by (simp add: parts_after_def)
  then have "parts_after ?l parts = filter (\<lambda>p. pr_part_number p > ?l) ?e"
    by (auto simp: parts_after_def intro!: filter_cong)
  also have "\<dots> = filter (\<lambda>p. pr_part_number p > ?l) (take n ?e @ drop n ?e)" by simp
  also have "\<dots> = drop n ?e"
  proof -
    have "p = last (take n ?e) \<or> pr_part_number p < ?l" if "p \<in> set (take n ?e)" for p
    proof -
      have "p \<in> set (butlast (take n ?e) @ [last (take n ?e)])" using that ne by simp
      moreover have "sorted_wrt (\<lambda>p q. pr_part_number p < pr_part_number q) (butlast (take n ?e) @ [last (take n ?e)])"
        using split(1) ne by simp
      ultimately show ?thesis by (auto simp: sorted_wrt_append)
    qed
    then have "filter (\<lambda>p. pr_part_number p > ?l) (take n ?e) = []" by (force simp: filter_empty_conv)
    moreover have "filter (\<lambda>p. pr_part_number p > ?l) (drop n ?e) = drop n ?e"
      using split(2) ne by (auto intro!: filter_True)
    ultimately show ?thesis by (simp only: filter_append append_Nil)
  qed
  finally show ?thesis .
qed

lemma true_text: "bool_text t = ascii ''true'' \<longleftrightarrow> t"
  by (simp add: bool_text_def)

lemma follow_parts_complete:
  assumes "sorted_wrt (<) (map pr_part_number parts)" "\<forall>p \<in> set parts. i32_range (pr_part_number p)" "0 < limit"
  shows "length (parts_after marker parts) < fuel \<Longrightarrow>
    follow_parts fuel (\<lambda>m. list_parts b k u m limit parts) marker = Some (map (\<lambda>p. dec_int (pr_part_number p)) (parts_after marker parts))"
proof (induction fuel arbitrary: marker)
  case (Suc fuel)
  let ?e = "parts_after marker parts" let ?page = "take (nat limit) ?e"
  show ?case
  proof (cases "int (length ?e) > limit")
    case False
    then show ?thesis by (simp add: list_parts_texts true_text Let_def del: ascii_Cons)
  next
    case True
    then have n: "0 < nat limit" "nat limit < length ?e" using assms(3) by auto
    then have ne: "?page \<noteq> []" by auto
    let ?m = "pr_part_number (last ?page)"
    have "last ?page \<in> set parts" using ne by (metis in_set_takeD last_in_set filter_is_subset parts_after_def subsetD)
    then have "i32_range ?m" using assms(2) by blast
    then have parse: "parse_signed 32 (dec_int ?m) = Some ?m" by (intro parse_signed_dec_int) (auto simp: i32_range_def)
    note rest = parts_after_page [OF assms(1) n]
    have "follow_parts fuel (\<lambda>m. list_parts b k u m limit parts) ?m = Some (map (\<lambda>p. dec_int (pr_part_number p)) (drop (nat limit) ?e))"
      using Suc.IH [of ?m] Suc.prems n unfolding rest by simp
    moreover have "map (\<lambda>p. dec_int (pr_part_number p)) ?page @ map (\<lambda>p. dec_int (pr_part_number p)) (drop (nat limit) ?e)
        = map (\<lambda>p. dec_int (pr_part_number p)) ?e" by (simp flip: map_append)
    ultimately show ?thesis using True ne parse
      by (simp add: list_parts_texts true_text Let_def del: ascii_Cons)
  qed
qed simp

text \<open>A page size of zero is admitted by routing.  The listing then says that it is truncated and gives the
  marker it was asked with, so that a client that follows it never ends.\<close>

lemma list_parts_zero_page:
  assumes "parts_after marker parts \<noteq> []" "i32_range marker"
  shows "doc_texts ''IsTruncated'' (list_parts b k u marker 0 parts) = [ascii ''true'']"
    "follow_parts fuel (\<lambda>m. list_parts b k u m 0 parts) marker = None"
proof -
  show "doc_texts ''IsTruncated'' (list_parts b k u marker 0 parts) = [ascii ''true'']"
    using assms by (simp add: list_parts_texts true_text del: ascii_Cons)
  have "parse_signed 32 (dec_int marker) = Some marker"
    using assms(2) by (intro parse_signed_dec_int) (auto simp: i32_range_def)
  with assms(1) show "follow_parts fuel (\<lambda>m. list_parts b k u m 0 parts) marker = None"
    by (induction fuel) (simp_all add: list_parts_texts true_text Let_def del: ascii_Cons)
qed

lemma read_keys:
  "map (read_text e) (concat (map (\<lambda>r. if pre r = None then [key_text e (key r)] else []) rs))
   = map (\<lambda>r. Some (unwrap_or (key r) [])) (filter (\<lambda>r. pre r = None) rs)"
  by (induction rs) (simp_all add: key_text_def read_url_encoded)

lemma read_prefixes:
  "map (read_text e) (concat (map (\<lambda>r. map (prefix_text e) (case pre r of Some p \<Rightarrow> [p] | None \<Rightarrow> [])) rs))
   = map Some (List.map_filter pre rs)"
  by (induction rs) (simp_all add: prefix_text_def read_url_encoded List.map_filter_simps split: option.splits)

section \<open>Properties\<close>

text \<open>C36. Listings say what they were given: a reader of the documents of both object listings and of the version
  listing, which undoes the URL encoding when it asked for it, finds exactly the keys of the entries
  and their common prefixes, in order, whatever bytes the keys hold; the first prefix it finds is the
  one it asked with.\<close>

theorem listings_read_back:
  "let e = lp_encoding_type_url p; keys = map (\<lambda>r. Some (unwrap_or (lr_key r) [])) (filter (\<lambda>r. lr_common_prefix r = None) rs);
       prefixes = map Some (List.map_filter lr_common_prefix rs) in
   map (read_text e) (doc_texts ''Key'' (list_objects_v1 b p rs)) = keys
   \<and> map (read_text e) (doc_texts ''Key'' (list_objects_v2 b p rs)) = keys
   \<and> hd (doc_texts ''Prefix'' (list_objects_v1 b p rs)) = lp_prefix p
   \<and> hd (doc_texts ''Prefix'' (list_objects_v2 b p rs)) = lp_prefix p
   \<and> map (read_text e) (tl (doc_texts ''Prefix'' (list_objects_v1 b p rs))) = prefixes
   \<and> map (read_text e) (tl (doc_texts ''Prefix'' (list_objects_v2 b p rs))) = prefixes
   \<and> map (read_text (vp_encoding_type_url vp)) (doc_texts ''Key'' (list_versions b vp vs))
       = map (\<lambda>r. Some (unwrap_or (vr_key r) [])) (filter (\<lambda>r. vr_common_prefix r = None) vs)
   \<and> map (read_text (vp_encoding_type_url vp)) (tl (doc_texts ''Prefix'' (list_versions b vp vs)))
       = map Some (List.map_filter vr_common_prefix vs)"
  unfolding Let_def list_objects_keys list_objects_prefixes list_versions_texts list.sel read_keys read_prefixes by simp

text \<open>C20. Paging through the parts of an upload, for every page size that routing admits, zero included.  A client
  reads the listing documents and follows \<^verbatim>\<open>NextPartNumberMarker\<close> while they say that they are truncated.
  With a positive page size it obtains, after at most as many requests as there are parts left, and one
  more, every part above its marker, once and in order.  With a page size of zero it does so only when
  no part is left; otherwise every document says that it is truncated and repeats the marker, so that no
  number of requests is enough.\<close>

theorem list_parts_paging:
  assumes "sorted_wrt (<) (map pr_part_number parts)" and "\<forall>p \<in> set parts. i32_range (pr_part_number p)"
    and "0 \<le> limit" and "i32_range marker"
    and "length (filter (\<lambda>p. pr_part_number p > marker) parts) < fuel"
  shows "follow_parts fuel (\<lambda>m. list_parts bucket key upload_id m limit parts) marker
    = (if limit = 0 \<and> filter (\<lambda>p. pr_part_number p > marker) parts \<noteq> [] then None
       else Some (map (\<lambda>p. dec_int (pr_part_number p)) (filter (\<lambda>p. pr_part_number p > marker) parts)))"
proof (cases "0 < limit")
  case True
  with follow_parts_complete [OF assms(1,2) True, of marker fuel] assms(5) show ?thesis by (simp add: parts_after_def)
next
  case False
  with assms(3) have z: "limit = 0" by simp
  show ?thesis
  proof (cases "parts_after marker parts = []")
    case True
    with z assms(5) show ?thesis
      by (cases fuel) (simp_all add: parts_after_def [symmetric] list_parts_texts true_text Let_def del: ascii_Cons)
  next
    case False
    from list_parts_zero_page(2) [OF this assms(4)] False z show ?thesis by (simp add: parts_after_def)
  qed
qed

definition demo_records :: "PartRecord list" where
  "demo_records = map (\<lambda>n. \<lparr>pr_part_number = n, pr_size = 5, pr_etag = ascii ''x'', pr_sha256 = [], pr_completed_ms = 0\<rparr>) [1, 2, 5]"

lemma demo_records_ok:
  "sorted_wrt (<) (map pr_part_number demo_records)" "\<forall>p \<in> set demo_records. i32_range (pr_part_number p)"
  "length (filter (\<lambda>p. pr_part_number p > 1) demo_records) < 3"
  by (simp_all add: demo_records_def i32_range_def)

theorem list_parts_paging_witness:
  "sorted_wrt (<) (map pr_part_number demo_records) \<and> list_all (\<lambda>p. i32_range (pr_part_number p)) demo_records
   \<and> length (filter (\<lambda>p. pr_part_number p > 1) demo_records) < 3
   \<and> follow_parts 3 (\<lambda>m. list_parts (ascii ''b'') (ascii ''k'') (ascii ''u'') m 1 demo_records) 1 = Some [ascii ''2'', ascii ''5'']
   \<and> follow_parts 3 (\<lambda>m. list_parts (ascii ''b'') (ascii ''k'') (ascii ''u'') m 0 demo_records) 1 = None"
proof -
  have m: "map (\<lambda>p. dec_int (pr_part_number p)) (filter (\<lambda>p. pr_part_number p > 1) demo_records) = [ascii ''2'', ascii ''5'']"
    by code_simp
  then have ne: "filter (\<lambda>p. pr_part_number p > 1) demo_records \<noteq> []" by (metis list.distinct(1) list.simps(8))
  have "i32_range 1" by (simp add: i32_range_def)
  note paging = list_parts_paging [OF demo_records_ok(1,2) _ this demo_records_ok(3)]
  show ?thesis
    using paging [of 1] paging [of 0] m ne demo_records_ok by (simp add: list_all_iff del: ascii_Cons)
qed

end
