(* ===== verification/Framing.thy ===== *)
theory Framing
  imports S3Types
begin

text \<open>
  \<^verbatim>\<open>workers/http.rs\<close>, the framing of request bodies: the incremental decoder of the chunked transfer
  coding, its size lines, chunk extensions and trailer lines, and the choice between no body, a body
  of known length and a chunked body.

  A decoder is read a slice at a time.  The model of a turn of its loop returns the state the turn
  leaves, the bytes it appended to the decoded buffer, the input it has not consumed and the error it
  returned with, if any.
\<close>

section \<open>Data\<close>

definition MAX_HTTP_BODY_BYTES :: nat where
  "MAX_HTTP_BODY_BYTES = 5 * 1024 * 1024 * 1024"

definition MAX_HTTP_WIRE_BYTES :: nat where
  "MAX_HTTP_WIRE_BYTES = MAX_HTTP_BODY_BYTES + 256 * 1024 * 1024"

definition MAX_CHUNK_LINE_BYTES :: nat where
  "MAX_CHUNK_LINE_BYTES = 8 * 1024"

definition MAX_TRAILER_LINE_BYTES :: nat where
  "MAX_TRAILER_LINE_BYTES = 16 * 1024"

definition MAX_TRAILER_BYTES :: nat where
  "MAX_TRAILER_BYTES = 64 * 1024"

definition MAX_TRAILERS :: nat where
  "MAX_TRAILERS = 100"

datatype FramingError = EntityTooLarge | InvalidChunk | InvalidTrailerLine | TooMuchFraming

record DecodeProgress =
  consumed :: nat
  dp_complete :: bool

datatype ChunkState =
    SizeLine bytes
  | ChunkData u64
  | DataCrLf u8
  | TrailerLine bytes
  | ChunksComplete

record HttpChunkedDecoder =
  hc_state :: ChunkState
  wire_bytes :: u64
  hc_decoded_bytes :: u64
  trailer_bytes :: nat
  hc_trailers :: nat

datatype BodyFraming =
    NoBody
  | ContentLength u64
  | ChunkedBody HttpChunkedDecoder

section \<open>Lines of the chunked coding\<close>

definition trim_left_ows :: "bytes \<Rightarrow> bytes" where
  "trim_left_ows bs = dropWhile (\<lambda>b. b = 0x20 \<or> b = 0x09) bs"

definition worker_is_tchar :: "u8 \<Rightarrow> bool" where
  "worker_is_tchar b \<longleftrightarrow> is_ascii_alphanumeric b \<or> b \<in> set (ascii ''!#$%&'*+-.^_`|~'')"

text \<open>The loop over a quoted value, after its opening quote: what is left behind the closing one.\<close>

fun quoted_rest :: "bytes \<Rightarrow> bytes option" where
  "quoted_rest [] = None"
| "quoted_rest (b # bs) =
     (if b = 0x22 then Some bs
      else if b = 0x5c then
        (case bs of
           [] \<Rightarrow> None
         | c # cs \<Rightarrow> if c = 0x09 \<or> (0x20 \<le> c \<and> c \<le> 0x7e) \<or> 0x80 \<le> c then quoted_rest cs else None)
      else if b = 0x09 \<or> (0x20 \<le> b \<and> b \<le> 0x21) \<or> (0x23 \<le> b \<and> b \<le> 0x5b) \<or> (0x5d \<le> b \<and> b \<le> 0x7e) \<or> 0x80 \<le> b
      then quoted_rest bs
      else None)"

definition extension_value :: "bytes \<Rightarrow> bytes option" where
  "extension_value bs =
     (if bs \<noteq> [] \<and> hd bs = 0x22 then map_option trim_left_ows (quoted_rest (tl bs))
      else
       (let value_len = length (takeWhile worker_is_tchar bs) in
        if value_len = 0 then None else Some (trim_left_ows (drop value_len bs))))"

text \<open>One turn of the loop over the extensions; every failure is \<^verbatim>\<open>InvalidChunk\<close>.\<close>

definition chunk_extension :: "bytes \<Rightarrow> bytes option" where
  "chunk_extension bs =
     (if hd bs \<noteq> 0x3b then None
      else
       (let bs1 = trim_left_ows (tl bs);
            name_len = length (takeWhile worker_is_tchar bs1) in
        if name_len = 0 then None
        else
         (let bs2 = trim_left_ows (drop name_len bs1);
              bs3 = (if bs2 \<noteq> [] \<and> hd bs2 = 0x3d then extension_value (trim_left_ows (tl bs2)) else Some bs2) in
          case bs3 of
            None \<Rightarrow> None
          | Some rest \<Rightarrow> if rest \<noteq> [] \<and> hd rest \<noteq> 0x3b then None else Some rest)))"

lemma trim_left_ows_length: "length (trim_left_ows bs) \<le> length bs"
  by (simp add: trim_left_ows_def length_dropWhile_le)

lemma quoted_rest_length: "quoted_rest bs = Some r \<Longrightarrow> length r < length bs"
  by (induction bs rule: quoted_rest.induct) (fastforce split: if_splits list.splits)+

lemma extension_value_length: "extension_value bs = Some r \<Longrightarrow> length r < length bs"
  by (cases bs) (auto simp: extension_value_def Let_def less_Suc_eq_le split: if_splits dest!: quoted_rest_length
      intro: order_trans [OF trim_left_ows_length])

lemma chunk_extension_length:
  assumes "chunk_extension bs = Some rest" "bs \<noteq> []"
  shows "length rest < length bs"
proof -
  let ?bs1 = "trim_left_ows (tl bs)"
  let ?bs2 = "trim_left_ows (drop (length (takeWhile worker_is_tchar ?bs1)) ?bs1)"
  have "length ?bs1 \<le> length (tl bs)" "length ?bs2 \<le> length ?bs1"
    using trim_left_ows_length [of "tl bs"]
      trim_left_ows_length [of "drop (length (takeWhile worker_is_tchar ?bs1)) ?bs1"] by auto
  moreover from assms(1) have "rest = ?bs2 \<or> extension_value (trim_left_ows (tl ?bs2)) = Some rest"
    by (auto simp: chunk_extension_def Let_def split: if_splits option.splits)
  then have "length rest \<le> length ?bs2"
    using extension_value_length [of "trim_left_ows (tl ?bs2)" rest] trim_left_ows_length [of "tl ?bs2"] by auto
  moreover have "length (tl bs) < length bs" using assms(2) by (cases bs) auto
  ultimately show ?thesis by linarith
qed

function validate_chunk_extensions :: "bytes \<Rightarrow> FramingError + unit" where
  "validate_chunk_extensions bs =
     (if bs = [] then Ok ()
      else case chunk_extension bs of
        None \<Rightarrow> Err InvalidChunk
      | Some rest \<Rightarrow> validate_chunk_extensions rest)"
  by pat_completeness auto
termination
  by (relation "measure length") (auto dest: chunk_extension_length)

declare validate_chunk_extensions.simps [simp del]

definition size_digit :: "u8 \<Rightarrow> u8 option" where
  "size_digit b =
     (if 0x30 \<le> b \<and> b \<le> 0x39 then Some (b - 0x30)
      else if 0x61 \<le> b \<and> b \<le> 0x66 then Some (b - 0x61 + 10)
      else if 0x41 \<le> b \<and> b \<le> 0x46 then Some (b - 0x41 + 10)
      else None)"

fun size_value :: "u64 \<Rightarrow> bytes \<Rightarrow> FramingError + u64" where
  "size_value n [] = Ok n"
| "size_value n (b # bs) =
     rbind (ok_or (size_digit b) InvalidChunk) (\<lambda>digit.
     rbind (ok_or (Option.bind (checked_mul n 16) (\<lambda>v. checked_add v (ucast digit))) EntityTooLarge) (\<lambda>n.
     size_value n bs))"

definition parse_chunk_size_line :: "bytes \<Rightarrow> FramingError + u64" where
  "parse_chunk_size_line line =
     (let ext = position (\<lambda>b. b = 0x3b) line;
          size_bytes = take (case ext of Some i \<Rightarrow> i | None \<Rightarrow> length line) line in
      if size_bytes = [] \<or> length size_bytes > 16 then Err InvalidChunk
      else rbind (size_value 0 size_bytes) (\<lambda>n.
        rbind (case ext of Some start \<Rightarrow> validate_chunk_extensions (drop start line) | None \<Rightarrow> Ok ()) (\<lambda>_.
        Ok n)))"

definition validate_trailer_line :: "bytes \<Rightarrow> FramingError + unit" where
  "validate_trailer_line line =
     (if line \<noteq> [] \<and> (hd line = 0x20 \<or> hd line = 0x09) then Err InvalidTrailerLine
      else rbind (ok_or (position (\<lambda>b. b = 0x3a) line) InvalidTrailerLine) (\<lambda>colon.
        if colon = 0 \<or> \<not> list_all worker_is_tchar (take colon line) then Err InvalidTrailerLine
        else if \<not> list_all (\<lambda>b. b = 0x09 \<or> (b \<ge> 0x20 \<and> b \<noteq> 0x7f)) (drop (colon + 1) line) then Err InvalidTrailerLine
        else Ok ()))"

section \<open>The decoder of the chunked coding\<close>

definition HttpChunkedDecoder_new :: HttpChunkedDecoder where
  "HttpChunkedDecoder_new = \<lparr>hc_state = SizeLine [], wire_bytes = 0, hc_decoded_bytes = 0,
     trailer_bytes = 0, hc_trailers = 0\<rparr>"

definition hc_is_complete :: "HttpChunkedDecoder \<Rightarrow> bool" where
  "hc_is_complete d \<longleftrightarrow> hc_state d = ChunksComplete"

definition charge_wire :: "u64 \<Rightarrow> nat \<Rightarrow> u64 \<times> (FramingError + unit)" where
  "charge_wire wire count =
     (case checked_add wire (of_nat count) of
        None \<Rightarrow> (wire, Err TooMuchFraming)
      | Some w \<Rightarrow> if unat w > MAX_HTTP_WIRE_BYTES then (w, Err TooMuchFraming) else (w, Ok ()))"

type_synonym turn = "HttpChunkedDecoder \<times> bytes \<times> bytes \<times> FramingError option"

definition charged :: "HttpChunkedDecoder \<Rightarrow> nat \<Rightarrow> bytes \<Rightarrow> (HttpChunkedDecoder \<Rightarrow> turn) \<Rightarrow> turn" where
  "charged d count bs k =
     (case charge_wire (wire_bytes d) count of
        (w, Inl e) \<Rightarrow> (d\<lparr>wire_bytes := w\<rparr>, [], bs, Some e)
      | (w, Inr _) \<Rightarrow> k (d\<lparr>wire_bytes := w\<rparr>))"

definition size_line_turn :: "bytes \<Rightarrow> HttpChunkedDecoder \<Rightarrow> u8 \<Rightarrow> bytes \<Rightarrow> turn" where
  "size_line_turn line d b rest =
     charged d 1 (b # rest) (\<lambda>d.
       if b = 0x0a then
        (let d1 = d\<lparr>hc_state := SizeLine (butlast line)\<rparr> in
         if line = [] \<or> last line \<noteq> 0x0d then (d1, [], rest, Some InvalidChunk)
         else case parse_chunk_size_line (butlast line) of
           Inl e \<Rightarrow> (d1, [], rest, Some e)
         | Inr n \<Rightarrow>
             (case checked_add (hc_decoded_bytes d) n of
                None \<Rightarrow> (d1, [], rest, Some EntityTooLarge)
              | Some new_total \<Rightarrow>
                  if unat new_total > MAX_HTTP_BODY_BYTES then (d1, [], rest, Some EntityTooLarge)
                  else (d\<lparr>hc_state := (if n = 0 then TrailerLine [] else ChunkData n)\<rparr>, [], rest, None)))
       else if (line \<noteq> [] \<and> last line = 0x0d) \<or> length line \<ge> MAX_CHUNK_LINE_BYTES
       then (d, [], rest, Some InvalidChunk)
       else (d\<lparr>hc_state := SizeLine (line @ [b])\<rparr>, [], rest, None))"

definition chunk_data_turn :: "u64 \<Rightarrow> HttpChunkedDecoder \<Rightarrow> bytes \<Rightarrow> turn" where
  "chunk_data_turn remaining d bs =
     (let count = min (unat remaining) (length bs) in
      charged d count bs (\<lambda>d.
        let remaining = remaining - of_nat count in
        (d\<lparr>hc_decoded_bytes := hc_decoded_bytes d + of_nat count,
           hc_state := (if remaining = 0 then DataCrLf 0 else ChunkData remaining)\<rparr>,
         take count bs, drop count bs, None)))"

definition data_crlf_turn :: "u8 \<Rightarrow> HttpChunkedDecoder \<Rightarrow> u8 \<Rightarrow> bytes \<Rightarrow> turn" where
  "data_crlf_turn seen d b rest =
     charged d 1 (b # rest) (\<lambda>d.
       if b \<noteq> (if seen = 0 then 0x0d else 0x0a) then (d, [], b # rest, Some InvalidChunk)
       else (d\<lparr>hc_state := (if seen + 1 = 2 then SizeLine [] else DataCrLf (seen + 1))\<rparr>, [], rest, None))"

definition trailer_line_turn :: "bytes \<Rightarrow> HttpChunkedDecoder \<Rightarrow> u8 \<Rightarrow> bytes \<Rightarrow> turn" where
  "trailer_line_turn line d b rest =
     charged d 1 (b # rest) (\<lambda>d.
       if trailer_bytes d + 1 \<ge> 2 ^ 64 then (d, [], b # rest, Some TooMuchFraming)
       else
        (let d = d\<lparr>trailer_bytes := trailer_bytes d + 1\<rparr> in
         if trailer_bytes d > MAX_TRAILER_BYTES then (d, [], b # rest, Some TooMuchFraming)
         else if b = 0x0a then
          (let d1 = d\<lparr>hc_state := TrailerLine (butlast line)\<rparr> in
           if line = [] \<or> last line \<noteq> 0x0d then (d1, [], rest, Some InvalidTrailerLine)
           else if butlast line = [] then (d\<lparr>hc_state := ChunksComplete\<rparr>, [], rest, None)
           else case validate_trailer_line (butlast line) of
             Inl e \<Rightarrow> (d1, [], rest, Some e)
           | Inr _ \<Rightarrow>
               let d2 = d1\<lparr>hc_trailers := hc_trailers d + 1\<rparr> in
               if hc_trailers d2 > MAX_TRAILERS then (d2, [], rest, Some TooMuchFraming)
               else (d2\<lparr>hc_state := TrailerLine []\<rparr>, [], rest, None))
         else if (line \<noteq> [] \<and> last line = 0x0d) \<or> length line \<ge> MAX_TRAILER_LINE_BYTES
         then (d, [], rest, Some InvalidTrailerLine)
         else (d\<lparr>hc_state := TrailerLine (line @ [b])\<rparr>, [], rest, None)))"

definition chunk_turn :: "HttpChunkedDecoder \<Rightarrow> u8 \<Rightarrow> bytes \<Rightarrow> turn" where
  "chunk_turn d b rest =
     (case hc_state d of
        SizeLine line \<Rightarrow> size_line_turn line d b rest
      | ChunkData remaining \<Rightarrow> chunk_data_turn remaining d (b # rest)
      | DataCrLf seen \<Rightarrow> data_crlf_turn seen d b rest
      | TrailerLine line \<Rightarrow> trailer_line_turn line d b rest
      | ChunksComplete \<Rightarrow> (d, [], b # rest, None))"

lemma charged_cases:
  assumes "charged d count bs k = (d', out, rest, r)"
  obtains (refused) e where "r = Some e" "out = []" "rest = bs"
  | (paid) w where "charge_wire (wire_bytes d) count = (w, Ok ())" "k (d\<lparr>wire_bytes := w\<rparr>) = (d', out, rest, r)"
  using assms by (auto simp: charged_def split: prod.splits sum.splits)

text \<open>A turn that goes on has consumed a byte, or has left the data of an exhausted chunk.\<close>

definition in_data :: "HttpChunkedDecoder \<Rightarrow> nat" where
  "in_data d = (case hc_state d of ChunkData _ \<Rightarrow> 1 | _ \<Rightarrow> 0)"

lemma chunk_turn_measure:
  assumes "chunk_turn d b rest = (d', out, rest', None)" "\<not> hc_is_complete d"
  shows "length rest' < length (b # rest) \<or> length rest' = length (b # rest) \<and> in_data d' < in_data d"
proof (cases "hc_state d")
  case (SizeLine line)
  with assms(1) show ?thesis
    by (auto simp: chunk_turn_def size_line_turn_def Let_def elim!: charged_cases split: if_splits sum.splits option.splits)
next
  case (ChunkData remaining)
  with assms(1) show ?thesis
    by (auto simp: chunk_turn_def chunk_data_turn_def Let_def in_data_def elim!: charged_cases split: if_splits)
next
  case (DataCrLf seen)
  with assms(1) show ?thesis
    by (auto simp: chunk_turn_def data_crlf_turn_def elim!: charged_cases split: if_splits)
next
  case (TrailerLine line)
  with assms(1) show ?thesis
    by (auto simp: chunk_turn_def trailer_line_turn_def Let_def elim!: charged_cases split: if_splits sum.splits)
qed (use assms(2) in \<open>simp add: hc_is_complete_def\<close>)

function hc_loop :: "HttpChunkedDecoder \<Rightarrow> bytes \<Rightarrow> turn" where
  "hc_loop d [] = (d, [], [], None)"
| "hc_loop d (b # rest) =
     (if hc_is_complete d then (d, [], b # rest, None)
      else case chunk_turn d b rest of
        (d', out, rest', Some e) \<Rightarrow> (d', out, rest', Some e)
      | (d', out, rest', None) \<Rightarrow>
          (case hc_loop d' rest' of (d'', out', rest'', r) \<Rightarrow> (d'', out @ out', rest'', r)))"
  by pat_completeness auto
termination
  by (relation "measures [\<lambda>(d, bs). length bs, \<lambda>(d, bs). in_data d]") (auto dest: chunk_turn_measure [OF sym])

declare hc_loop.simps(2) [simp del]

definition HttpChunkedDecoder_push ::
  "HttpChunkedDecoder \<Rightarrow> bytes \<Rightarrow> HttpChunkedDecoder \<times> bytes \<times> (FramingError + DecodeProgress)" where
  "HttpChunkedDecoder_push d input =
     (case hc_loop d input of
        (d', decoded, rest, Some e) \<Rightarrow> (d', decoded, Err e)
      | (d', decoded, rest, None) \<Rightarrow>
          (d', decoded, Ok \<lparr>consumed = length input - length rest, dp_complete = hc_is_complete d'\<rparr>))"

section \<open>The framing of a body\<close>

definition BodyFraming_from_head :: "RequestHead \<Rightarrow> FramingError + BodyFraming" where
  "BodyFraming_from_head h =
     (if transfer_chunked h then Ok (ChunkedBody HttpChunkedDecoder_new)
      else case rh_content_length h of
        Some n \<Rightarrow> if unat n > MAX_HTTP_BODY_BYTES then Err EntityTooLarge else Ok (ContentLength n)
      | None \<Rightarrow> Ok NoBody)"

definition BodyFraming_push ::
  "BodyFraming \<Rightarrow> bytes \<Rightarrow> BodyFraming \<times> (FramingError + DecodeProgress \<times> bytes)" where
  "BodyFraming_push framing input =
     (case framing of
        NoBody \<Rightarrow> (NoBody, Ok (\<lparr>consumed = 0, dp_complete = True\<rparr>, []))
      | ContentLength remaining \<Rightarrow>
          let count = min (unat remaining) (length input); left = remaining - of_nat count in
          (ContentLength left, Ok (\<lparr>consumed = count, dp_complete = (left = 0)\<rparr>, take count input))
      | ChunkedBody decoder \<Rightarrow>
          (case HttpChunkedDecoder_push decoder input of
             (d, decoded, Inl e) \<Rightarrow> (ChunkedBody d, Err e)
           | (d, decoded, Inr progress) \<Rightarrow> (ChunkedBody d, Ok (progress, decoded))))"

definition BodyFraming_is_complete :: "BodyFraming \<Rightarrow> bool" where
  "BodyFraming_is_complete framing =
     (case framing of
        NoBody \<Rightarrow> True
      | ContentLength remaining \<Rightarrow> remaining = 0
      | ChunkedBody decoder \<Rightarrow> hc_is_complete decoder)"

section \<open>Reading in fragments\<close>

text \<open>
  The contract between a body's framing and the exchange that reads it: a call consumes a part of the
  fragment it is given, decodes it and leaves the rest.  Reading \<open>a @ b\<close> is reading \<open>a\<close> and then what
  is left of it followed by \<open>b\<close>; a reader that has not reached the end of the body leaves nothing, and
  one that has reads no further.
\<close>

definition then_read :: "('s \<Rightarrow> bytes \<Rightarrow> 'e + 's \<times> bytes \<times> bytes) \<Rightarrow> 'e + 's \<times> bytes \<times> bytes \<Rightarrow> bytes \<Rightarrow> 'e + 's \<times> bytes \<times> bytes" where
  "then_read read r b =
     rbind r (\<lambda>(s1, out1, rest1). rbind (read s1 (rest1 @ b)) (\<lambda>(s2, out2, rest2). Ok (s2, out1 @ out2, rest2)))"

lemma then_read_simps [simp]:
  "then_read read (Err e) b = Err e"
  "then_read read (Ok (s1, [], rest1)) b = read s1 (rest1 @ b)"
  by (auto simp: then_read_def rbind_def split: sum.splits)

locale framed =
  fixes read :: "'s \<Rightarrow> bytes \<Rightarrow> 'e + 's \<times> bytes \<times> bytes"
    and at_end :: "'s \<Rightarrow> bool"
  assumes read_append: "read s (a @ b) = then_read read (read s a) b"
    and read_nil: "read s [] = Ok (s, [], [])"
    and read_open: "read s a = Ok (s', out, rest) \<Longrightarrow> \<not> at_end s' \<Longrightarrow> rest = []"
    and read_end: "at_end s \<Longrightarrow> read s a = Ok (s, [], a)"
begin

text \<open>Reading fragment after fragment until the end of the body.\<close>

fun read_all :: "'s \<Rightarrow> bytes list \<Rightarrow> 'e + 's \<times> bytes list" where
  "read_all s [] = Ok (s, [])"
| "read_all s (a # as) =
     rbind (read s a) (\<lambda>(s', out, rest).
     if at_end s' then Ok (s', [out])
     else rbind (read_all s' as) (\<lambda>(s'', outs). Ok (s'', out # outs)))"

lemma read_all_concat:
  assumes "as \<noteq> []" "read s (concat as) = Ok (s', out, rest)"
  shows "\<exists>outs. read_all s as = Ok (s', outs) \<and> concat outs = out"
  using assms
proof (induction as arbitrary: s s' out rest)
  case (Cons a as)
  from Cons.prems(2) obtain s1 o1 r1 o2 where a: "read s a = Ok (s1, o1, r1)"
    and b: "read s1 (r1 @ concat as) = Ok (s', o2, rest)" "out = o1 @ o2"
    unfolding concat.simps read_append [of s a] then_read_def by auto
  show ?case
  proof (cases "at_end s1")
    case True
    with b read_end [OF True] a show ?thesis by (intro exI [of _ "[o1]"]) auto
  next
    case False
    then have r: "r1 = []" using read_open [OF a] by simp
    show ?thesis
    proof (cases "as = []")
      case True
      with b r read_nil [of s1] a False show ?thesis by (intro exI [of _ "[o1]"]) auto
    next
      case ne: False
      from Cons.IH [OF ne, of s1 s' o2 rest] b r obtain outs where "read_all s1 as = Ok (s', outs)" "concat outs = o2" by auto
      with a False b show ?thesis by (intro exI [of _ "o1 # outs"]) auto
    qed
  qed
qed simp

end


text \<open>The decoder of the chunked coding, with the state dropped where the call fails.\<close>

definition turn_result :: "turn \<Rightarrow> FramingError + HttpChunkedDecoder \<times> bytes \<times> bytes" where
  "turn_result t = (case t of (d, out, rest, None) \<Rightarrow> Ok (d, out, rest) | (d, out, rest, Some e) \<Rightarrow> Err e)"

definition read_chunked :: "HttpChunkedDecoder \<Rightarrow> bytes \<Rightarrow> FramingError + HttpChunkedDecoder \<times> bytes \<times> bytes" where
  "read_chunked d bs = turn_result (hc_loop d bs)"

lemma turn_result_simps [simp]:
  "turn_result (d, out, rest, None) = Ok (d, out, rest)"
  "turn_result (d, out, rest, Some e) = Err e"
  by (simp_all add: turn_result_def)

lemma turn_result_cases [simp]:
  "turn_result (if b then t else u) = (if b then turn_result t else turn_result u)"
  "turn_result (case x of Inl e \<Rightarrow> f e | Inr y \<Rightarrow> g y) = (case x of Inl e \<Rightarrow> turn_result (f e) | Inr y \<Rightarrow> turn_result (g y))"
  "turn_result (case z of None \<Rightarrow> t | Some y \<Rightarrow> h y) = (case z of None \<Rightarrow> turn_result t | Some y \<Rightarrow> turn_result (h y))"
  by (simp_all split: sum.splits option.splits)

lemma wire_limit: "MAX_HTTP_WIRE_BYTES < 2 ^ 64"
  by (simp add: MAX_HTTP_WIRE_BYTES_def MAX_HTTP_BODY_BYTES_def)

lemma charge_wire_eq:
  assumes "count < 2 ^ 64"
  shows "charge_wire wire count =
    (if unat wire + count \<le> MAX_HTTP_WIRE_BYTES then (wire + of_nat count, Ok ())
     else (fst (charge_wire wire count), Err TooMuchFraming))"
proof -
  have c: "unat (of_nat count :: u64) = count" using assms by (simp add: unat_of_nat)
  note m = wire_limit
  show ?thesis
  proof (cases "unat wire + count < 2 ^ 64")
    case True
    then have "checked_add wire (of_nat count) = Some (wire + of_nat count)" by (simp add: checked_add_def c)
    moreover have "unat (wire + of_nat count) = unat wire + count" using checked_add_Some [OF calculation] c by simp
    ultimately show ?thesis by (simp add: charge_wire_def)
  next
    case False
    then have "checked_add wire (of_nat count) = None" by (simp add: checked_add_def c)
    with False m show ?thesis by (simp add: charge_wire_def)
  qed
qed

lemma charged_result:
  assumes "count < 2 ^ 64"
  shows "turn_result (charged d count bs k) =
    (if unat (wire_bytes d) + count \<le> MAX_HTTP_WIRE_BYTES
     then turn_result (k (d\<lparr>wire_bytes := wire_bytes d + of_nat count\<rparr>)) else Err TooMuchFraming)"
  unfolding charged_def by (subst charge_wire_eq [OF assms]) auto

lemma read_chunked_Nil [simp]: "read_chunked d [] = Ok (d, [], [])"
  by (simp add: read_chunked_def)

lemma read_chunked_complete [simp]: "hc_is_complete d \<Longrightarrow> read_chunked d bs = Ok (d, [], bs)"
  by (cases bs) (simp_all add: read_chunked_def hc_loop.simps(2))

lemma read_chunked_turn:
  "\<not> hc_is_complete d \<Longrightarrow>
   read_chunked d (b # rest) = then_read read_chunked (turn_result (chunk_turn d b rest)) []"
  by (auto simp: read_chunked_def hc_loop.simps(2) then_read_def turn_result_def split: prod.splits option.splits)

text \<open>A turn that does not reach the end of the fragment does not see what comes after it.\<close>

definition shift_turn :: "bytes \<Rightarrow> turn \<Rightarrow> turn" where
  "shift_turn b t = (case t of (d, out, rest, r) \<Rightarrow> (d, out, rest @ b, r))"

lemma shift_turn_simps [simp]:
  "shift_turn b (d, out, rest, r) = (d, out, rest @ b, r)"
  "shift_turn b (if c then t else u) = (if c then shift_turn b t else shift_turn b u)"
  "shift_turn b (case x of Inl e \<Rightarrow> f e | Inr y \<Rightarrow> g y) = (case x of Inl e \<Rightarrow> shift_turn b (f e) | Inr y \<Rightarrow> shift_turn b (g y))"
  "shift_turn b (case z of None \<Rightarrow> t | Some y \<Rightarrow> h y) = (case z of None \<Rightarrow> shift_turn b t | Some y \<Rightarrow> shift_turn b (h y))"
  by (simp_all add: shift_turn_def split: sum.splits option.splits)

lemma charged_shift:
  assumes "\<And>d. shift_turn b (k d) = k' d"
  shows "charged d count (bs @ b) k' = shift_turn b (charged d count bs k)"
  unfolding charged_def assms [symmetric] by (simp split: prod.splits sum.splits)

lemma chunk_turn_shift:
  assumes "case hc_state d of ChunkData remaining \<Rightarrow> unat remaining \<le> length (x # rest) | _ \<Rightarrow> True"
  shows "chunk_turn d x (rest @ b) = shift_turn b (chunk_turn d x rest)"
proof (cases "hc_state d")
  case (SizeLine line)
  then show ?thesis unfolding chunk_turn_def size_line_turn_def Let_def
    by (simp only: ChunkState.case append_Cons [symmetric]) (rule charged_shift, simp only: shift_turn_simps append_Cons)
next
  case (ChunkData remaining)
  with assms have r: "unat remaining \<le> length (x # rest)" by simp
  then have "min (unat remaining) (length ((x # rest) @ b)) = min (unat remaining) (length (x # rest))"
    "take (unat remaining) ((x # rest) @ b) = take (unat remaining) (x # rest)"
    "drop (unat remaining) ((x # rest) @ b) = drop (unat remaining) (x # rest) @ b"
    by (simp_all only: take_append drop_append length_append) simp_all
  with r ChunkData show ?thesis unfolding chunk_turn_def chunk_data_turn_def Let_def
    by (simp only: ChunkState.case append_Cons [symmetric] min_absorb1)
      (rule charged_shift, simp only: shift_turn_simps append_Cons)
next
  case (DataCrLf seen)
  then show ?thesis unfolding chunk_turn_def data_crlf_turn_def
    by (simp only: ChunkState.case append_Cons [symmetric]) (rule charged_shift, simp only: shift_turn_simps append_Cons)
next
  case (TrailerLine line)
  then show ?thesis unfolding chunk_turn_def trailer_line_turn_def Let_def
    by (simp only: ChunkState.case append_Cons [symmetric]) (rule charged_shift, simp only: shift_turn_simps append_Cons)
qed (simp add: chunk_turn_def)

lemma read_chunked_open:
  "read_chunked d a = Ok (d', out, rest) \<Longrightarrow> \<not> hc_is_complete d' \<Longrightarrow> rest = []"
proof (induction d a arbitrary: out rule: hc_loop.induct)
  case (2 d b bs)
  show ?case
  proof (cases "hc_is_complete d")
    case False
    obtain d1 o1 r1 e where t: "chunk_turn d b bs = (d1, o1, r1, e)" by (cases "chunk_turn d b bs") auto
    with 2 False show ?thesis by (cases e) (auto simp: read_chunked_turn then_read_def)
  qed (use 2 in simp)
qed simp

lemma then_read_Nil [simp]: "then_read read_chunked (read_chunked d a) [] = read_chunked d a"
proof (cases "read_chunked d a")
  case (Inr p)
  obtain d' out rest where p: "p = (d', out, rest)" by (cases p) auto
  with Inr read_chunked_open [of d a d' out rest] show ?thesis
    by (cases "hc_is_complete d'") (auto simp: then_read_def)
qed simp

lemma unat_minus_of_nat: "n \<le> unat (r::u64) \<Longrightarrow> unat (r - of_nat n) = unat r - n"
proof -
  assume n: "n \<le> unat r"
  then have "unat (of_nat n :: u64) = n" using unat_u64_less [of r] by (simp add: unat_of_nat)
  with n show ?thesis by (simp add: unat_sub word_le_nat_alt)
qed

text \<open>The data of a chunk may be cut anywhere.\<close>

definition after_data :: "HttpChunkedDecoder \<Rightarrow> u64 \<Rightarrow> nat \<Rightarrow> HttpChunkedDecoder" where
  "after_data d remaining count =
     (let left = remaining - of_nat count in
      d\<lparr>wire_bytes := wire_bytes d + of_nat count, hc_decoded_bytes := hc_decoded_bytes d + of_nat count,
        hc_state := (if left = 0 then DataCrLf 0 else ChunkData left)\<rparr>)"

lemma data_turn_result:
  assumes "hc_state d = ChunkData remaining" and c: "c = min (unat remaining) (length (x # xs))"
  shows "turn_result (chunk_turn d x xs) =
    (if unat (wire_bytes d) + c \<le> MAX_HTTP_WIRE_BYTES
     then Ok (after_data d remaining c, take c (x # xs), drop c (x # xs)) else Err TooMuchFraming)"
proof -
  have "c < 2 ^ 64" using unat_u64_less [of remaining] by (simp add: c)
  then show ?thesis
    unfolding chunk_turn_def assms(1) ChunkState.case chunk_data_turn_def c [symmetric] Let_def
    by (subst charged_result) (simp_all add: after_data_def Let_def)
qed

lemma read_data:
  assumes d: "hc_state d = ChunkData remaining" and bs: "bs \<noteq> []" and c: "c = min (unat remaining) (length bs)"
  shows "read_chunked d bs =
    (if unat (wire_bytes d) + c \<le> MAX_HTTP_WIRE_BYTES
     then then_read read_chunked (Ok (after_data d remaining c, take c bs, drop c bs)) [] else Err TooMuchFraming)"
proof -
  obtain x xs where x: "bs = x # xs" using bs by (cases bs) auto
  show ?thesis unfolding x
    by (subst read_chunked_turn) (simp_all add: data_turn_result [OF d c [unfolded x]] hc_is_complete_def d)
qed

lemma after_data_twice:
  "after_data (after_data d r n) (r - of_nat n) m = after_data d r (n + m)"
  by (simp add: after_data_def Let_def algebra_simps)

lemma unat_add_of_nat: "unat (w::u64) + n < 2 ^ 64 \<Longrightarrow> unat (w + of_nat n) = unat w + n"
  by (simp add: unat_word_ariths unat_of_nat)

lemma data_split:
  assumes d: "hc_state d = ChunkData remaining" and len: "length a < unat remaining" and ne: "a \<noteq> []"
  shows "read_chunked d (a @ b) = then_read read_chunked (read_chunked d a) b"
proof (cases "b = []")
  case False
  let ?n = "length a" and ?m = "min (unat remaining - length a) (length b)" and ?w = "unat (wire_bytes d)"
  let ?dA = "after_data d remaining ?n"
  have left: "unat (remaining - of_nat ?n) = unat remaining - ?n" using len by (simp add: unat_minus_of_nat)
  then have dA: "hc_state ?dA = ChunkData (remaining - of_nat ?n)"
    using len by (auto simp: after_data_def Let_def unat_eq_0 [symmetric])
  have a: "read_chunked d a = (if ?w + ?n \<le> MAX_HTTP_WIRE_BYTES then Ok (?dA, a, []) else Err TooMuchFraming)"
    using read_data [OF d ne, of ?n] len by (simp add: then_read_def)
  have nm: "?n + ?m = min (unat remaining) (length (a @ b))" using len by simp
  have ab: "read_chunked d (a @ b) = (if ?w + (?n + ?m) \<le> MAX_HTTP_WIRE_BYTES
      then then_read read_chunked (Ok (after_data d remaining (?n + ?m), a @ take ?m b, drop ?m b)) [] else Err TooMuchFraming)"
    using read_data [OF d _ nm] ne by simp
  show ?thesis
  proof (cases "?w + ?n \<le> MAX_HTTP_WIRE_BYTES")
    case True
    then have w: "unat (wire_bytes ?dA) = ?w + ?n"
      using unat_add_of_nat [of "wire_bytes d" ?n] wire_limit by (simp add: after_data_def Let_def)
    have "read_chunked ?dA b = (if ?w + (?n + ?m) \<le> MAX_HTTP_WIRE_BYTES
      then then_read read_chunked (Ok (after_data d remaining (?n + ?m), take ?m b, drop ?m b)) [] else Err TooMuchFraming)"
      using read_data [OF dA False, of ?m] by (simp add: left w after_data_twice add.assoc)
    with True show ?thesis unfolding a ab
      by (auto simp: then_read_def rbind_def split: sum.splits)
  qed (simp add: a ab)
qed simp

lemma read_chunked_append: "read_chunked d (a @ b) = then_read read_chunked (read_chunked d a) b"
proof (induction d a rule: hc_loop.induct)
  case (2 d x xs)
  show ?case
  proof (cases "hc_is_complete d \<or> (\<exists>r. hc_state d = ChunkData r \<and> length (x # xs) < unat r)")
    case True
    then show ?thesis using data_split [of d _ "x # xs" b] by auto
  next
    case False
    then have o: "\<not> hc_is_complete d" by simp
    obtain d1 o1 r1 e where t: "chunk_turn d x xs = (d1, o1, r1, e)" by (cases "chunk_turn d x xs") auto
    have "chunk_turn d x (xs @ b) = (d1, o1, r1 @ b, e)"
      using chunk_turn_shift [of x xs d b] False by (simp add: t not_less split: ChunkState.splits)
    then show ?thesis using 2 o t
      by (cases e) (auto simp: read_chunked_turn then_read_def rbind_def split: sum.splits)
  qed
qed simp

interpretation chunked: framed read_chunked hc_is_complete
  by unfold_locales (rule read_chunked_append, simp, erule read_chunked_open, assumption, simp)

lemma chunk_turn_suffix:
  assumes "chunk_turn d b rest = (d', out, rest', None)"
  shows "\<exists>pre. b # rest = pre @ rest'"
proof (cases "hc_state d")
  case (SizeLine line)
  with assms have "rest' = rest"
    by (auto simp: chunk_turn_def size_line_turn_def Let_def elim!: charged_cases split: if_splits sum.splits option.splits)
  then show ?thesis by simp
next
  case (ChunkData remaining)
  with assms have "\<exists>n. rest' = drop n (b # rest)"
    by (auto simp: chunk_turn_def chunk_data_turn_def Let_def elim!: charged_cases)
  then show ?thesis by (metis append_take_drop_id)
next
  case (DataCrLf seen)
  with assms have "rest' = rest"
    by (auto simp: chunk_turn_def data_crlf_turn_def elim!: charged_cases split: if_splits)
  then show ?thesis by simp
next
  case (TrailerLine line)
  with assms have "rest' = rest"
    by (auto simp: chunk_turn_def trailer_line_turn_def Let_def elim!: charged_cases split: if_splits sum.splits)
  then show ?thesis by simp
qed (use assms in \<open>simp add: chunk_turn_def\<close>)

lemma read_chunked_suffix: "read_chunked d bs = Ok (d', out, rest) \<Longrightarrow> \<exists>pre. bs = pre @ rest"
proof (induction d bs arbitrary: out rule: hc_loop.induct)
  case (2 d b bs)
  show ?case
  proof (cases "hc_is_complete d")
    case False
    obtain d1 o1 r1 e where t: "chunk_turn d b bs = (d1, o1, r1, e)" by (cases "chunk_turn d b bs") auto
    with 2 False show ?thesis
      by (cases e) (auto simp: read_chunked_turn then_read_def dest!: chunk_turn_suffix, metis append.assoc)
  qed (use 2 in simp)
qed simp

text \<open>What a call of \<^verbatim>\<open>BodyFraming::push\<close> leaves of its fragment.\<close>

definition read_body :: "BodyFraming \<Rightarrow> bytes \<Rightarrow> FramingError + BodyFraming \<times> bytes \<times> bytes" where
  "read_body framing bs =
     (case BodyFraming_push framing bs of
        (f, Inl e) \<Rightarrow> Err e
      | (f, Inr (progress, out)) \<Rightarrow> Ok (f, out, drop (consumed progress) bs))"

lemma read_body_simps:
  "read_body NoBody bs = Ok (NoBody, [], bs)"
  "read_body (ContentLength n) bs =
     (let c = min (unat n) (length bs) in Ok (ContentLength (n - of_nat c), take c bs, drop c bs))"
  "read_body (ChunkedBody d) bs = rbind (read_chunked d bs) (\<lambda>(d', out, rest). Ok (ChunkedBody d', out, rest))"
proof -
  show "read_body (ChunkedBody d) bs = rbind (read_chunked d bs) (\<lambda>(d', out, rest). Ok (ChunkedBody d', out, rest))"
  proof (cases "hc_loop d bs")
    case (fields d' out rest r)
    show ?thesis
    proof (cases r)
      case None
      with fields read_chunked_suffix [of d bs d' out rest] show ?thesis
        by (auto simp: read_body_def BodyFraming_push_def HttpChunkedDecoder_push_def read_chunked_def)
    qed (use fields in \<open>simp add: read_body_def BodyFraming_push_def HttpChunkedDecoder_push_def read_chunked_def\<close>)
  qed
qed (simp_all add: read_body_def BodyFraming_push_def Let_def)

text \<open>The flag a call reports is that the framing is complete.\<close>

lemma push_reports_complete:
  "BodyFraming_push framing bs = (f, Ok (progress, out)) \<Longrightarrow> dp_complete progress = BodyFraming_is_complete f"
  by (auto simp: BodyFraming_push_def BodyFraming_is_complete_def HttpChunkedDecoder_push_def Let_def
      split: BodyFraming.splits prod.splits option.splits)

lemma read_length_append:
  "read_body (ContentLength n) (a @ b) = then_read read_body (read_body (ContentLength n) a) b"
proof (cases "unat n \<le> length a")
  case True
  then have "n - of_nat (unat n) = 0" by simp
  with True show ?thesis by (simp add: read_body_simps then_read_def Let_def)
next
  case False
  then have "unat (n - of_nat (length a)) = unat n - length a" by (simp add: unat_minus_of_nat)
  moreover have "min (unat n) (length a + length b) = length a + min (unat n - length a) (length b)" using False by simp
  ultimately show ?thesis using False by (simp add: read_body_simps then_read_def Let_def algebra_simps)
qed

interpretation body: framed read_body BodyFraming_is_complete
proof
  fix f a b
  show "read_body f (a @ b) = then_read read_body (read_body f a) b"
  proof (cases f)
    case (ChunkedBody d)
    show ?thesis unfolding ChunkedBody read_body_simps read_chunked_append [of d a b]
      by (auto simp: read_body_simps then_read_def rbind_def split: sum.splits)
  qed (simp_all add: read_length_append, simp add: read_body_simps)
next
  fix f
  show "read_body f [] = Ok (f, [], [])" by (cases f) (simp_all add: read_body_simps)
next
  fix f a f' out rest
  assume "read_body f a = Ok (f', out, rest)" "\<not> BodyFraming_is_complete f'"
  then show "rest = []"
    by (cases f) (auto simp: read_body_simps BodyFraming_is_complete_def Let_def min_def split: if_splits dest: read_chunked_open)
next
  fix f a
  assume "BodyFraming_is_complete f"
  then show "read_body f a = Ok (f, [], a)"
    by (cases f) (auto simp: read_body_simps BodyFraming_is_complete_def)
qed

end
