(* ===== verification/ChunkGrammar.thy ===== *)
theory ChunkGrammar
  imports Framing
begin

text \<open>
  The language of the chunked coding as a grammar, and that the incremental decoder of
  \<^verbatim>\<open>workers/http.rs\<close> accepts exactly that language, within its limits.
\<close>

section \<open>The grammar\<close>

definition clean_line :: "bytes \<Rightarrow> bool" where
  "clean_line line \<longleftrightarrow> 0x0d \<notin> set line \<and> 0x0a \<notin> set line"

text \<open>A trailer section: lines and an empty line, with the number of the lines.\<close>

inductive trailer_section :: "nat \<Rightarrow> bytes \<Rightarrow> bool" where
  trailers_end: "trailer_section 0 CRLF"
| trailers_line: "\<lbrakk>clean_line line; line \<noteq> []; length line < MAX_TRAILER_LINE_BYTES;
    validate_trailer_line line = Ok (); trailer_section k w\<rbrakk> \<Longrightarrow> trailer_section (Suc k) (line @ CRLF @ w)"

text \<open>
  A body: chunks, a chunk of size zero and a trailer section.  The indices are the number of trailer
  lines and the length of the trailer section.
\<close>

inductive chunked_coding :: "nat \<Rightarrow> nat \<Rightarrow> bytes \<Rightarrow> bytes \<Rightarrow> bool" where
  last_chunk: "\<lbrakk>clean_line line; length line < MAX_CHUNK_LINE_BYTES; parse_chunk_size_line line = Ok 0;
    trailer_section k w\<rbrakk> \<Longrightarrow> chunked_coding k (length w) (line @ CRLF @ w) []"
| chunk: "\<lbrakk>clean_line line; length line < MAX_CHUNK_LINE_BYTES; parse_chunk_size_line line = Ok n; n \<noteq> 0;
    length data = unat n; chunked_coding k t w e\<rbrakk> \<Longrightarrow> chunked_coding k t (line @ CRLF @ data @ CRLF @ w) (data @ e)"


text \<open>What a decoder still expects in each of its states.\<close>

definition pending :: "ChunkState \<Rightarrow> nat \<Rightarrow> nat \<Rightarrow> bytes \<Rightarrow> bytes \<Rightarrow> bool" where
  "pending st k t w e =
     (case st of
        SizeLine pre \<Rightarrow> chunked_coding k t (pre @ w) e
      | ChunkData r \<Rightarrow> (\<exists>data w' e'. w = data @ CRLF @ w' \<and> e = data @ e' \<and> length data = unat r \<and> chunked_coding k t w' e')
      | DataCrLf seen \<Rightarrow> (\<exists>w'. w = (if seen = 0 then CRLF else [0x0a]) @ w' \<and> chunked_coding k t w' e)
      | TrailerLine pre \<Rightarrow> trailer_section k (pre @ w) \<and> e = [] \<and> t = length w
      | ChunksComplete \<Rightarrow> k = 0 \<and> t = 0 \<and> w = [] \<and> e = [])"

text \<open>The limits, on what has been read and what is expected.\<close>

definition within :: "HttpChunkedDecoder \<Rightarrow> nat \<Rightarrow> nat \<Rightarrow> bytes \<Rightarrow> bytes \<Rightarrow> bool" where
  "within d k t w e \<longleftrightarrow>
     unat (wire_bytes d) + length w \<le> MAX_HTTP_WIRE_BYTES
     \<and> unat (hc_decoded_bytes d) + length e \<le> MAX_HTTP_BODY_BYTES
     \<and> trailer_bytes d + t \<le> MAX_TRAILER_BYTES
     \<and> hc_trailers d + k \<le> MAX_TRAILERS"

section \<open>The decoder's invariant\<close>

definition partial_line :: "nat \<Rightarrow> bytes \<Rightarrow> bool" where
  "partial_line limit pre \<longleftrightarrow> 0x0a \<notin> set pre \<and> 0x0d \<notin> set (butlast pre) \<and> length pre \<le> limit"

definition state_ok :: "HttpChunkedDecoder \<Rightarrow> bool" where
  "state_ok d =
     (case hc_state d of
        SizeLine pre \<Rightarrow> partial_line MAX_CHUNK_LINE_BYTES pre
      | ChunkData r \<Rightarrow> r \<noteq> 0 \<and> unat (hc_decoded_bytes d) + unat r \<le> MAX_HTTP_BODY_BYTES
      | DataCrLf seen \<Rightarrow> seen = 0 \<or> seen = 1
      | TrailerLine pre \<Rightarrow> partial_line MAX_TRAILER_LINE_BYTES pre
      | ChunksComplete \<Rightarrow> True)"

definition hc_inv :: "HttpChunkedDecoder \<Rightarrow> bool" where
  "hc_inv d \<longleftrightarrow> state_ok d \<and> unat (wire_bytes d) \<le> MAX_HTTP_WIRE_BYTES
     \<and> unat (hc_decoded_bytes d) \<le> MAX_HTTP_BODY_BYTES
     \<and> trailer_bytes d \<le> MAX_TRAILER_BYTES \<and> hc_trailers d \<le> MAX_TRAILERS"

lemma partial_line_snoc:
  assumes "partial_line limit pre" "b \<noteq> 0x0a" "\<not> (pre \<noteq> [] \<and> last pre = 0x0d)" "length pre < limit"
  shows "partial_line limit (pre @ [b])"
proof -
  have "0x0d \<notin> set pre"
    using assms(1,3) by (cases pre rule: rev_cases) (auto simp: partial_line_def)
  with assms show ?thesis by (auto simp: partial_line_def)
qed

lemma partial_line_clean:
  assumes "partial_line limit pre" "pre \<noteq> []"
  shows "clean_line (butlast pre)" "length (butlast pre) < limit"
  using assms by (auto simp: partial_line_def clean_line_def dest: in_set_butlastD)
    (cases pre rule: rev_cases, auto)

text \<open>How the next byte of a line continues it.\<close>

lemma line_next:
  assumes eq: "pre @ b # w = line @ CRLF @ tail" and line: "clean_line line" and pre: "0x0a \<notin> set pre"
  obtains (ends) "b = 0x0a" "pre = line @ [0x0d]" "w = tail"
  | (goes_on) "b \<noteq> 0x0a" "0x0d \<notin> set pre" "length pre \<le> length line"
proof -
  let ?l = "line @ [0x0d]"
  have eq': "pre @ b # w = ?l @ 0x0a # tail" using eq by (simp add: CRLF_def)
  have l: "0x0a \<notin> set ?l" using line by (simp add: clean_line_def)
  from iffD1 [OF append_eq_append_conv2 eq'] consider (cut) us where "?l = pre @ us" "b # w = us @ 0x0a # tail" | (over) us where "pre = ?l @ us" "us @ b # w = 0x0a # tail"
    by metis
  then show ?thesis
  proof cases
    case cut
    show ?thesis
    proof (cases us)
      case Nil
      with cut ends show ?thesis by auto
    next
      case (Cons u us')
      with cut(1) have "line = pre @ butlast us" by (metis butlast_append butlast_snoc list.distinct(1))
      moreover have "b \<noteq> 0x0a" using cut l Cons by auto
      ultimately show ?thesis using line goes_on by (auto simp: clean_line_def)
    qed
  next
    case over
    with pre show ?thesis using ends by (cases us) auto
  qed
qed

section \<open>The turns that go on\<close>

lemma body_limit: "MAX_HTTP_BODY_BYTES < 2 ^ 64"
  by (simp add: MAX_HTTP_BODY_BYTES_def)

lemma checked_total_None: "checked_add (a::u64) n = None \<Longrightarrow> \<not> unat a + unat n \<le> MAX_HTTP_BODY_BYTES"
  using body_limit by (simp add: checked_add_None)

lemma size_turn_Ok:
  assumes "hc_state d = SizeLine pre"
  shows "turn_result (chunk_turn d b bs) = Ok (d1, o1, r1) \<longleftrightarrow>
    unat (wire_bytes d) + 1 \<le> MAX_HTTP_WIRE_BYTES \<and> o1 = [] \<and> r1 = bs \<and>
    (b = 0x0a \<and> pre \<noteq> [] \<and> last pre = 0x0d \<and>
       (\<exists>n. parse_chunk_size_line (butlast pre) = Ok n \<and> unat (hc_decoded_bytes d) + unat n \<le> MAX_HTTP_BODY_BYTES
          \<and> d1 = d\<lparr>wire_bytes := wire_bytes d + 1, hc_state := (if n = 0 then TrailerLine [] else ChunkData n)\<rparr>)
     \<or> b \<noteq> 0x0a \<and> \<not> (pre \<noteq> [] \<and> last pre = 0x0d) \<and> length pre < MAX_CHUNK_LINE_BYTES
       \<and> d1 = d\<lparr>wire_bytes := wire_bytes d + 1, hc_state := SizeLine (pre @ [b])\<rparr>)"
proof (cases "b = 0x0a")
  case True
  show ?thesis
  proof (cases "parse_chunk_size_line (butlast pre)")
    case (Inr n)
    then show ?thesis using True checked_total_None [of "hc_decoded_bytes d" n] checked_add_Some [of "hc_decoded_bytes d" n]
      by (cases "checked_add (hc_decoded_bytes d) n")
        (auto simp: chunk_turn_def assms size_line_turn_def charged_result Let_def split: if_splits)
  qed (use True in \<open>auto simp: chunk_turn_def assms size_line_turn_def charged_result Let_def\<close>)
qed (auto simp: chunk_turn_def assms size_line_turn_def charged_result Let_def)

lemma crlf_turn_Ok:
  assumes "hc_state d = DataCrLf seen"
  shows "turn_result (chunk_turn d b bs) = Ok (d1, o1, r1) \<longleftrightarrow>
    unat (wire_bytes d) + 1 \<le> MAX_HTTP_WIRE_BYTES \<and> o1 = [] \<and> r1 = bs \<and>
    b = (if seen = 0 then 0x0d else 0x0a)
    \<and> d1 = d\<lparr>wire_bytes := wire_bytes d + 1, hc_state := (if seen = 1 then SizeLine [] else DataCrLf (seen + 1))\<rparr>"
proof -
  have "seen + 1 = 2 \<longleftrightarrow> seen = 1" by (metis add_right_cancel one_add_one)
  then show ?thesis using assms
    by (auto simp: chunk_turn_def data_crlf_turn_def charged_result)
qed

lemma trailer_turn_Ok:
  assumes "hc_state d = TrailerLine pre"
  shows "turn_result (chunk_turn d b bs) = Ok (d1, o1, r1) \<longleftrightarrow>
    unat (wire_bytes d) + 1 \<le> MAX_HTTP_WIRE_BYTES \<and> trailer_bytes d + 1 \<le> MAX_TRAILER_BYTES \<and> o1 = [] \<and> r1 = bs \<and>
    (b = 0x0a \<and> pre = [0x0d]
       \<and> d1 = d\<lparr>wire_bytes := wire_bytes d + 1, trailer_bytes := trailer_bytes d + 1, hc_state := ChunksComplete\<rparr>
     \<or> b = 0x0a \<and> pre \<noteq> [] \<and> last pre = 0x0d \<and> butlast pre \<noteq> [] \<and> validate_trailer_line (butlast pre) = Ok ()
       \<and> hc_trailers d + 1 \<le> MAX_TRAILERS
       \<and> d1 = d\<lparr>wire_bytes := wire_bytes d + 1, trailer_bytes := trailer_bytes d + 1, hc_trailers := hc_trailers d + 1,
           hc_state := TrailerLine []\<rparr>
     \<or> b \<noteq> 0x0a \<and> \<not> (pre \<noteq> [] \<and> last pre = 0x0d) \<and> length pre < MAX_TRAILER_LINE_BYTES
       \<and> d1 = d\<lparr>wire_bytes := wire_bytes d + 1, trailer_bytes := trailer_bytes d + 1, hc_state := TrailerLine (pre @ [b])\<rparr>)"
proof -
  have m: "trailer_bytes d + 1 \<le> MAX_TRAILER_BYTES \<Longrightarrow> \<not> trailer_bytes d + 1 \<ge> 2 ^ 64"
    by (simp add: MAX_TRAILER_BYTES_def)
  show ?thesis
  proof (cases "b = 0x0a")
    case True
    show ?thesis
    proof (cases "validate_trailer_line (butlast pre)")
      case (Inr u)
      then show ?thesis using True m
        by (cases pre rule: rev_cases) (auto simp: chunk_turn_def assms trailer_line_turn_def charged_result Let_def not_less split: if_splits)
    qed (use True m in \<open>cases pre rule: rev_cases, auto simp: chunk_turn_def assms trailer_line_turn_def charged_result Let_def not_less\<close>)
  qed (use m in \<open>auto simp: chunk_turn_def assms trailer_line_turn_def charged_result Let_def not_less\<close>)
qed

lemma charge_one: "unat (w::u64) + 1 \<le> MAX_HTTP_WIRE_BYTES \<Longrightarrow> unat (w + 1) = unat w + 1"
  using unat_add_of_nat [of w 1] wire_limit by simp

lemma after_data_counts:
  assumes "unat (wire_bytes d) + c \<le> MAX_HTTP_WIRE_BYTES" "unat (hc_decoded_bytes d) + c \<le> MAX_HTTP_BODY_BYTES"
  shows "unat (wire_bytes (after_data d r c)) = unat (wire_bytes d) + c"
    "unat (hc_decoded_bytes (after_data d r c)) = unat (hc_decoded_bytes d) + c"
    "trailer_bytes (after_data d r c) = trailer_bytes d" "hc_trailers (after_data d r c) = hc_trailers d"
  using unat_add_of_nat [of "wire_bytes d" c] unat_add_of_nat [of "hc_decoded_bytes d" c] assms wire_limit body_limit
  by (simp_all add: after_data_def Let_def)

lemma after_data_state:
  assumes "c \<le> unat r"
  shows "hc_state (after_data d r c) = (if c = unat r then DataCrLf 0 else ChunkData (r - of_nat c))"
proof -
  have "r - of_nat c = 0 \<longleftrightarrow> c = unat r"
    using unat_minus_of_nat [OF assms] assms by (metis unat_eq_zero diff_is_0_eq' diff_self_eq_0 le_antisym le_refl unat_0 diff_is_0_eq)
  then show ?thesis by (simp add: after_data_def Let_def)
qed

text \<open>The invariant, and that the counters count without wrapping around.\<close>

lemma turn_inv:
  assumes inv: "hc_inv d" and turn: "turn_result (chunk_turn d b bs) = Ok (d1, o1, r1)"
  shows "hc_inv d1 \<and> unat (hc_decoded_bytes d1) = unat (hc_decoded_bytes d) + length o1"
proof (cases "hc_state d")
  case (SizeLine pre)
  then have p: "partial_line MAX_CHUNK_LINE_BYTES pre" using inv by (simp add: hc_inv_def state_ok_def)
  from turn inv charge_one [of "wire_bytes d"] show ?thesis
    unfolding size_turn_Ok [OF SizeLine]
    by (auto simp: hc_inv_def state_ok_def partial_line_snoc [OF p]) (simp_all add: partial_line_def)
next
  case (ChunkData r)
  let ?c = "min (unat r) (length (b # bs))"
  from turn have w: "unat (wire_bytes d) + ?c \<le> MAX_HTTP_WIRE_BYTES" and d1: "d1 = after_data d r ?c" "o1 = take ?c (b # bs)"
    by (auto simp: data_turn_result [OF ChunkData refl] simp del: take_Cons' split: if_splits)
  have r: "unat (hc_decoded_bytes d) + unat r \<le> MAX_HTTP_BODY_BYTES"
    using inv ChunkData by (simp add: hc_inv_def state_ok_def)
  then have "unat (hc_decoded_bytes d) + ?c \<le> MAX_HTTP_BODY_BYTES" by simp
  note a = after_data_counts [OF w this, of r] after_data_state [of ?c r d]
  have "length o1 = ?c" by (simp add: d1)
  moreover have "state_ok d1"
    using a r unat_minus_of_nat [of ?c r] by (auto simp: d1 state_ok_def simp del: length_Cons)
  ultimately show ?thesis using a w inv r by (simp add: d1 hc_inv_def)
next
  case (DataCrLf seen)
  with turn inv charge_one [of "wire_bytes d"] show ?thesis
    unfolding crlf_turn_Ok [OF DataCrLf] by (auto simp: hc_inv_def state_ok_def partial_line_def)
next
  case (TrailerLine pre)
  then have p: "partial_line MAX_TRAILER_LINE_BYTES pre" using inv by (simp add: hc_inv_def state_ok_def)
  from turn inv charge_one [of "wire_bytes d"] show ?thesis
    unfolding trailer_turn_Ok [OF TrailerLine]
    by (auto simp: hc_inv_def state_ok_def partial_line_snoc [OF p]) (simp_all add: partial_line_def)
next
  case ChunksComplete
  with turn inv show ?thesis by (auto simp: chunk_turn_def)
qed

section \<open>The decoder reads the grammar\<close>

text \<open>The input goes on as the decoder expects, with the entity \<open>e\<close> and \<open>rest\<close> behind it.\<close>

definition resumes :: "HttpChunkedDecoder \<Rightarrow> bytes \<Rightarrow> bytes \<Rightarrow> bytes \<Rightarrow> bool" where
  "resumes d input rest e \<longleftrightarrow> (\<exists>k t w. input = w @ rest \<and> pending (hc_state d) k t w e \<and> within d k t w e)"

lemma resumesI: "pending (hc_state d) k t w e \<Longrightarrow> within d k t w e \<Longrightarrow> resumes d (w @ rest) rest e"
  by (auto simp: resumes_def)

lemma partial_line_CR:
  assumes "partial_line limit pre" "pre \<noteq> []" "last pre = 0x0d"
  shows "pre @ 0x0a # w = butlast pre @ CRLF @ w" "clean_line (butlast pre)" "length (butlast pre) < limit"
proof -
  from assms(2,3) obtain p where "pre = p @ [0x0d]" by (cases pre rule: rev_cases) auto
  then show "pre @ 0x0a # w = butlast pre @ CRLF @ w" by (simp add: CRLF_def)
qed (use partial_line_clean [OF assms(1,2)] in auto)

lemma size_sound:
  assumes st: "hc_state d = SizeLine pre" and inv: "hc_inv d"
    and turn: "turn_result (chunk_turn d b bs) = Ok (d1, o1, r1)" and later: "resumes d1 r1 rest e1"
  shows "resumes d (b # bs) rest (o1 @ e1)"
proof -
  have p: "partial_line MAX_CHUNK_LINE_BYTES pre" using inv st by (simp add: hc_inv_def state_ok_def)
  from later obtain k t w where r1: "r1 = w @ rest" and p1: "pending (hc_state d1) k t w e1" and l1: "within d1 k t w e1"
    by (auto simp: resumes_def)
  note T = turn [unfolded size_turn_Ok [OF st]]
  then have w1: "unat (wire_bytes d + 1) = unat (wire_bytes d) + 1" by (simp add: charge_one)
  have "chunked_coding k t (pre @ b # w) e1"
  proof (cases "b = 0x0a")
    case False
    with T p1 show ?thesis by (auto simp: pending_def)
  next
    case True
    with T obtain n where n: "parse_chunk_size_line (butlast pre) = Ok n" "pre \<noteq> []" "last pre = 0x0d"
      and d1: "hc_state d1 = (if n = 0 then TrailerLine [] else ChunkData n)" by auto
    note line = partial_line_CR [OF p n(2,3)]
    show ?thesis
    proof (cases "n = 0")
      case z: True
      with p1 last_chunk [OF line(2,3), of k w] n show ?thesis by (simp add: d1 pending_def line(1) True)
    next
      case nz: False
      with p1 obtain data w' e' where s: "w = data @ CRLF @ w'" "e1 = data @ e'" "length data = unat n" "chunked_coding k t w' e'"
        by (auto simp: d1 pending_def)
      from chunk [OF line(2,3) n(1) nz s(3,4)] show ?thesis by (simp add: True line(1) s(1,2))
    qed
  qed
  moreover have "within d k t (b # w) e1" using l1 T w1 by (auto simp: within_def)
  ultimately show ?thesis using T r1 resumesI [of d k t "b # w" e1 rest] by (simp add: st pending_def)
qed

lemma data_sound:
  assumes st: "hc_state d = ChunkData r" and inv: "hc_inv d"
    and turn: "turn_result (chunk_turn d b bs) = Ok (d1, o1, r1)" and later: "resumes d1 r1 rest e1"
  shows "resumes d (b # bs) rest (o1 @ e1)"
proof -
  define c where "c = min (unat r) (length (b # bs))"
  then have cr: "c \<le> unat r" by simp
  from turn have w: "unat (wire_bytes d) + c \<le> MAX_HTTP_WIRE_BYTES" and d1: "d1 = after_data d r c"
    and o: "o1 = take c (b # bs)" "r1 = drop c (b # bs)"
    by (auto simp: data_turn_result [OF st c_def] split: if_splits)
  from later obtain k t w1 where r1: "r1 = w1 @ rest" and p1: "pending (hc_state d1) k t w1 e1" and l1: "within d1 k t w1 e1"
    by (auto simp: resumes_def)
  have "unat (hc_decoded_bytes d) + c \<le> MAX_HTTP_BODY_BYTES" using inv st cr by (auto simp: hc_inv_def state_ok_def)
  note a = after_data_counts [OF w this, of r] after_data_state [OF cr, of d]
  have len: "length o1 = c" by (simp add: o c_def)
  have "pending (hc_state d) k t (o1 @ w1) (o1 @ e1)"
  proof (cases "c = unat r")
    case True
    with p1 a obtain w' where "w1 = CRLF @ w'" "chunked_coding k t w' e1" by (auto simp: d1 pending_def)
    with True len show ?thesis unfolding st by (auto simp: pending_def)
  next
    case False
    with p1 a obtain data w' e' where s: "w1 = data @ CRLF @ w'" "e1 = data @ e'"
      "length data = unat (r - of_nat c)" "chunked_coding k t w' e'" by (auto simp: d1 pending_def)
    with len cr unat_minus_of_nat [OF cr] have "length (o1 @ data) = unat r" by simp
    with s show ?thesis unfolding st by (simp add: pending_def) (metis append.assoc length_append)
  qed
  moreover have "within d k t (o1 @ w1) (o1 @ e1)" using l1 a len by (simp add: d1 within_def)
  moreover have "b # bs = (o1 @ w1) @ rest" unfolding append.assoc r1 [symmetric] o by simp
  ultimately show ?thesis by (simp only: resumesI)
qed

lemma crlf_sound:
  assumes st: "hc_state d = DataCrLf seen" and inv: "hc_inv d"
    and turn: "turn_result (chunk_turn d b bs) = Ok (d1, o1, r1)" and later: "resumes d1 r1 rest e1"
  shows "resumes d (b # bs) rest (o1 @ e1)"
proof -
  from later obtain k t w where l: "r1 = w @ rest" "pending (hc_state d1) k t w e1" "within d1 k t w e1"
    by (auto simp: resumes_def)
  note T = turn [unfolded crlf_turn_Ok [OF st]]
  then have "unat (wire_bytes d + 1) = unat (wire_bytes d) + 1" by (simp add: charge_one)
  moreover have "seen = 0 \<or> seen = 1" using inv st by (simp add: hc_inv_def state_ok_def)
  ultimately show ?thesis using T l resumesI [of d k t "b # w" e1 rest]
    by (auto simp: st pending_def within_def CRLF_def)
qed

lemma trailer_sound:
  assumes st: "hc_state d = TrailerLine pre" and inv: "hc_inv d"
    and turn: "turn_result (chunk_turn d b bs) = Ok (d1, o1, r1)" and later: "resumes d1 r1 rest e1"
  shows "resumes d (b # bs) rest (o1 @ e1)"
proof -
  have p: "partial_line MAX_TRAILER_LINE_BYTES pre" using inv st by (simp add: hc_inv_def state_ok_def)
  from later obtain k t w where r1: "r1 = w @ rest" and p1: "pending (hc_state d1) k t w e1" and l1: "within d1 k t w e1"
    by (auto simp: resumes_def)
  note T = turn [unfolded trailer_turn_Ok [OF st]]
  then have w1: "unat (wire_bytes d + 1) = unat (wire_bytes d) + 1" by (simp add: charge_one)
  from T consider (stop) "b = 0x0a" "pre = [0x0d]" "hc_state d1 = ChunksComplete" "hc_trailers d1 = hc_trailers d"
    | (line) "b = 0x0a" "pre \<noteq> []" "last pre = 0x0d" "butlast pre \<noteq> []" "validate_trailer_line (butlast pre) = Ok ()"
       "hc_state d1 = TrailerLine []" "hc_trailers d1 = hc_trailers d + 1"
    | (byte) "hc_state d1 = TrailerLine (pre @ [b])" "hc_trailers d1 = hc_trailers d" by auto
  then have "\<exists>k'. trailer_section k' (pre @ b # w) \<and> e1 = [] \<and> t = length w \<and> hc_trailers d + k' \<le> MAX_TRAILERS"
  proof cases
    case stop
    with p1 l1 trailers_end show ?thesis by (auto simp: pending_def within_def CRLF_def intro!: exI [of _ 0])
  next
    case line
    note l = partial_line_CR [OF p line(2,3)]
    have "trailer_section (Suc k) (pre @ b # w)"
      unfolding line(1) l(1) using p1 line by (intro trailers_line l) (auto simp: pending_def)
    with line p1 l1 show ?thesis by (auto simp: pending_def within_def)
  next
    case byte
    with p1 l1 show ?thesis by (auto simp: pending_def within_def)
  qed
  then obtain k' where k': "trailer_section k' (pre @ b # w)" "e1 = []" "t = length w" "hc_trailers d + k' \<le> MAX_TRAILERS" by blast
  have "within d k' (t + 1) (b # w) []" using l1 T w1 k' by (auto simp: within_def)
  with k' T r1 resumesI [of d k' "t + 1" "b # w" "[]" rest] show ?thesis by (simp add: st pending_def)
qed

lemma turn_sound:
  assumes "hc_inv d" "turn_result (chunk_turn d b bs) = Ok (d1, o1, r1)" "resumes d1 r1 rest e1" "\<not> hc_is_complete d"
  shows "resumes d (b # bs) rest (o1 @ e1)"
proof (cases "hc_state d")
  case SizeLine
  then show ?thesis by (rule size_sound [OF _ assms(1-3)])
next
  case ChunkData
  then show ?thesis by (rule data_sound [OF _ assms(1-3)])
next
  case DataCrLf
  then show ?thesis by (rule crlf_sound [OF _ assms(1-3)])
next
  case TrailerLine
  then show ?thesis by (rule trailer_sound [OF _ assms(1-3)])
qed (use assms(4) in \<open>simp add: hc_is_complete_def\<close>)

lemma chunked_coding_line:
  assumes "chunked_coding k t w e"
  shows "\<exists>line n tail. w = line @ CRLF @ tail \<and> clean_line line \<and> length line < MAX_CHUNK_LINE_BYTES
    \<and> parse_chunk_size_line line = Ok n \<and> pending (if n = 0 then TrailerLine [] else ChunkData n) k t tail e"
  using assms
proof cases
  case (last_chunk line w')
  then show ?thesis by (intro exI [of _ line] exI [of _ 0] exI [of _ w']) (simp add: pending_def)
next
  case (chunk line n data w' e')
  then show ?thesis by (intro exI [of _ line] exI [of _ n] exI [of _ "data @ CRLF @ w'"]) (auto simp: pending_def)
qed

lemma size_complete:
  assumes st: "hc_state d = SizeLine pre" and inv: "hc_inv d"
    and p: "chunked_coding k t (pre @ b # w) e" and l: "within d k t (b # w) e"
  shows "\<exists>d1. turn_result (chunk_turn d b (w @ rest)) = Ok (d1, [], w @ rest) \<and> resumes d1 (w @ rest) rest e"
proof -
  have pre: "0x0a \<notin> set pre" using inv st by (simp add: hc_inv_def state_ok_def partial_line_def)
  have w1: "unat (wire_bytes d) + 1 \<le> MAX_HTTP_WIRE_BYTES" using l by (simp add: within_def)
  note c1 = charge_one [OF w1]
  from chunked_coding_line [OF p] obtain line n tail where line: "pre @ b # w = line @ CRLF @ tail" "clean_line line"
    "length line < MAX_CHUNK_LINE_BYTES" and n: "parse_chunk_size_line line = Ok n"
    and tail: "pending (if n = 0 then TrailerLine [] else ChunkData n) k t tail e" by blast
  from line(1,2) pre show ?thesis
  proof (cases rule: line_next)
    case ends
    let ?d1 = "d\<lparr>wire_bytes := wire_bytes d + 1, hc_state := (if n = 0 then TrailerLine [] else ChunkData n)\<rparr>"
    have "unat n \<le> length e" using tail by (cases "n = 0") (auto simp: pending_def)
    then have "turn_result (chunk_turn d b (w @ rest)) = Ok (?d1, [], w @ rest)"
      unfolding size_turn_Ok [OF st] using ends n w1 l by (auto simp: within_def)
    moreover have "resumes ?d1 (w @ rest) rest e"
      using tail ends l c1 by (intro resumesI) (auto simp: within_def)
    ultimately show ?thesis by blast
  next
    case goes_on
    let ?d1 = "d\<lparr>wire_bytes := wire_bytes d + 1, hc_state := SizeLine (pre @ [b])\<rparr>"
    have "turn_result (chunk_turn d b (w @ rest)) = Ok (?d1, [], w @ rest)"
      unfolding size_turn_Ok [OF st] using goes_on line(3) w1 by (auto dest: last_in_set)
    moreover have "resumes ?d1 (w @ rest) rest e"
      using p l c1 by (intro resumesI) (auto simp: pending_def within_def)
    ultimately show ?thesis by blast
  qed
qed

lemma data_complete:
  assumes st: "hc_state d = ChunkData r" and inv: "hc_inv d"
    and p: "pending (hc_state d) k t (b # w) e" and l: "within d k t (b # w) e"
  shows "\<exists>d1 o1 r1 e1. turn_result (chunk_turn d b (w @ rest)) = Ok (d1, o1, r1) \<and> e = o1 @ e1 \<and> resumes d1 r1 rest e1"
proof -
  define c where "c = min (unat r) (length (b # w @ rest))"
  from p st obtain data w' e' where s: "b # w = data @ CRLF @ w'" "e = data @ e'" "length data = unat r" "chunked_coding k t w' e'"
    by (auto simp: pending_def)
  have "unat r \<le> length (b # w)" unfolding s(1) by (simp add: s(3))
  then have c: "c = unat r" by (simp add: c_def)
  have w1: "unat (wire_bytes d) + c \<le> MAX_HTTP_WIRE_BYTES" using l \<open>unat r \<le> length (b # w)\<close> by (simp add: within_def c)
  have "unat (hc_decoded_bytes d) + c \<le> MAX_HTTP_BODY_BYTES" using inv st by (simp add: hc_inv_def state_ok_def c)
  note a = after_data_counts [OF w1 this, of r] after_data_state [of c r d]
  have eq: "b # w @ rest = data @ CRLF @ w' @ rest" using s(1) by (metis append.assoc append_Cons)
  have "turn_result (chunk_turn d b (w @ rest)) = Ok (after_data d r c, data, CRLF @ w' @ rest)"
    unfolding data_turn_result [OF st c_def] eq using w1 c s(3) by simp
  moreover have "length (b # w) = length data + length (CRLF @ w')" unfolding s(1) by simp
  then have "within (after_data d r c) k t (CRLF @ w') e'" using l a c s by (simp add: within_def)
  then have "resumes (after_data d r c) ((CRLF @ w') @ rest) rest e'"
    using s(4) a c by (intro resumesI) (auto simp: pending_def)
  ultimately show ?thesis using s(2) by auto
qed

lemma crlf_complete:
  assumes st: "hc_state d = DataCrLf seen" and inv: "hc_inv d"
    and p: "pending (hc_state d) k t (b # w) e" and l: "within d k t (b # w) e"
  shows "\<exists>d1. turn_result (chunk_turn d b (w @ rest)) = Ok (d1, [], w @ rest) \<and> resumes d1 (w @ rest) rest e"
proof -
  let ?d1 = "d\<lparr>wire_bytes := wire_bytes d + 1, hc_state := (if seen = 1 then SizeLine [] else DataCrLf (seen + 1))\<rparr>"
  have w1: "unat (wire_bytes d) + 1 \<le> MAX_HTTP_WIRE_BYTES" using l by (simp add: within_def)
  have seen: "seen = 0 \<or> seen = 1" using inv st by (simp add: hc_inv_def state_ok_def)
  have "turn_result (chunk_turn d b (w @ rest)) = Ok (?d1, [], w @ rest)"
    unfolding crlf_turn_Ok [OF st] using p w1 seen by (auto simp: st pending_def CRLF_def)
  moreover have "resumes ?d1 (w @ rest) rest e"
    using p l seen charge_one [OF w1] by (intro resumesI) (auto simp: st pending_def within_def CRLF_def)
  ultimately show ?thesis by blast
qed

lemma trailer_complete:
  assumes st: "hc_state d = TrailerLine pre" and inv: "hc_inv d"
    and p: "trailer_section k (pre @ b # w)" and l: "within d k (length (b # w)) (b # w) []"
  shows "\<exists>d1. turn_result (chunk_turn d b (w @ rest)) = Ok (d1, [], w @ rest) \<and> resumes d1 (w @ rest) rest []"
proof -
  have pre: "0x0a \<notin> set pre" using inv st by (simp add: hc_inv_def state_ok_def partial_line_def)
  have w1: "unat (wire_bytes d) + 1 \<le> MAX_HTTP_WIRE_BYTES" and t1: "trailer_bytes d + 1 \<le> MAX_TRAILER_BYTES"
    using l by (simp_all add: within_def)
  note c1 = charge_one [OF w1]
  let ?d1 = "\<lambda>st n. d\<lparr>wire_bytes := wire_bytes d + 1, trailer_bytes := trailer_bytes d + 1, hc_trailers := hc_trailers d + n, hc_state := st\<rparr>"
  have byte: ?thesis if "b \<noteq> 0x0a" "0x0d \<notin> set pre" "length pre < MAX_TRAILER_LINE_BYTES"
  proof -
    have "turn_result (chunk_turn d b (w @ rest)) = Ok (?d1 (TrailerLine (pre @ [b])) 0, [], w @ rest)"
      unfolding trailer_turn_Ok [OF st] using that w1 t1 by (auto dest: last_in_set)
    moreover have "resumes (?d1 (TrailerLine (pre @ [b])) 0) (w @ rest) rest []"
      using p l c1 by (intro resumesI [of _ k "length w"]) (auto simp: pending_def within_def)
    ultimately show ?thesis by blast
  qed
  from p show ?thesis
  proof cases
    case trailers_end
    have "pre @ b # w = [] @ CRLF @ []" "clean_line []" using trailers_end by (simp_all add: clean_line_def)
    from this pre show ?thesis
    proof (cases rule: line_next)
      case ends
      have "turn_result (chunk_turn d b (w @ rest)) = Ok (?d1 ChunksComplete 0, [], w @ rest)"
        unfolding trailer_turn_Ok [OF st] using ends w1 t1 by auto
      moreover have "resumes (?d1 ChunksComplete 0) (w @ rest) rest []"
        using l c1 ends by (intro resumesI [of _ 0 0]) (auto simp: pending_def within_def)
      ultimately show ?thesis by blast
    qed (use byte in \<open>auto simp: MAX_TRAILER_LINE_BYTES_def\<close>)
  next
    case (trailers_line line k' w')
    from trailers_line(2,3) pre show ?thesis
    proof (cases rule: line_next)
      case ends
      have "turn_result (chunk_turn d b (w @ rest)) = Ok (?d1 (TrailerLine []) 1, [], w @ rest)"
        unfolding trailer_turn_Ok [OF st] using ends w1 t1 trailers_line l by (auto simp: within_def)
      moreover have "resumes (?d1 (TrailerLine []) 1) (w @ rest) rest []"
        using l c1 ends trailers_line by (intro resumesI [of _ k' "length w"]) (auto simp: pending_def within_def)
      ultimately show ?thesis by blast
    qed (use byte trailers_line in auto)
  qed
qed

lemma pending_ne:
  assumes "state_ok d" "\<not> hc_is_complete d" "pending (hc_state d) k t w e"
  shows "w \<noteq> []"
proof
  assume w: "w = []"
  have "0x0a \<in> set v" if "chunked_coding k t v e" for k t v e
    using that by cases (simp_all add: CRLF_def)
  moreover have "0x0a \<in> set v" if "trailer_section k v" for k v
    using that by cases (simp_all add: CRLF_def)
  ultimately show False using assms w
    by (cases "hc_state d") (fastforce simp: state_ok_def pending_def partial_line_def hc_is_complete_def CRLF_def)+
qed

lemma turn_complete:
  assumes inv: "hc_inv d" and o: "\<not> hc_is_complete d" and r: "resumes d (b # bs) rest e"
  shows "\<exists>d1 o1 r1 e1. turn_result (chunk_turn d b bs) = Ok (d1, o1, r1) \<and> e = o1 @ e1 \<and> resumes d1 r1 rest e1"
proof -
  from r obtain k t w where w: "b # bs = w @ rest" "pending (hc_state d) k t w e" "within d k t w e"
    by (auto simp: resumes_def)
  have "w \<noteq> []" using pending_ne [OF _ o w(2)] inv by (simp add: hc_inv_def)
  with w(1) obtain v where v: "w = b # v" "bs = v @ rest" by (auto simp: Cons_eq_append_conv)
  show ?thesis
  proof (cases "hc_state d")
    case (SizeLine pre)
    with w v size_complete [OF SizeLine inv, of k t b v e rest] show ?thesis by (auto simp: pending_def)
  next
    case (ChunkData c)
    from data_complete [OF ChunkData inv w(2) [unfolded v] w(3) [unfolded v]] show ?thesis unfolding v by blast
  next
    case (DataCrLf seen)
    from crlf_complete [OF DataCrLf inv w(2) [unfolded v] w(3) [unfolded v], of rest] show ?thesis unfolding v by auto
  next
    case (TrailerLine pre)
    with w v trailer_complete [OF TrailerLine inv, of k b v rest] show ?thesis by (auto simp: pending_def)
  qed (use o in \<open>simp add: hc_is_complete_def\<close>)
qed

lemma read_chunked_iff:
  assumes "hc_inv d"
  shows "(\<exists>d'. read_chunked d input = Ok (d', e, rest) \<and> hc_is_complete d') \<longleftrightarrow> resumes d input rest e"
  using assms
proof (induction d input arbitrary: e rule: hc_loop.induct)
  case (1 d)
  show ?case
  proof (cases "hc_is_complete d")
    case True
    then have "within d 0 0 [] []" using 1 by (simp add: hc_inv_def within_def)
    with True show ?thesis by (auto simp: resumes_def hc_is_complete_def pending_def)
  next
    case False
    with 1 pending_ne [of d] show ?thesis by (auto simp: resumes_def hc_inv_def)
  qed
next
  case (2 d b bs)
  show ?case
  proof (cases "hc_is_complete d")
    case True
    then have "within d 0 0 [] []" using 2(2) by (simp add: hc_inv_def within_def)
    with True show ?thesis by (auto simp: resumes_def hc_is_complete_def pending_def)
  next
    case False
    obtain d1 o1 r1 x where t: "chunk_turn d b bs = (d1, o1, r1, x)" by (cases "chunk_turn d b bs") auto
    show ?thesis
    proof (cases x)
      case None
      with t have tr: "turn_result (chunk_turn d b bs) = Ok (d1, o1, r1)" by simp
      note ih = 2(1) [OF False t [symmetric] refl refl None]
      from turn_inv [OF 2(2) tr] have i: "hc_inv d1" by simp
      have "(\<exists>d'. read_chunked d (b # bs) = Ok (d', e, rest) \<and> hc_is_complete d')
          \<longleftrightarrow> (\<exists>e1. e = o1 @ e1 \<and> resumes d1 r1 rest e1)"
        using ih [OF i] by (auto simp: read_chunked_turn [OF False] tr then_read_def)
      also have "\<dots> \<longleftrightarrow> resumes d (b # bs) rest e"
        using turn_sound [OF 2(2) tr _ False] turn_complete [OF 2(2) False, of b bs rest e] tr by fastforce
      finally show ?thesis .
    next
      case (Some y)
      with t turn_complete [OF 2(2) False, of b bs rest e] show ?thesis
        by (auto simp: read_chunked_turn [OF False])
    qed
  qed
qed

lemma turn_wire:
  assumes inv: "hc_inv d" and turn: "turn_result (chunk_turn d b bs) = Ok (d1, o1, r1)" and "\<not> hc_is_complete d"
  shows "unat (wire_bytes d1) + length r1 = unat (wire_bytes d) + length (b # bs)"
proof (cases "hc_state d")
  case (ChunkData r)
  define c where "c = min (unat r) (length (b # bs))"
  from turn have w: "unat (wire_bytes d) + c \<le> MAX_HTTP_WIRE_BYTES" and d1: "d1 = after_data d r c" "r1 = drop c (b # bs)"
    by (auto simp: data_turn_result [OF ChunkData c_def] split: if_splits)
  have "unat (hc_decoded_bytes d) + c \<le> MAX_HTTP_BODY_BYTES"
    using inv ChunkData by (auto simp: hc_inv_def state_ok_def c_def)
  from after_data_counts(1) [OF w this] show ?thesis by (simp add: d1 c_def)
qed (use assms charge_one [of "wire_bytes d"] in
    \<open>auto simp: size_turn_Ok crlf_turn_Ok trailer_turn_Ok hc_is_complete_def\<close>)

lemma read_chunked_counts:
  assumes "hc_inv d" "read_chunked d input = Ok (d', out, rest)"
  shows "hc_inv d' \<and> unat (hc_decoded_bytes d') = unat (hc_decoded_bytes d) + length out
    \<and> unat (wire_bytes d') + length rest = unat (wire_bytes d) + length input"
  using assms
proof (induction d input arbitrary: out rule: hc_loop.induct)
  case (2 d b bs)
  show ?case
  proof (cases "hc_is_complete d")
    case False
    obtain d1 o1 r1 x where t: "chunk_turn d b bs = (d1, o1, r1, x)" by (cases "chunk_turn d b bs") auto
    from 2(3) False t have x: "x = None" by (cases x) (auto simp: read_chunked_turn)
    with t have tr: "turn_result (chunk_turn d b bs) = Ok (d1, o1, r1)" by simp
    from 2(3) obtain o2 where r: "read_chunked d1 r1 = Ok (d', o2, rest)" "out = o1 @ o2"
      by (auto simp: read_chunked_turn [OF False] tr then_read_def)
    from 2(1) [OF False t [symmetric] refl refl x _ r(1)] turn_inv [OF 2(2) tr] turn_wire [OF 2(2) tr False] r(2)
    show ?thesis by simp
  qed (use 2 in simp)
qed simp

lemma new_hc_inv: "hc_inv HttpChunkedDecoder_new"
  by (simp add: hc_inv_def state_ok_def HttpChunkedDecoder_new_def partial_line_def)

lemma read_chunked_rest: "read_chunked d input = Ok (d', out, rest) \<Longrightarrow> drop (length input - length rest) input = rest"
  using read_chunked_suffix by fastforce

lemma push_as_read:
  "HttpChunkedDecoder_push d input = (d', out, Ok p) \<longleftrightarrow>
     (\<exists>rest. read_chunked d input = Ok (d', out, rest) \<and> p = \<lparr>consumed = length input - length rest, dp_complete = hc_is_complete d'\<rparr>)"
  by (cases "hc_loop d input") (auto simp: HttpChunkedDecoder_push_def read_chunked_def turn_result_def split: option.splits)

section \<open>Properties\<close>

text \<open>C15. The decoder of the chunked coding decides the grammar: it reaches the end of a body exactly when the
  input begins with a sentence of the grammar within the limits.  It has then decoded the entity of that
  sentence and consumed the sentence and nothing of what follows it.\<close>

theorem chunked_body_decision:
  "(\<exists>d p. HttpChunkedDecoder_push HttpChunkedDecoder_new input = (d, entity, Ok p) \<and> dp_complete p
      \<and> rest = drop (consumed p) input)
   \<longleftrightarrow> (\<exists>trailers trailer_len wire. input = wire @ rest \<and> chunked_coding trailers trailer_len wire entity
      \<and> length wire \<le> MAX_HTTP_WIRE_BYTES \<and> length entity \<le> MAX_HTTP_BODY_BYTES
      \<and> trailer_len \<le> MAX_TRAILER_BYTES \<and> trailers \<le> MAX_TRAILERS)"
proof -
  have "(\<exists>d p. HttpChunkedDecoder_push HttpChunkedDecoder_new input = (d, entity, Ok p) \<and> dp_complete p
      \<and> rest = drop (consumed p) input)
    \<longleftrightarrow> (\<exists>d. read_chunked HttpChunkedDecoder_new input = Ok (d, entity, rest) \<and> hc_is_complete d)"
    unfolding push_as_read by (auto simp: read_chunked_rest)
  also have "\<dots> \<longleftrightarrow> resumes HttpChunkedDecoder_new input rest entity" by (rule read_chunked_iff [OF new_hc_inv])
  finally show ?thesis by (simp add: resumes_def pending_def within_def HttpChunkedDecoder_new_def)
qed

text \<open>C39. The counters of the decoder are exact and bounded: whatever is pushed into a new decoder, as long as it
  reports no error its decoded counter is the number of bytes it has decoded, its wire counter the number
  of bytes it has consumed, and neither exceeds its limit, so that the 64-bit additions never wrap around.\<close>

theorem chunked_counters_exact:
  assumes "HttpChunkedDecoder_push HttpChunkedDecoder_new input = (d, decoded, Ok p)"
  shows "unat (hc_decoded_bytes d) = length decoded \<and> unat (wire_bytes d) = consumed p
    \<and> length decoded \<le> MAX_HTTP_BODY_BYTES \<and> consumed p \<le> MAX_HTTP_WIRE_BYTES"
proof -
  from assms obtain rest where r: "read_chunked HttpChunkedDecoder_new input = Ok (d, decoded, rest)"
    "consumed p = length input - length rest" by (auto simp: push_as_read)
  with read_chunked_counts [OF new_hc_inv r(1)] show ?thesis
    by (auto simp: hc_inv_def HttpChunkedDecoder_new_def)
qed

text \<open>C28. How a body arrives in fragments does not matter: under every framing, reading two fragments at once is
  reading the first and then what is left of it followed by the second, errors included.\<close>

theorem body_fragments:
  "read_body framing (a @ b) = then_read read_body (read_body framing a) b"
  by (rule body.read_append)

definition demo_chunked :: bytes where
  "demo_chunked = ascii ''3'' @ CRLF @ ascii ''abc'' @ CRLF @ ascii ''0'' @ CRLF @ CRLF @ ascii ''GET''"

definition demo_decoder :: HttpChunkedDecoder where
  "demo_decoder = \<lparr>hc_state = ChunksComplete, wire_bytes = 13, hc_decoded_bytes = 3, trailer_bytes = 2, hc_trailers = 0\<rparr>"

lemmas limit_defs = MAX_HTTP_WIRE_BYTES_def MAX_HTTP_BODY_BYTES_def MAX_CHUNK_LINE_BYTES_def MAX_TRAILER_LINE_BYTES_def
  MAX_TRAILER_BYTES_def MAX_TRAILERS_def
lemmas demo_turns = size_line_turn_def chunk_data_turn_def data_crlf_turn_def trailer_line_turn_def
  parse_chunk_size_line_def size_digit_def checked_mul_def

lemma demo_push:
  "HttpChunkedDecoder_push HttpChunkedDecoder_new demo_chunked
     = (demo_decoder, ascii ''abc'', Ok \<lparr>consumed = 13, dp_complete = True\<rparr>)"
  by (simp add: HttpChunkedDecoder_push_def demo_chunked_def demo_decoder_def HttpChunkedDecoder_new_def CRLF_def
      hc_loop.simps(2) hc_is_complete_def chunk_turn_def demo_turns charged_def charge_wire_def checked_add_def limit_defs)

theorem chunked_counters_exact_witness:
  "HttpChunkedDecoder_push HttpChunkedDecoder_new demo_chunked
     = (demo_decoder, ascii ''abc'', Ok \<lparr>consumed = 13, dp_complete = True\<rparr>)
   \<and> unat (hc_decoded_bytes demo_decoder) = length (ascii ''abc'') \<and> unat (wire_bytes demo_decoder) = 13
   \<and> length (ascii ''abc'') \<le> MAX_HTTP_BODY_BYTES \<and> 13 \<le> MAX_HTTP_WIRE_BYTES"
  using chunked_counters_exact [OF demo_push] demo_push by simp

end
