(* ===== verification/Spec2Isabelle.thy ===== *)
theory Spec2Isabelle
  imports ChunkedAccept RouteRequests HashParts ListXml ChunkGrammar
begin

text \<open>
  A verification development for pgs3, an S3-compatible object store that runs inside
  PostgreSQL (Rust sources under \<^verbatim>\<open>src/src\<close>).

  \<^bold>\<open>The program.\<close>  A launcher (\<^verbatim>\<open>workers/launcher.rs\<close>) keeps a pool of background workers.  An HTTP
  worker (\<^verbatim>\<open>workers/http.rs\<close>) accepts connections, hands the bytes of a connection to the parser of
  request heads (\<^verbatim>\<open>protocol/http.rs\<close>) and then undoes the framing of the body: none, a known length or
  the chunked transfer coding.  The service (\<^verbatim>\<open>s3/service.rs\<close>) classifies the head as an S3 operation
  (\<^verbatim>\<open>s3/route.rs\<close>), checks its AWS Signature Version 4 (\<^verbatim>\<open>protocol/sigv4.rs\<close>), reads ranges and
  preconditions (\<^verbatim>\<open>protocol/headers.rs\<close>), decodes bodies in the \<^verbatim>\<open>aws-chunked\<close> encoding
  (\<^verbatim>\<open>protocol/chunked.rs\<close>) or as XML (\<^verbatim>\<open>protocol/xml.rs\<close>), calls SQL functions (\<^verbatim>\<open>s3/db.rs\<close>) and answers with
  XML documents (\<^verbatim>\<open>s3/xml.rs\<close>, \<^verbatim>\<open>s3/types.rs\<close>).  Objects are graphs of blobs; the SQL functions read and
  hash them through \<^verbatim>\<open>hash.rs\<close>.

  \<^bold>\<open>Conventions.\<close>  A \<^verbatim>\<open>u8\<close> is an \<open>8 word\<close> and a \<^verbatim>\<open>u64\<close> a \<open>64 word\<close>; \<^verbatim>\<open>usize\<close> is \<open>nat\<close>; \<^verbatim>\<open>i32\<close> and \<^verbatim>\<open>i64\<close> are
  \<open>int\<close> with the range checks of the checked operations written out.  \<^verbatim>\<open>str\<close> is its UTF-8 bytes.  A
  \<^verbatim>\<open>Result\<close> is a sum, the \<^verbatim>\<open>?\<close> operator is \<open>rbind\<close>; a method that changes its object returns the new record.
  A definition has the name of the Rust function, with the type in front where several types share it.

  \<^bold>\<open>Theories, sources and results.\<close>
  \<^item> \<^verbatim>\<open>Prelude\<close>, \<^verbatim>\<open>Text\<close>: \<^verbatim>\<open>Result\<close>, slices, checked arithmetic, ASCII classes, UTF-8 and numerals of the
    standard library, and three contracts: \<open>codec\<close>, \<open>multimap\<close> and \<open>incremental\<close> (a consumer of fragments).
  \<^item> \<^verbatim>\<open>Http\<close> (\<^verbatim>\<open>protocol/http.rs\<close>; state \<open>RequestHeadParser\<close>): fragmentation does not change the verdict on a
    head, what follows the head is kept, heads are parsed back, and an accepted head has one host and
    one way to frame its body.
  \<^item> \<^verbatim>\<open>Headers\<close> (\<^verbatim>\<open>protocol/headers.rs\<close>): a range resolves to exactly the offsets it selects; preconditions
    are evaluated as stated from the header bytes on.
  \<^item> \<^verbatim>\<open>Encoding\<close>, \<^verbatim>\<open>Calendar\<close>, \<^verbatim>\<open>Sigv4\<close> (\<^verbatim>\<open>protocol/sigv4.rs\<close>): percent and hexadecimal codecs, date
    conversions against a count of days, and both verification procedures as decisions: accepted exactly
    when a declarative condition holds.  A signature binds method, path, query, signed headers,
    date and payload declaration, unless two explicit strings collide under SHA-256 or under HMAC.
  \<^item> \<^verbatim>\<open>Chunked\<close>, \<^verbatim>\<open>ChunkedFeed\<close>, \<^verbatim>\<open>ChunkedBody\<close>, \<^verbatim>\<open>ChunkedAccept\<close> (\<^verbatim>\<open>protocol/chunked.rs\<close>; state
    \<open>AwsChunkedDecoder\<close>): an invariant kept by every round, termination, no panic, length bounds,
    fragmentation, authenticity of delivered bytes, checked trailers, and acceptance of the bodies clients
    write.  The line limit is the exception to fragmentation and is stated as such.
  \<^item> \<^verbatim>\<open>Xml\<close> (\<^verbatim>\<open>protocol/xml.rs\<close>), \<^verbatim>\<open>S3Types\<close> (\<^verbatim>\<open>s3/types.rs\<close>): bounded trees, part lists in order and read back,
    responses read back by a lexer, unique request identifiers, framed errors.
  \<^item> \<^verbatim>\<open>Route\<close>, \<^verbatim>\<open>RouteRequests\<close> (\<^verbatim>\<open>s3/route.rs\<close>): every classified operation is well formed, and the request a
    client writes for an operation is classified as that operation, four presigned bucket requests apart.
  \<^item> \<^verbatim>\<open>Hash\<close>, \<^verbatim>\<open>BlobRead\<close>, \<^verbatim>\<open>BlobSound\<close>, \<^verbatim>\<open>HashParts\<close> (\<^verbatim>\<open>hash.rs\<close>; the tables are the record \<open>Store\<close>): a
    traversal refines the blob as a function from positions to bytes, sound blobs are delivered, and digests
    are those of the content; contract \<open>sink\<close> of the callbacks.
  \<^item> \<^verbatim>\<open>ListXml\<close> (\<^verbatim>\<open>s3/xml.rs\<close>): listings are read back; paging through parts ends and is exact for
    positive page sizes and does not end for a page of zero.
  \<^item> \<^verbatim>\<open>Framing\<close>, \<^verbatim>\<open>ChunkGrammar\<close> (\<^verbatim>\<open>workers/http.rs\<close>; state \<open>HttpChunkedDecoder\<close>, \<open>BodyFraming\<close>): the decoder
    of the chunked coding decides a grammar within its limits, its counters are exact, and bodies may be cut
    anywhere; contract \<open>framed\<close>, interpreted by the decoder and by every framing.

  \<^bold>\<open>Parameters.\<close>  SHA-256, HMAC, MD5, CRC and Base64 (crates), the parser of HTTP dates (crate), the
  tables a statement sees and the clock are arguments.  What is assumed of them is a named hypothesis
  (\<open>hashes_incremental\<close>, \<open>hashers_incremental\<close>, the 32 bytes of an HMAC) with a concrete instance in a
  witness.

  \<^bold>\<open>Bounds and fuel.\<close>  Loops are total functions: the decoders by the length of the unread input and the
  phase, the blob traversal by the 64 levels (\<open>MAX_BLOB_DEPTH\<close>) the code itself enforces.  The only fuel is
  that of \<open>follow_parts\<close>, a client and not part of the program; one more than the number of parts left is
  proved to be enough.

  \<^bold>\<open>Not modelled.\<close>
  \<^item> \<^verbatim>\<open>s3/service.rs\<close>: the handlers of the operations.  Each is a sequence of SQL calls whose effect is
    defined by the SQL functions; its pure helpers (checksum headers, metadata JSON) are left out too.
  \<^item> \<^verbatim>\<open>s3/db.rs\<close>: statements sent through SPI and their transactions; only its row records are modelled.
  \<^item> \<^verbatim>\<open>workers/http.rs\<close> beyond body framing: the exchange, response serialisation, sockets, time-outs,
    the reactor and its metrics.
  \<^item> \<^verbatim>\<open>workers/launcher.rs\<close>, \<^verbatim>\<open>workers/gc.rs\<close>, \<^verbatim>\<open>workers/mod.rs\<close>: background worker registration, latches and
    worker state kept by PostgreSQL, with the metric counters and the child argument.
  \<^item> \<^verbatim>\<open>config.rs\<close>, \<^verbatim>\<open>api.rs\<close>, \<^verbatim>\<open>lib.rs\<close>: settings and registration with PostgreSQL.
  \<^item> \<^verbatim>\<open>sql/\<close>: the schema and the semantic functions, which are not Rust.
\<close>

end
